(* ===== verification/Kv_Prelude.thy ===== *)
theory Kv_Prelude
  imports Main "HOL-Library.Word"
begin

unbundle bit_operations_syntax

text \<open>
  Shared vocabulary of the development: the machine types, the faults an execution of the C code
  can end in, sequencing of computations that may fault, and the heap blocks that
  \<^verbatim>\<open>malloc\<close>, \<^verbatim>\<open>realloc\<close>, \<^verbatim>\<open>free\<close>, \<^verbatim>\<open>memcpy\<close> and \<^verbatim>\<open>memcmp\<close> work on.
  A pointer argument that the code compares with \<^verbatim>\<open>NULL\<close> is an \<open>option\<close>; a block that has been
  allocated and not yet written holds \<open>None\<close> in its cells, so that reading an uninitialised byte is
  a fault and not an arbitrary value.
\<close>

section \<open>Machine types and collections of rules\<close>

type_synonym byte = "8 word"
type_synonym u16 = "16 word"
type_synonym u32 = "32 word"
type_synonym u64 = "64 word"

named_theorems block_simps \<open>reading, writing and resizing heap blocks\<close>
named_theorems res_simps \<open>sequencing of computations that may fault\<close>
named_theorems len_simps \<open>lengths of the byte arrays the components build\<close>

section \<open>Faults and their propagation\<close>

datatype fault =
  AssertFail | NullDeref | OutOfBounds | UninitRead | UseAfterFree | DoubleFree | SignedOverflow | DivByZero | ExitProcess

type_synonym 'a res = "fault + 'a"

definition bindE :: "'a res \<Rightarrow> ('a \<Rightarrow> 'b res) \<Rightarrow> 'b res" where
  "bindE m f = (case m of Inl e \<Rightarrow> Inl e | Inr x \<Rightarrow> f x)"

lemma bindE_Inr [simp, res_simps]: "bindE (Inr x) f = f x"
  by (simp add: bindE_def)

lemma bindE_Inl [simp, res_simps]: "bindE (Inl e) f = Inl e"
  by (simp add: bindE_def)

lemma bindE_eq_Inr [res_simps]: "bindE m f = Inr y \<longleftrightarrow> (\<exists>x. m = Inr x \<and> f x = Inr y)"
  by (auto simp: bindE_def split: sum.splits)

lemma bindE_cong [fundef_cong]:
  "m = m' \<Longrightarrow> (\<And>x. m' = Inr x \<Longrightarrow> f x = f' x) \<Longrightarrow> bindE m f = bindE m' f'"
  by (auto simp: bindE_def split: sum.splits)

section \<open>Heap blocks\<close>

datatype block = Null | Block "byte option list" | Freed

text \<open>The first argument says whether the allocator grants the request.\<close>

definition malloc :: "bool \<Rightarrow> nat \<Rightarrow> block" where
  "malloc ok n = (if ok then Block (replicate n None) else Null)"

text \<open>
  \<open>realloc\<close> returns the new pointer and what the old pointer refers to afterwards. A request for
  zero bytes frees the block and returns \<^verbatim>\<open>NULL\<close>, as the C library of the target system does.
\<close>

fun realloc :: "bool \<Rightarrow> block \<Rightarrow> nat \<Rightarrow> (block \<times> block) res" where
  "realloc ok Null n = Inr (malloc ok n, Null)"
| "realloc ok Freed n = Inl UseAfterFree"
| "realloc ok (Block cs) n =
     (if n = 0 then Inr (Null, Freed)
      else if ok then Inr (Block (take n cs @ replicate (n - length cs) None), Freed)
      else Inr (Null, Block cs))"

fun free :: "block \<Rightarrow> block res" where
  "free Null = Inr Null"
| "free (Block cs) = Inr Freed"
| "free Freed = Inl DoubleFree"

text \<open>\<^verbatim>\<open>memcpy\<close> into a block at a byte offset, and reading a number of bytes from one.\<close>

fun bwrite :: "block \<Rightarrow> nat \<Rightarrow> byte list \<Rightarrow> block res" where
  "bwrite Null off bs = Inl NullDeref"
| "bwrite Freed off bs = Inl UseAfterFree"
| "bwrite (Block cs) off bs =
     (if off + length bs \<le> length cs
      then Inr (Block (take off cs @ map Some bs @ drop (off + length bs) cs))
      else Inl OutOfBounds)"

fun bread :: "block \<Rightarrow> nat \<Rightarrow> nat \<Rightarrow> byte list res" where
  "bread Null off n = Inl NullDeref"
| "bread Freed off n = Inl UseAfterFree"
| "bread (Block cs) off n =
     (if off + n \<le> length cs then
        let w = take n (drop off cs)
        in if None \<in> set w then Inl UninitRead else Inr (map the w)
      else Inl OutOfBounds)"

lemma bread_length [len_simps]: "bread b off n = Inr bs \<Longrightarrow> length bs = n"
  by (cases b) (auto simp: Let_def split: if_splits)

lemma malloc_eq_Null [block_simps]: "malloc ok n = Null \<longleftrightarrow> \<not> ok"
  by (simp add: malloc_def)

text \<open>Reading back what was written, and reading beside it.\<close>

lemma bread_bwrite_same [block_simps]:
  assumes "bwrite b off bs = Inr b'"
  shows "bread b' off (length bs) = Inr bs"
  using assms by (cases b) (auto split: if_splits simp: min_def o_def)

lemma bread_bwrite_other [block_simps]:
  assumes "bwrite b off bs = Inr b'" and "p + n \<le> off \<or> off + length bs \<le> p"
  shows "bread b' p n = bread b p n"
proof (cases b)
  case (Block cs)
  with assms(1) have len: "off + length bs \<le> length cs"
    and b': "b' = Block (take off cs @ map Some bs @ drop (off + length bs) cs)"
    by (auto split: if_splits)
  define ds where "ds = take off cs @ map Some bs @ drop (off + length bs) cs"
  have dslen: "length ds = length cs" using len by (simp add: ds_def)
  have "take n (drop p ds) = take n (drop p cs)"
  proof (rule nth_equalityI)
    show "length (take n (drop p ds)) = length (take n (drop p cs))"
      using dslen by simp
  next
    fix i
    assume "i < length (take n (drop p ds))"
    then have i: "i < n" "p + i < length cs" using dslen by auto
    from assms(2) i(1) have "p + i < off \<or> off + length bs \<le> p + i" by auto
    then have "ds ! (p + i) = cs ! (p + i)"
      using len by (auto simp: ds_def nth_append)
    with i dslen show "take n (drop p ds) ! i = take n (drop p cs) ! i" by simp
  qed
  with Block b' len dslen show ?thesis by (simp add: Let_def ds_def)
qed (use assms in auto)

lemma bread_realloc [block_simps]:
  assumes "realloc ok (Block cs) m = Inr (b', old)" and "b' \<noteq> Null"
    and "p + n \<le> m" and "p + n \<le> length cs"
  shows "bread b' p n = bread (Block cs) p n"
proof -
  from assms(1,2) have "b' = Block (take m cs @ replicate (m - length cs) None)"
    by (auto split: if_splits)
  moreover have "take n (drop p (take m cs @ replicate (m - length cs) None)) = take n (drop p cs)"
    using assms(3,4) by (auto simp: drop_take min_def)
  ultimately show ?thesis using assms(3,4) by (simp add: Let_def)
qed

section \<open>Arrays of structures\<close>

text \<open>An element of an array whose size is the length of the list.\<close>

definition idx :: "'a list \<Rightarrow> nat \<Rightarrow> 'a res" where
  "idx xs i = (if i < length xs then Inr (xs ! i) else Inl OutOfBounds)"

definition upd :: "'a list \<Rightarrow> nat \<Rightarrow> 'a \<Rightarrow> 'a list res" where
  "upd xs i x = (if i < length xs then Inr (xs[i := x]) else Inl OutOfBounds)"

lemma idx_in [simp]: "i < length xs \<Longrightarrow> idx xs i = Inr (xs ! i)"
  by (simp add: idx_def)

lemma upd_in [simp]: "i < length xs \<Longrightarrow> upd xs i x = Inr (xs[i := x])"
  by (simp add: upd_def)

section \<open>Byte arrays of a caller\<close>

text \<open>Reading from and writing into an array whose size is the length of the list.\<close>

definition arr_read :: "'a list \<Rightarrow> int \<Rightarrow> nat \<Rightarrow> 'a list res" where
  "arr_read xs off n = (if 0 \<le> off \<and> nat off + n \<le> length xs then Inr (take n (drop (nat off) xs))
     else Inl OutOfBounds)"

definition arr_write :: "'a list \<Rightarrow> int \<Rightarrow> 'a list \<Rightarrow> 'a list res" where
  "arr_write xs off bs = (if 0 \<le> off \<and> nat off + length bs \<le> length xs
     then Inr (take (nat off) xs @ bs @ drop (nat off + length bs) xs) else Inl OutOfBounds)"

lemma arr_read_length: "arr_read xs off n = Inr ys \<Longrightarrow> length ys = n"
  by (auto simp: arr_read_def split: if_splits)

lemma arr_read_ok: "off + n \<le> length xs \<Longrightarrow> arr_read xs (int off) n = Inr (take n (drop off xs))"
  by (simp add: arr_read_def)

lemma arr_write_ok:
  "off + length bs \<le> length xs \<Longrightarrow>
     arr_write xs (int off) bs = Inr (take off xs @ bs @ drop (off + length bs) xs)"
  by (simp add: arr_write_def)

lemma arr_write_length: "arr_write xs off bs = Inr ys \<Longrightarrow> length ys = length xs"
  by (auto simp: arr_write_def split: if_splits)

section \<open>Words\<close>

lemma unat_shiftr1_less: "q \<noteq> 0 \<Longrightarrow> unat (drop_bit 1 q) < unat q" for q :: "'a::len word"
proof -
  assume "q \<noteq> 0"
  then have "0 < unat q" by (simp add: unat_gt_0)
  moreover have "unat (drop_bit 1 q) = unat q div 2"
    by (subst unat_drop_bit_eq) (simp add: drop_bit_eq_div)
  ultimately show ?thesis by simp
qed

lemma unat_add_no_wrap:
  "unat a + unat b < 2 ^ LENGTH('a) \<Longrightarrow> unat (a + b) = unat a + unat b" for a b :: "'a::len word"
  by (simp add: unat_word_ariths)

lemma unat_byte_less: "unat (b :: byte) < 256"
  using unsigned_less [of b, where ?'a = nat] by simp

lemma byte_msb: "(b AND 0x80 = 0) = (unat b < 128)" for b :: byte
proof -
  have e: "(0x80 :: byte) = 2 ^ 7" by simp
  have "(b AND 0x80 = 0) = (\<not> bit b 7)" unfolding e by (rule and_exp_eq_0_iff_not_bit)
  also have "\<dots> = (\<not> bit (unat b) 7)" by (simp add: bit_unsigned_iff)
  also have "\<dots> = (unat b < 128)"
  proof (cases "unat b < 128")
    case False
    then have "unat b div 128 = 1" using unat_byte_less [of b] by (intro div_nat_eqI) auto
    then show ?thesis using False by (simp add: bit_nat_def)
  qed (simp add: bit_nat_def)
  finally show ?thesis .
qed

lemma unat_of_nat_eq: "n < 2 ^ LENGTH('a) \<Longrightarrow> unat (word_of_nat n :: 'a::len word) = n"
  by (simp add: unsigned_of_nat take_bit_nat_eq_self)

lemma unat_u64_less: "unat (w :: u64) < 18446744073709551616"
proof -
  have "unat w < 2 ^ LENGTH(64)" by (rule unsigned_less)
  then show ?thesis by simp
qed

lemma unat_sub_no_wrap: "unat b \<le> unat a \<Longrightarrow> unat (a - b) = unat a - unat b" for a b :: "'a::len word"
  by (simp add: unat_sub_if')

lemma sint_small:
  fixes a :: u32
  assumes "unat a < 2 ^ 31"
  shows "sint a = int (unat a)"
proof -
  have lt: "int (unat a) < int (2 ^ 31)" using assms by (simp only: of_nat_less_iff)
  then have "uint a < 2 ^ 31" by simp
  moreover have "0 \<le> uint a" by simp
  ultimately have "signed_take_bit 31 (uint a) = uint a" by (intro signed_take_bit_int_eq_self) linarith+
  then show ?thesis by (simp add: sint_uint)
qed

lemma unat_ucast64 [simp]: "unat (ucast (a :: u32) :: u64) = unat a"
  by (simp add: unsigned_ucast_eq take_bit_nat_eq_self less_trans [OF unsigned_less])

lemma unat_ucast32: "unat (a :: u64) < 2 ^ 32 \<Longrightarrow> unat (ucast a :: u32) = unat a"
  by (simp add: unsigned_ucast_eq take_bit_nat_eq_self)

text \<open>Equality of bytes, bit by bit.\<close>

lemma byte_eqI:
  fixes v w :: byte
  assumes "bit v 0 = bit w 0" and "bit v 1 = bit w 1" and "bit v 2 = bit w 2" and "bit v 3 = bit w 3"
    and "bit v 4 = bit w 4" and "bit v 5 = bit w 5" and "bit v 6 = bit w 6" and "bit v 7 = bit w 7"
  shows "v = w"
proof (rule bit_word_eqI)
  fix n assume "n < LENGTH(8)"
  then have "n = 0 \<or> n = 1 \<or> n = 2 \<or> n = 3 \<or> n = 4 \<or> n = 5 \<or> n = 6 \<or> n = 7"
    by (simp only: len_num0 len_num1 len_bit0) linarith
  then show "bit v n = bit w n" using assms by blast
qed

section \<open>Splitting a list into blocks\<close>

text \<open>The full blocks of a list; what is left at the end is dropped.\<close>

function chunks :: "nat \<Rightarrow> 'a list \<Rightarrow> 'a list list" where
  "chunks n xs = (if n = 0 \<or> length xs < n then [] else take n xs # chunks n (drop n xs))"
  by pat_completeness auto
termination
  by (relation "measure (\<lambda>(n, xs). length xs)") auto

declare chunks.simps [simp del]

lemma chunks_short [simp]: "length xs < n \<Longrightarrow> chunks n xs = []"
  by (simp add: chunks.simps)

lemma chunks_one: "0 < n \<Longrightarrow> length xs = n \<Longrightarrow> chunks n xs = [xs]"
  by (simp add: chunks.simps [of n xs])

lemma chunks_block: "0 < n \<Longrightarrow> length b = n \<Longrightarrow> chunks n (b @ xs) = b # chunks n xs"
  by (simp add: chunks.simps [of n "b @ xs"])

lemma chunks_append: "0 < n \<Longrightarrow> n dvd length xs \<Longrightarrow> chunks n (xs @ ys) = chunks n xs @ chunks n ys"
proof (induction n xs rule: chunks.induct)
  case (1 n xs)
  show ?case
  proof (cases "length xs < n")
    case True
    with 1(3) have "xs = []" by (metis dvd_imp_le length_0_conv not_le neq0_conv)
    then show ?thesis using 1(2) by simp
  next
    case False
    have "n dvd length (drop n xs)" using 1(3) by (simp add: dvd_diff_nat)
    with 1 False have "chunks n (drop n xs @ ys) = chunks n (drop n xs) @ chunks n ys" by simp
    with False 1(2) show ?thesis
      by (simp add: chunks.simps [of n "xs @ ys"] chunks.simps [of n xs])
  qed
qed

lemma chunks_append_short:
  assumes "0 < n" and "n dvd length xs" and "length ys < n"
  shows "chunks n (xs @ ys) = chunks n xs"
  using assms by (simp add: chunks_append)

lemma length_chunks_elem: "0 < n \<Longrightarrow> b \<in> set (chunks n xs) \<Longrightarrow> length b = n"
proof (induction n xs rule: chunks.induct)
  case (1 n xs)
  then show ?case by (cases "length xs < n") (auto simp: chunks.simps [of n xs])
qed

lemma concat_chunks: "0 < n \<Longrightarrow> n dvd length xs \<Longrightarrow> concat (chunks n xs) = xs"
proof (induction n xs rule: chunks.induct)
  case (1 n xs)
  show ?case
  proof (cases "length xs < n")
    case True
    with 1(3) have "xs = []" by (metis dvd_imp_le length_0_conv not_le neq0_conv)
    then show ?thesis using 1(2) by simp
  next
    case False
    have "n dvd length (drop n xs)" using 1(3) by (simp add: dvd_diff_nat)
    with 1 False show ?thesis by (simp add: chunks.simps [of n xs])
  qed
qed

end
