(* ===== verification/Sha256.thy ===== *)
theory Sha256
  imports Kv_Prelude
begin

text \<open>
  The hash function of \<^verbatim>\<open>src/src/merkle/sha224-256.c\<close>, with the macros and the context structure of
  \<^verbatim>\<open>sha.h\<close>: SHA-224 and SHA-256 as streaming computations on a context. The code comes first, then a
  reference definition of the two hash functions on whole messages after FIPS 180, and the lemmas that
  the streaming code computes it: an invariant says what a context that has absorbed a message looks
  like, every operation is shown to keep it, and finalising such a context gives the reference digest.
\<close>

section \<open>Constants, macros and the context\<close>

definition shaSuccess :: int where "shaSuccess = 0"
definition shaNull :: int where "shaNull = 1"
definition shaInputTooLong :: int where "shaInputTooLong = 2"
definition shaStateError :: int where "shaStateError = 3"
definition shaBadParam :: int where "shaBadParam = 4"

lemmas sha_codes = shaSuccess_def shaNull_def shaInputTooLong_def shaStateError_def shaBadParam_def

definition SHA256_Message_Block_Size :: nat where "SHA256_Message_Block_Size = 64"
definition SHA224HashSize :: nat where "SHA224HashSize = 28"
definition SHA256HashSize :: nat where "SHA256HashSize = 32"

lemmas sha_sizes = SHA256_Message_Block_Size_def SHA224HashSize_def SHA256HashSize_def

definition SHA_Ch :: "u32 \<Rightarrow> u32 \<Rightarrow> u32 \<Rightarrow> u32" where
  "SHA_Ch x y z = (x AND y) XOR (NOT x AND z)"

definition SHA_Maj :: "u32 \<Rightarrow> u32 \<Rightarrow> u32 \<Rightarrow> u32" where
  "SHA_Maj x y z = (x AND y) XOR (x AND z) XOR (y AND z)"

text \<open>The variants selected by \<^verbatim>\<open>USE_MODIFIED_MACROS\<close>.\<close>

definition SHA_Ch_modified :: "u32 \<Rightarrow> u32 \<Rightarrow> u32 \<Rightarrow> u32" where
  "SHA_Ch_modified x y z = (x AND (y XOR z)) XOR z"

definition SHA_Maj_modified :: "u32 \<Rightarrow> u32 \<Rightarrow> u32 \<Rightarrow> u32" where
  "SHA_Maj_modified x y z = (x AND (y OR z)) OR (y AND z)"

definition SHA_Parity :: "u32 \<Rightarrow> u32 \<Rightarrow> u32 \<Rightarrow> u32" where
  "SHA_Parity x y z = x XOR y XOR z"

definition SHA256_SHR :: "nat \<Rightarrow> u32 \<Rightarrow> u32" where
  "SHA256_SHR bits w = drop_bit bits w"

definition SHA256_ROTL :: "nat \<Rightarrow> u32 \<Rightarrow> u32" where
  "SHA256_ROTL bits w = push_bit bits w OR drop_bit (32 - bits) w"

definition SHA256_ROTR :: "nat \<Rightarrow> u32 \<Rightarrow> u32" where
  "SHA256_ROTR bits w = drop_bit bits w OR push_bit (32 - bits) w"

definition SHA256_SIGMA0 :: "u32 \<Rightarrow> u32" where
  "SHA256_SIGMA0 w = SHA256_ROTR 2 w XOR SHA256_ROTR 13 w XOR SHA256_ROTR 22 w"

definition SHA256_SIGMA1 :: "u32 \<Rightarrow> u32" where
  "SHA256_SIGMA1 w = SHA256_ROTR 6 w XOR SHA256_ROTR 11 w XOR SHA256_ROTR 25 w"

definition SHA256_sigma0 :: "u32 \<Rightarrow> u32" where
  "SHA256_sigma0 w = SHA256_ROTR 7 w XOR SHA256_ROTR 18 w XOR SHA256_SHR 3 w"

definition SHA256_sigma1 :: "u32 \<Rightarrow> u32" where
  "SHA256_sigma1 w = SHA256_ROTR 17 w XOR SHA256_ROTR 19 w XOR SHA256_SHR 10 w"

definition SHA224_H0 :: "u32 list" where
  "SHA224_H0 = [0xC1059ED8, 0x367CD507, 0x3070DD17, 0xF70E5939,
                0xFFC00B31, 0x68581511, 0x64F98FA7, 0xBEFA4FA4]"

definition SHA256_H0 :: "u32 list" where
  "SHA256_H0 = [0x6A09E667, 0xBB67AE85, 0x3C6EF372, 0xA54FF53A,
                0x510E527F, 0x9B05688C, 0x1F83D9AB, 0x5BE0CD19]"

definition SHA256_K :: "u32 list" where
  "SHA256_K =
     0x428a2f98 # 0x71374491 # 0xb5c0fbcf # 0xe9b5dba5 #
     0x3956c25b # 0x59f111f1 # 0x923f82a4 # 0xab1c5ed5 #
     0xd807aa98 # 0x12835b01 # 0x243185be # 0x550c7dc3 #
     0x72be5d74 # 0x80deb1fe # 0x9bdc06a7 # 0xc19bf174 #
     0xe49b69c1 # 0xefbe4786 # 0x0fc19dc6 # 0x240ca1cc #
     0x2de92c6f # 0x4a7484aa # 0x5cb0a9dc # 0x76f988da #
     0x983e5152 # 0xa831c66d # 0xb00327c8 # 0xbf597fc7 #
     0xc6e00bf3 # 0xd5a79147 # 0x06ca6351 # 0x14292967 #
     0x27b70a85 # 0x2e1b2138 # 0x4d2c6dfc # 0x53380d13 #
     0x650a7354 # 0x766a0abb # 0x81c2c92e # 0x92722c85 #
     0xa2bfe8a1 # 0xa81a664b # 0xc24b8b70 # 0xc76c51a3 #
     0xd192e819 # 0xd6990624 # 0xf40e3585 # 0x106aa070 #
     0x19a4c116 # 0x1e376c08 # 0x2748774c # 0x34b0bcb5 #
     0x391c0cb3 # 0x4ed8aa4a # 0x5b9cca4f # 0x682e6ff3 #
     0x748f82ee # 0x78a5636f # 0x84c87814 # 0x8cc70208 #
     0x90befffa # 0xa4506ceb # 0xbef9a3f7 # 0xc67178f2 #
     []"

text \<open>
  \<open>Message_Block_Index\<close> counts from 0 to 64; \<open>Corrupted\<close> holds a result code and is zero in a sound
  context.
\<close>

record SHA256Context =
  Intermediate_Hash :: "u32 list"
  Length_Low :: u32
  Length_High :: u32
  Message_Block_Index :: nat
  Message_Block :: "byte list"
  Computed :: bool
  Corrupted :: int

definition SHA224_256AddLength :: "SHA256Context \<Rightarrow> u32 \<Rightarrow> SHA256Context" where
  "SHA224_256AddLength context len =
     (let addTemp = Length_Low context;
          low = Length_Low context + len;
          high = (if low < addTemp then Length_High context + 1 else Length_High context)
      in context\<lparr>Length_Low := low, Length_High := high,
           Corrupted := (if low < addTemp \<and> high = 0 then 1 else 0)\<rparr>)"

section \<open>Processing one block\<close>

type_synonym sha_vars = "u32 \<times> u32 \<times> u32 \<times> u32 \<times> u32 \<times> u32 \<times> u32 \<times> u32"

text \<open>The first sixteen words are the big-endian words of the block.\<close>

definition sha_W_init :: "byte list \<Rightarrow> u32 list" where
  "sha_W_init mb = map (\<lambda>t. push_bit 24 (ucast (mb ! (4 * t))) OR push_bit 16 (ucast (mb ! (4 * t + 1)))
      OR push_bit 8 (ucast (mb ! (4 * t + 2))) OR ucast (mb ! (4 * t + 3))) [0..<16]"

definition sha_W_step :: "u32 list \<Rightarrow> nat \<Rightarrow> u32 list" where
  "sha_W_step W t = W @ [SHA256_sigma1 (W ! (t - 2)) + W ! (t - 7)
      + SHA256_sigma0 (W ! (t - 15)) + W ! (t - 16)]"

definition sha_W :: "byte list \<Rightarrow> u32 list" where
  "sha_W mb = foldl sha_W_step (sha_W_init mb) [16..<64]"

fun sha_round :: "u32 list \<Rightarrow> sha_vars \<Rightarrow> nat \<Rightarrow> sha_vars" where
  "sha_round W (A, B, C, D, E, F, G, H) t =
     (let temp1 = H + SHA256_SIGMA1 E + SHA_Ch E F G + SHA256_K ! t + W ! t;
          temp2 = SHA256_SIGMA0 A + SHA_Maj A B C
      in (temp1 + temp2, A, B, C, D + temp1, E, F, G))"

definition sha_rounds :: "u32 list \<Rightarrow> byte list \<Rightarrow> u32 list" where
  "sha_rounds ih mb =
     (let W = sha_W mb;
          (A, B, C, D, E, F, G, H) =
            foldl (sha_round W) (ih ! 0, ih ! 1, ih ! 2, ih ! 3, ih ! 4, ih ! 5, ih ! 6, ih ! 7) [0..<64]
      in [ih ! 0 + A, ih ! 1 + B, ih ! 2 + C, ih ! 3 + D, ih ! 4 + E, ih ! 5 + F, ih ! 6 + G, ih ! 7 + H])"

definition SHA224_256ProcessMessageBlock :: "SHA256Context \<Rightarrow> SHA256Context" where
  "SHA224_256ProcessMessageBlock context =
     context\<lparr>Intermediate_Hash := sha_rounds (Intermediate_Hash context) (Message_Block context),
       Message_Block_Index := 0\<rparr>"

section \<open>Reset and input\<close>

definition SHA224_256Reset :: "SHA256Context option \<Rightarrow> u32 list \<Rightarrow> int \<times> SHA256Context option" where
  "SHA224_256Reset context H0 = (case context of None \<Rightarrow> (shaNull, None) | Some c \<Rightarrow>
     (shaSuccess, Some (c\<lparr>Length_Low := 0, Length_High := 0, Message_Block_Index := 0,
       Intermediate_Hash := [H0 ! 0, H0 ! 1, H0 ! 2, H0 ! 3, H0 ! 4, H0 ! 5, H0 ! 6, H0 ! 7],
       Computed := False, Corrupted := 0\<rparr>)))"

definition SHA224Reset :: "SHA256Context option \<Rightarrow> int \<times> SHA256Context option" where
  "SHA224Reset context = SHA224_256Reset context SHA224_H0"

definition SHA256Reset :: "SHA256Context option \<Rightarrow> int \<times> SHA256Context option" where
  "SHA256Reset context = SHA224_256Reset context SHA256_H0"

text \<open>Store one byte at the index and advance it.\<close>

definition sha_put :: "SHA256Context \<Rightarrow> byte \<Rightarrow> SHA256Context" where
  "sha_put context b = context\<lparr>
     Message_Block := (Message_Block context)[Message_Block_Index context := b],
     Message_Block_Index := Message_Block_Index context + 1\<rparr>"

definition sha_input_byte :: "SHA256Context \<Rightarrow> byte \<Rightarrow> SHA256Context" where
  "sha_input_byte context m =
     (let c = SHA224_256AddLength (sha_put context (m AND 0xFF)) 8
      in if Corrupted c = 0 \<and> Message_Block_Index c = SHA256_Message_Block_Size
         then SHA224_256ProcessMessageBlock c else c)"

fun sha_input_loop :: "nat \<Rightarrow> SHA256Context \<Rightarrow> byte list \<Rightarrow> SHA256Context res" where
  "sha_input_loop 0 c ms = Inr c"
| "sha_input_loop (Suc n) c ms =
     (if Corrupted c \<noteq> 0 then Inr c
      else case ms of [] \<Rightarrow> Inl OutOfBounds | m # ms' \<Rightarrow> sha_input_loop n (sha_input_byte c m) ms')"

definition SHA256Input :: "SHA256Context option \<Rightarrow> byte list option \<Rightarrow> u32 \<Rightarrow> (int \<times> SHA256Context option) res" where
  "SHA256Input context message_array len =
     (if len = 0 then Inr (shaSuccess, context)
      else case (context, message_array) of
        (Some c, Some ms) \<Rightarrow>
          if Computed c then Inr (shaStateError, Some (c\<lparr>Corrupted := shaStateError\<rparr>))
          else if Corrupted c \<noteq> 0 then Inr (Corrupted c, context)
          else bindE (sha_input_loop (unat len) c ms) (\<lambda>c'. Inr (shaSuccess, Some c'))
      | _ \<Rightarrow> Inr (shaNull, context))"

definition SHA224Input :: "SHA256Context option \<Rightarrow> byte list option \<Rightarrow> u32 \<Rightarrow> (int \<times> SHA256Context option) res" where
  "SHA224Input context message_array len = SHA256Input context message_array len"

section \<open>Padding and finalising\<close>

function sha_zero_upto :: "nat \<Rightarrow> SHA256Context \<Rightarrow> SHA256Context" where
  "sha_zero_upto lim c =
     (if Message_Block_Index c < lim then sha_zero_upto lim (sha_put c 0) else c)"
  by pat_completeness auto
termination
  by (relation "measure (\<lambda>(lim, c). lim - Message_Block_Index c)") (auto simp: sha_put_def)

declare sha_zero_upto.simps [simp del]

text \<open>The last eight octets of the final block hold the message length.\<close>

definition sha_put_length :: "SHA256Context \<Rightarrow> SHA256Context" where
  "sha_put_length c = c\<lparr>Message_Block := (Message_Block c)
     [56 := ucast (drop_bit 24 (Length_High c)), 57 := ucast (drop_bit 16 (Length_High c)),
      58 := ucast (drop_bit 8 (Length_High c)), 59 := ucast (Length_High c),
      60 := ucast (drop_bit 24 (Length_Low c)), 61 := ucast (drop_bit 16 (Length_Low c)),
      62 := ucast (drop_bit 8 (Length_Low c)), 63 := ucast (Length_Low c)]\<rparr>"

definition SHA224_256PadMessage :: "SHA256Context \<Rightarrow> byte \<Rightarrow> SHA256Context" where
  "SHA224_256PadMessage context Pad_Byte =
     (let c = (if Message_Block_Index context \<ge> SHA256_Message_Block_Size - 8
               then SHA224_256ProcessMessageBlock
                      (sha_zero_upto SHA256_Message_Block_Size (sha_put context Pad_Byte))
               else sha_put context Pad_Byte)
      in SHA224_256ProcessMessageBlock
           (sha_put_length (sha_zero_upto (SHA256_Message_Block_Size - 8) c)))"

definition SHA224_256Finalize :: "SHA256Context \<Rightarrow> byte \<Rightarrow> SHA256Context" where
  "SHA224_256Finalize context Pad_Byte =
     (let c = SHA224_256PadMessage context Pad_Byte
      in c\<lparr>Message_Block := foldl (\<lambda>mb i. mb[i := 0]) (Message_Block c) [0..<SHA256_Message_Block_Size],
           Length_Low := 0, Length_High := 0, Computed := True\<rparr>)"

definition sha_masks :: "byte list" where
  "sha_masks = [0x00, 0x80, 0xC0, 0xE0, 0xF0, 0xF8, 0xFC, 0xFE]"

definition sha_markbit :: "byte list" where
  "sha_markbit = [0x80, 0x40, 0x20, 0x10, 0x08, 0x04, 0x02, 0x01]"

definition SHA256FinalBits :: "SHA256Context option \<Rightarrow> byte \<Rightarrow> u32 \<Rightarrow> int \<times> SHA256Context option" where
  "SHA256FinalBits context message_bits len =
     (if len = 0 then (shaSuccess, context)
      else case context of None \<Rightarrow> (shaNull, None) | Some c \<Rightarrow>
      if Computed c \<or> len \<ge> 8 \<or> len = 0 then (shaStateError, Some (c\<lparr>Corrupted := shaStateError\<rparr>))
      else if Corrupted c \<noteq> 0 then (Corrupted c, context)
      else (shaSuccess, Some (SHA224_256Finalize (SHA224_256AddLength c len)
             ((message_bits AND sha_masks ! unat len) OR sha_markbit ! unat len))))"

definition SHA224FinalBits :: "SHA256Context option \<Rightarrow> byte \<Rightarrow> u32 \<Rightarrow> int \<times> SHA256Context option" where
  "SHA224FinalBits context message_bits len = SHA256FinalBits context message_bits len"

text \<open>
  The digest is read out of the intermediate hash most significant octet first. The second argument
  says whether the caller passed a buffer; the third component is what is written to it.
\<close>

definition sha_digest_byte :: "u32 list \<Rightarrow> nat \<Rightarrow> byte" where
  "sha_digest_byte ih i = ucast (drop_bit (8 * (3 - i mod 4)) (ih ! (i div 4)))"

definition SHA224_256ResultN ::
    "SHA256Context option \<Rightarrow> bool \<Rightarrow> nat \<Rightarrow> int \<times> SHA256Context option \<times> byte list option" where
  "SHA224_256ResultN context Message_Digest HashSize = (case context of
       None \<Rightarrow> (shaNull, None, None)
     | Some c \<Rightarrow> if \<not> Message_Digest then (shaNull, context, None)
         else if Corrupted c \<noteq> 0 then (Corrupted c, context, None)
         else let c' = (if \<not> Computed c then SHA224_256Finalize c 0x80 else c)
              in (shaSuccess, Some c', Some (map (sha_digest_byte (Intermediate_Hash c')) [0..<HashSize])))"

definition SHA224Result :: "SHA256Context option \<Rightarrow> bool \<Rightarrow> int \<times> SHA256Context option \<times> byte list option" where
  "SHA224Result context Message_Digest = SHA224_256ResultN context Message_Digest SHA224HashSize"

definition SHA256Result :: "SHA256Context option \<Rightarrow> bool \<Rightarrow> int \<times> SHA256Context option \<times> byte list option" where
  "SHA256Result context Message_Digest = SHA224_256ResultN context Message_Digest SHA256HashSize"

section \<open>The reference hash functions\<close>

definition be_word :: "byte list \<Rightarrow> u32" where
  "be_word bs = word_of_nat (foldl (\<lambda>n b. 256 * n + unat b) 0 bs)"

fun fips_W :: "byte list \<Rightarrow> nat \<Rightarrow> u32" where
  "fips_W mb t =
     (if t < 16 then be_word (take 4 (drop (4 * t) mb))
      else SHA256_sigma1 (fips_W mb (t - 2)) + fips_W mb (t - 7)
         + SHA256_sigma0 (fips_W mb (t - 15)) + fips_W mb (t - 16))"

declare fips_W.simps [simp del]

lemma ROTR_word_rotr:
  assumes "n < 32" shows "SHA256_ROTR n w = word_rotr n w"
proof (rule bit_word_eqI)
  fix i assume i: "i < LENGTH(32)"
  show "bit (SHA256_ROTR n w) i = bit (word_rotr n w) i"
  proof (cases "i + n < 32")
    case True
    then show ?thesis using i assms
      by (auto simp: SHA256_ROTR_def bit_simps add.commute)
  next
    case False
    then have "(i + n) mod 32 = i + n - 32" using i assms by (simp add: le_mod_geq)
    moreover have "\<not> bit w (i + n)" using False bit_imp_le_length [of w "i + n"] by auto
    ultimately show ?thesis using i assms False
      by (auto simp: SHA256_ROTR_def bit_simps add.commute)
  qed
qed

lemma or_push_add:
  fixes a :: byte and x :: u32
  assumes "\<And>n. bit x n \<Longrightarrow> n < k"
  shows "push_bit k (ucast a) OR x = 2 ^ k * ucast a + x"
    and "k + 8 \<le> 32 \<Longrightarrow> bit (push_bit k (ucast a) OR x) n \<Longrightarrow> n < k + 8"
proof -
  have "push_bit k (ucast a) + x = push_bit k (ucast a) OR x"
    by (rule disjunctive_add) (auto simp: bit_simps dest: assms)
  then show "push_bit k (ucast a) OR x = 2 ^ k * ucast a + x"
    by (simp add: push_bit_eq_mult mult.commute)
  assume "k + 8 \<le> 32" and "bit (push_bit k (ucast a) OR x) n"
  then show "n < k + 8" using assms [of n]
    by (auto simp: bit_simps dest: bit_imp_le_length)
qed

lemma sha_word_be:
  fixes a b c d :: byte
  shows "(push_bit 24 (ucast a) OR push_bit 16 (ucast b) OR push_bit 8 (ucast c) OR ucast d :: u32)
    = be_word [a, b, c, d]"
proof -
  have d: "\<And>n. bit (ucast d :: u32) n \<Longrightarrow> n < 8"
    by (auto simp: bit_simps dest: bit_imp_le_length)
  note c = or_push_add [where k = 8 and x = "ucast d", OF d, simplified]
  note b = or_push_add [where k = 16, OF c(2), simplified]
  note a = or_push_add(1) [where k = 24, OF b(2)]
  show ?thesis
    by (simp add: a b(1) c(1) be_word_def or.assoc algebra_simps unsigned_ucast_eq)
qed

definition fips_Ch :: "u32 \<Rightarrow> u32 \<Rightarrow> u32 \<Rightarrow> u32" where
  "fips_Ch x y z = (x AND y) OR (NOT x AND z)"

definition fips_Maj :: "u32 \<Rightarrow> u32 \<Rightarrow> u32 \<Rightarrow> u32" where
  "fips_Maj x y z = (x AND y) OR (x AND z) OR (y AND z)"

fun fips_round :: "byte list \<Rightarrow> sha_vars \<Rightarrow> nat \<Rightarrow> sha_vars" where
  "fips_round mb (a, b, c, d, e, f, g, h) t =
     (let T1 = h + (word_rotr 6 e XOR word_rotr 11 e XOR word_rotr 25 e) + fips_Ch e f g
               + SHA256_K ! t + fips_W mb t;
          T2 = (word_rotr 2 a XOR word_rotr 13 a XOR word_rotr 22 a) + fips_Maj a b c
      in (T1 + T2, a, b, c, d + T1, e, f, g))"

definition fips_compress :: "u32 list \<Rightarrow> byte list \<Rightarrow> u32 list" where
  "fips_compress ih mb = (case foldl (fips_round mb)
       (ih ! 0, ih ! 1, ih ! 2, ih ! 3, ih ! 4, ih ! 5, ih ! 6, ih ! 7) [0..<64] of
     (a, b, c, d, e, f, g, h) \<Rightarrow> map2 (+) ih [a, b, c, d, e, f, g, h])"

lemma SHA_Ch_eq: "SHA_Ch x y z = fips_Ch x y z"
  by (rule bit_word_eqI) (auto simp: SHA_Ch_def fips_Ch_def bit_simps)

lemma SHA_Maj_eq: "SHA_Maj x y z = fips_Maj x y z"
  by (rule bit_word_eqI) (auto simp: SHA_Maj_def fips_Maj_def bit_simps)

lemma SHA_SIGMA_eq:
  "SHA256_SIGMA0 w = word_rotr 2 w XOR word_rotr 13 w XOR word_rotr 22 w"
  "SHA256_SIGMA1 w = word_rotr 6 w XOR word_rotr 11 w XOR word_rotr 25 w"
  by (simp_all add: SHA256_SIGMA0_def SHA256_SIGMA1_def ROTR_word_rotr)

text \<open>The schedule the loops fill is the recurrence of the standard.\<close>

lemma sha_W_init_eq: "length mb = 64 \<Longrightarrow> sha_W_init mb = map (fips_W mb) [0..<16]"
  unfolding sha_W_init_def sha_word_be
proof (rule map_cong [OF refl])
  fix t assume len: "length mb = 64" and "t \<in> set [0..<16]"
  then have t: "t < 16" by simp
  have "take 4 (drop (4 * t) mb) = [mb ! (4 * t), mb ! (4 * t + 1), mb ! (4 * t + 2), mb ! (4 * t + 3)]"
    using len t by (auto simp: list_eq_iff_nth_eq less_Suc_eq numeral_eq_Suc)
  with t show "be_word [mb ! (4 * t), mb ! (4 * t + 1), mb ! (4 * t + 2), mb ! (4 * t + 3)] = fips_W mb t"
    by (simp add: fips_W.simps)
qed

lemma sha_W_fold: "length mb = 64 \<Longrightarrow> 16 \<le> n \<Longrightarrow>
    foldl sha_W_step (sha_W_init mb) [16..<n] = map (fips_W mb) [0..<n]"
proof (induction n)
  case (Suc n)
  show ?case
  proof (cases "16 \<le> n")
    case True
    with Suc have IH: "foldl sha_W_step (sha_W_init mb) [16..<n] = map (fips_W mb) [0..<n]" by simp
    show ?thesis using True by (simp add: IH sha_W_step_def [of "map (fips_W mb) [0..<n]" n] fips_W.simps [of mb n])
  next
    case False
    with Suc.prems have "Suc n = 16" by simp
    with Suc.prems show ?thesis by (simp add: sha_W_init_eq del: upt_Suc)
  qed
qed simp

lemma sha_W_eq: "length mb = 64 \<Longrightarrow> sha_W mb = map (fips_W mb) [0..<64]"
  unfolding sha_W_def by (rule sha_W_fold) simp_all

lemma sha_round_eq:
  "length mb = 64 \<Longrightarrow> t < 64 \<Longrightarrow> sha_round (sha_W mb) v t = fips_round mb v t"
  by (cases "(sha_W mb, v, t)" rule: sha_round.cases) (simp add: sha_W_eq SHA_Ch_eq SHA_Maj_eq SHA_SIGMA_eq Let_def)

lemma foldl_cong_elem:
  "(\<And>a x. x \<in> set xs \<Longrightarrow> f a x = g a x) \<Longrightarrow> foldl f a xs = foldl g a xs"
  by (induction xs arbitrary: a) auto

lemma list8:
  assumes "length xs = 8"
  shows "xs = [xs ! 0, xs ! 1, xs ! 2, xs ! 3, xs ! 4, xs ! 5, xs ! 6, xs ! 7]"
  using assms by (auto simp: list_eq_iff_nth_eq less_Suc_eq numeral_eq_Suc)

lemma map2_list8:
  "length xs = 8 \<Longrightarrow> map2 f xs [a, b, c, d, e, g, h, i] =
    [f (xs ! 0) a, f (xs ! 1) b, f (xs ! 2) c, f (xs ! 3) d, f (xs ! 4) e, f (xs ! 5) g,
     f (xs ! 6) h, f (xs ! 7) i]"
  by (drule list8, erule ssubst) simp

lemma sha_rounds_eq:
  assumes "length mb = 64" and "length ih = 8"
  shows "sha_rounds ih mb = fips_compress ih mb"
proof -
  have "foldl (sha_round (sha_W mb)) v [0..<64] = foldl (fips_round mb) v [0..<64]" for v
    by (rule foldl_cong_elem) (simp add: sha_round_eq [OF assms(1)])
  then show ?thesis
    unfolding sha_rounds_def fips_compress_def Let_def
    by (auto simp: map2_list8 [OF assms(2)] split: prod.splits)
qed

lemma fips_compress_length: "length ih = 8 \<Longrightarrow> length (fips_compress ih mb) = 8"
  by (auto simp: fips_compress_def split: prod.splits)


section \<open>What a context has absorbed\<close>

definition sha_bits :: "SHA256Context \<Rightarrow> nat" where
  "sha_bits c = unat (Length_High c) * 2 ^ 32 + unat (Length_Low c)"

definition sha_buffered :: "u32 list \<Rightarrow> byte list \<Rightarrow> SHA256Context \<Rightarrow> bool" where
  "sha_buffered h0 m c \<longleftrightarrow>
     Intermediate_Hash c = foldl fips_compress h0 (chunks 64 m) \<and> length (Message_Block c) = 64
   \<and> Message_Block_Index c = length m mod 64
   \<and> take (length m mod 64) (Message_Block c) = drop (64 * (length m div 64)) m"

definition sha_absorbed :: "u32 list \<Rightarrow> byte list \<Rightarrow> SHA256Context \<Rightarrow> bool" where
  "sha_absorbed h0 m c \<longleftrightarrow>
     sha_buffered h0 m c \<and> sha_bits c = 8 * length m \<and> \<not> Computed c \<and> Corrupted c = 0"

lemma sha_bits_cong:
  "Length_Low c = Length_Low c' \<Longrightarrow> Length_High c = Length_High c' \<Longrightarrow> sha_bits c = sha_bits c'"
  by (simp add: sha_bits_def)

lemma word_add_carry: "(low + len < low) = (2 ^ 32 \<le> unat low + unat len)" for low len :: u32
proof -
  have b: "unat low < 2 ^ 32" "unat len < 2 ^ 32"
    using unsigned_less [of low] unsigned_less [of len] by simp_all
  show ?thesis
  proof (cases "unat low + unat len < 2 ^ 32")
    case True
    then show ?thesis by (simp add: word_less_nat_alt unat_add_no_wrap)
  next
    case False
    then have "unat (low + len) = unat low + unat len - 2 ^ 32"
      using b by (simp add: unat_word_ariths le_mod_geq)
    with False b show ?thesis by (simp add: word_less_nat_alt)
  qed
qed

lemma AddLength_ok:
  assumes "sha_bits c + unat len < 2 ^ 64"
  shows "sha_bits (SHA224_256AddLength c len) = sha_bits c + unat len"
    and "Corrupted (SHA224_256AddLength c len) = 0"
proof -
  let ?low = "Length_Low c" and ?high = "Length_High c"
  have bounds: "unat ?low < 2 ^ 32" "unat ?high < 2 ^ 32" "unat len < 2 ^ 32"
    using unsigned_less [of ?low] unsigned_less [of ?high] unsigned_less [of len] by simp_all
  have "sha_bits (SHA224_256AddLength c len) = sha_bits c + unat len
    \<and> Corrupted (SHA224_256AddLength c len) = 0"
  proof (cases "2 ^ 32 \<le> unat ?low + unat len")
    case True
    then have low: "unat (?low + len) = unat ?low + unat len - 2 ^ 32"
      using bounds by (simp add: unat_word_ariths le_mod_geq)
    have hb: "unat ?high + 1 < 2 ^ 32" using assms True by (simp add: sha_bits_def)
    then have high: "unat (?high + 1) = unat ?high + 1" by (simp add: unat_add_no_wrap)
    then have nz: "?high + 1 \<noteq> 0" by (metis add_is_0 one_neq_zero unat_0)
    show ?thesis
      using True low high nz by (simp add: SHA224_256AddLength_def Let_def word_add_carry sha_bits_def)
  next
    case False
    then have "unat (?low + len) = unat ?low + unat len" by (simp add: unat_add_no_wrap)
    with False show ?thesis
      by (simp add: SHA224_256AddLength_def Let_def word_add_carry sha_bits_def)
  qed
  then show "sha_bits (SHA224_256AddLength c len) = sha_bits c + unat len"
    and "Corrupted (SHA224_256AddLength c len) = 0" by simp_all
qed

lemma AddLength_overflow:
  assumes "2 ^ 64 \<le> sha_bits c + unat len"
  shows "Corrupted (SHA224_256AddLength c len) = 1"
proof -
  let ?low = "Length_Low c" and ?high = "Length_High c"
  have bounds: "unat ?low < 2 ^ 32" "unat ?high < 2 ^ 32" "unat len < 2 ^ 32"
    using unsigned_less [of ?low] unsigned_less [of ?high] unsigned_less [of len] by simp_all
  have carry: "2 ^ 32 \<le> unat ?low + unat len" and top: "unat ?high = 2 ^ 32 - 1"
    using assms bounds by (simp_all add: sha_bits_def)
  have "?high + 1 = 0" using top by (simp add: word_unat_eq_iff unat_word_ariths)
  with carry show ?thesis by (simp add: SHA224_256AddLength_def Let_def word_add_carry)
qed

lemma AddLength_frame [simp]:
  "Intermediate_Hash (SHA224_256AddLength c len) = Intermediate_Hash c"
  "Message_Block_Index (SHA224_256AddLength c len) = Message_Block_Index c"
  "Message_Block (SHA224_256AddLength c len) = Message_Block c"
  "Computed (SHA224_256AddLength c len) = Computed c"
  by (simp_all add: SHA224_256AddLength_def Let_def)

text \<open>A message is its full blocks and a rest shorter than a block.\<close>

lemma chunks_split:
  assumes "0 < n"
  shows "chunks n (m @ ys) = chunks n m @ chunks n (drop (n * (length m div n)) m @ ys)"
proof -
  let ?full = "take (n * (length m div n)) m" and ?rest = "drop (n * (length m div n)) m"
  have full: "n dvd length ?full" by (simp add: min_absorb2)
  have rest: "length ?rest < n" using assms by (simp add: minus_mult_div_eq_mod)
  have "chunks n m = chunks n ?full"
    using chunks_append_short [OF assms full rest] by simp
  moreover have "chunks n (m @ ys) = chunks n ?full @ chunks n (?rest @ ys)"
    using chunks_append [OF assms full, of "?rest @ ys"]
    by (simp add: append_assoc [symmetric] del: append_assoc)
  ultimately show ?thesis by simp
qed

lemma foldl_fips_compress_length [len_simps]:
  "length h0 = 8 \<Longrightarrow> length (foldl fips_compress h0 bs) = 8"
  by (induction bs arbitrary: h0) (auto simp: fips_compress_length)

lemma take_Suc_update: "i < length xs \<Longrightarrow> take (Suc i) (xs[i := x]) = take i xs @ [x]"
  by (simp add: take_Suc_conv_app_nth)

lemma sha_input_byte_absorbed:
  assumes "length h0 = 8" and "sha_absorbed h0 m c" and "8 * (length m + 1) < 2 ^ 64"
  shows "sha_absorbed h0 (m @ [b]) (sha_input_byte c b)"
proof -
  let ?r = "length m mod 64" and ?rest = "drop (64 * (length m div 64)) m"
  from assms(2) have ih: "Intermediate_Hash c = foldl fips_compress h0 (chunks 64 m)"
    and mb: "length (Message_Block c) = 64" and ix: "Message_Block_Index c = ?r"
    and tk: "take ?r (Message_Block c) = ?rest" and bits: "sha_bits c = 8 * length m"
    and flags: "\<not> Computed c" "Corrupted c = 0"
    by (auto simp: sha_absorbed_def sha_buffered_def)
  define d where "d = SHA224_256AddLength (sha_put c b) 8"
  have "sha_bits (sha_put c b) = sha_bits c" by (simp add: sha_put_def sha_bits_def)
  with bits assms(3) have d: "sha_bits d = 8 * length (m @ [b])" "Corrupted d = 0"
    using AddLength_ok [of "sha_put c b" 8] by (simp_all add: d_def)
  have dix: "Message_Block_Index d = Suc ?r" and dih: "Intermediate_Hash d = Intermediate_Hash c"
    and dmb: "Message_Block d = (Message_Block c)[?r := b]" and dc: "\<not> Computed d"
    using ix flags by (simp_all add: d_def sha_put_def)
  have dtk: "take (Suc ?r) (Message_Block d) = ?rest @ [b]"
    using mb tk by (simp add: dmb take_Suc_update)
  have step: "sha_input_byte c b =
      (if Suc ?r = 64 then SHA224_256ProcessMessageBlock d else d)"
  proof -
    have "(0xFF :: byte) = - 1" by simp
    then have "b AND 0xFF = b" by (metis and.right_neutral)
    then show ?thesis using d(2) dix by (simp add: sha_input_byte_def d_def [symmetric] sha_sizes Let_def)
  qed
  have ch: "chunks 64 (m @ [b]) = chunks 64 m @ chunks 64 (?rest @ [b])"
    by (rule chunks_split) simp
  have lr: "length ?rest = ?r" by (simp add: minus_mult_div_eq_mod)
  show ?thesis
  proof (cases "Suc ?r = 64")
    case True
    have "?rest @ [b] = Message_Block d" using dtk True mb by (simp add: dmb)
    moreover have "chunks 64 (?rest @ [b]) = [?rest @ [b]]"
      using True lr by (intro chunks_one) simp_all
    moreover have "sha_rounds (Intermediate_Hash d) (Message_Block d)
        = fips_compress (Intermediate_Hash d) (Message_Block d)"
      by (rule sha_rounds_eq) (use mb assms(1) in \<open>simp_all add: dmb dih ih len_simps\<close>)
    moreover have "Suc (length m) mod 64 = 0" "64 * (Suc (length m) div 64) = Suc (length m)"
      using True by (simp_all add: mod_Suc dvd_mult_div_cancel mod_eq_0_iff_dvd [symmetric])
    ultimately show ?thesis
      using step True d dc mb ch dih ih
      by (simp add: sha_absorbed_def sha_buffered_def SHA224_256ProcessMessageBlock_def dmb sha_bits_def)
  next
    case False
    then have "Suc (length m) mod 64 = Suc ?r" "Suc (length m) div 64 = length m div 64"
      by (simp_all add: mod_Suc div_Suc)
    moreover have "chunks 64 (?rest @ [b]) = []"
      using False lr by (intro chunks_short) (metis One_nat_def Suc_lessI length_append_singleton
        mod_less_divisor zero_less_numeral)
    ultimately show ?thesis
      using step False d dc mb ch dih ih dix dtk
      by (simp add: sha_absorbed_def sha_buffered_def dmb)
  qed
qed

lemma sha_input_loop_absorbed:
  assumes "length h0 = 8" and "sha_absorbed h0 m c" and "n \<le> length ms" and "8 * (length m + n) < 2 ^ 64"
  shows "\<exists>c'. sha_input_loop n c ms = Inr c' \<and> sha_absorbed h0 (m @ take n ms) c'"
  using assms(2-4)
proof (induction n arbitrary: m c ms)
  case (Suc n)
  from Suc.prems(2) obtain b ms' where ms: "ms = b # ms'" by (cases ms) auto
  have "sha_absorbed h0 (m @ [b]) (sha_input_byte c b)"
    by (rule sha_input_byte_absorbed) (use assms(1) Suc.prems in auto)
  from Suc.IH [OF this, of ms'] Suc.prems ms show ?case by (auto simp: sha_absorbed_def)
qed auto

section \<open>Padding\<close>

definition be64 :: "nat \<Rightarrow> byte list" where
  "be64 n = map (\<lambda>i. word_of_nat (n div 256 ^ (7 - i))) [0..<8]"

text \<open>
  A message, its last byte with the mark bit, zeros up to eight bytes before the end of a block,
  and its length in bits.
\<close>

definition fips_pad :: "byte list \<Rightarrow> byte \<Rightarrow> nat \<Rightarrow> byte list" where
  "fips_pad m pb bits = m @ [pb] @ replicate ((119 - length m mod 64) mod 64) 0 @ be64 bits"

definition fips_hash :: "u32 list \<Rightarrow> byte list \<Rightarrow> byte \<Rightarrow> nat \<Rightarrow> u32 list" where
  "fips_hash h0 m pb bits = foldl fips_compress h0 (chunks 64 (fips_pad m pb bits))"

definition fips_digest :: "u32 list \<Rightarrow> byte list" where
  "fips_digest ih = concat (map (\<lambda>w. [ucast (drop_bit 24 w), ucast (drop_bit 16 w),
     ucast (drop_bit 8 w), ucast w]) ih)"

definition sha256 :: "byte list \<Rightarrow> byte list" where
  "sha256 m = fips_digest (fips_hash SHA256_H0 m 0x80 (8 * length m))"

definition sha224 :: "byte list \<Rightarrow> byte list" where
  "sha224 m = take 28 (fips_digest (fips_hash SHA224_H0 m 0x80 (8 * length m)))"

lemma be64_length [simp]: "length (be64 n) = 8"
  by (simp add: be64_def)

lemma sha_zero_upto_eq:
  assumes "Message_Block_Index c \<le> lim" and "lim \<le> length (Message_Block c)"
  shows "sha_zero_upto lim c = c\<lparr>Message_Block_Index := lim,
    Message_Block := take (Message_Block_Index c) (Message_Block c)
      @ replicate (lim - Message_Block_Index c) 0 @ drop lim (Message_Block c)\<rparr>"
  using assms
proof (induction lim c rule: sha_zero_upto.induct)
  case (1 lim c)
  let ?i = "Message_Block_Index c"
  show ?case
  proof (cases "?i < lim")
    case True
    have "sha_zero_upto lim c = sha_zero_upto lim (sha_put c 0)"
      using True by (subst sha_zero_upto.simps) simp
    also have "\<dots> = (sha_put c 0)\<lparr>Message_Block_Index := lim,
      Message_Block := take (Suc ?i) ((Message_Block c)[?i := 0])
        @ replicate (lim - Suc ?i) 0 @ drop lim ((Message_Block c)[?i := 0])\<rparr>"
      using 1 True by (simp add: sha_put_def)
    also have "\<dots> = c\<lparr>Message_Block_Index := lim, Message_Block := take ?i (Message_Block c)
        @ replicate (lim - ?i) 0 @ drop lim (Message_Block c)\<rparr>"
      using 1(3) True by (simp add: sha_put_def take_Suc_update drop_update_cancel
          replicate_Suc [symmetric] Suc_diff_Suc del: replicate_Suc)
    finally show ?thesis .
  next
    case False
    with 1(2,3) show ?thesis by (subst sha_zero_upto.simps) simp
  qed
qed

lemma ucast_drop_bit_byte:
  "ucast (drop_bit k w) = (word_of_nat (unat w div 2 ^ k) :: byte)" for w :: u32
proof -
  have "unat (drop_bit k w) = unat w div 2 ^ k"
    by (subst unat_drop_bit_eq) (simp add: drop_bit_eq_div)
  then show ?thesis by (metis of_nat_unat)
qed


lemma be64_list: "be64 n = [word_of_nat (n div (2 ^ 32 * 2 ^ 24)), word_of_nat (n div (2 ^ 32 * 2 ^ 16)),
    word_of_nat (n div (2 ^ 32 * 2 ^ 8)), word_of_nat (n div (2 ^ 32 * 2 ^ 0)),
    word_of_nat (n div 2 ^ 24), word_of_nat (n div 2 ^ 16), word_of_nat (n div 2 ^ 8),
    word_of_nat (n div 2 ^ 0)]"
proof -
  have "[0..<8] = [0, 1, 2, 3, 4, 5, 6, 7::nat]" by (simp add: upt_rec)
  then show ?thesis unfolding be64_def by simp
qed

lemma be64_split:
  assumes "l < 2 ^ 32"
  shows "be64 (h * 2 ^ 32 + l) = [word_of_nat (h div 2 ^ 24), word_of_nat (h div 2 ^ 16),
    word_of_nat (h div 2 ^ 8), word_of_nat (h div 2 ^ 0), word_of_nat (l div 2 ^ 24),
    word_of_nat (l div 2 ^ 16), word_of_nat (l div 2 ^ 8), word_of_nat (l div 2 ^ 0)]"
proof -
  have hi: "(h * 2 ^ 32 + l) div (2 ^ 32 * 2 ^ k) = h div 2 ^ k" for k
    using assms by (simp only: div_mult2_eq) simp
  have lo: "(word_of_nat ((h * 2 ^ 32 + l) div 2 ^ k) :: byte) = word_of_nat (l div 2 ^ k)" if "k \<le> 24" for k
  proof -
    have "h * 2 ^ 32 = h * 256 * 2 ^ (24 - k) * 2 ^ k"
      using that by (simp add: mult.assoc power_add [symmetric])
    then have "(h * 2 ^ 32 + l) div 2 ^ k = (l + h * 256 * 2 ^ (24 - k) * 2 ^ k) div 2 ^ k"
      by (simp only: add.commute)
    also have "\<dots> = h * 256 * 2 ^ (24 - k) + l div 2 ^ k"
      by (rule div_mult_self1) simp
    finally have "(h * 2 ^ 32 + l) div 2 ^ k = 256 * (h * 2 ^ (24 - k)) + l div 2 ^ k"
      by (simp only: mult.commute mult.left_commute)
    then have "(word_of_nat ((h * 2 ^ 32 + l) div 2 ^ k) :: byte)
        = of_nat 256 * of_nat (h * 2 ^ (24 - k)) + of_nat (l div 2 ^ k)"
      by (simp only: of_nat_add of_nat_mult)
    also have "(of_nat 256 :: byte) = 0" by simp
    finally show ?thesis by simp
  qed
  show ?thesis
    unfolding be64_list hi using lo [of 24] lo [of 16] lo [of 8] lo [of 0] by simp
qed

lemma sha_put_length_block:
  assumes "length (Message_Block c) = 64"
  shows "Message_Block (sha_put_length c) = take 56 (Message_Block c) @ be64 (sha_bits c)"
proof -
  have l: "unat (Length_Low c) < 2 ^ 32" using unsigned_less [of "Length_Low c"] by simp
  have b: "be64 (sha_bits c) = [ucast (drop_bit 24 (Length_High c)), ucast (drop_bit 16 (Length_High c)),
      ucast (drop_bit 8 (Length_High c)), ucast (drop_bit 0 (Length_High c)),
      ucast (drop_bit 24 (Length_Low c)), ucast (drop_bit 16 (Length_Low c)),
      ucast (drop_bit 8 (Length_Low c)), ucast (drop_bit 0 (Length_Low c))]"
    unfolding sha_bits_def be64_split [OF l] ucast_drop_bit_byte by (rule refl)
  define ps qs where "ps = take 56 (Message_Block c)" and "qs = drop 56 (Message_Block c)"
  have mb: "Message_Block c = ps @ qs" and ps: "length ps = 56" and "length qs = 8"
    using assms by (simp_all add: ps_def qs_def)
  then obtain q0 q1 q2 q3 q4 q5 q6 q7 where qs: "qs = [q0, q1, q2, q3, q4, q5, q6, q7]"
    using list8 by metis
  show ?thesis
    unfolding b using ps by (simp add: sha_put_length_def mb qs list_update_append)
qed

lemma process_eq:
  assumes "length (Intermediate_Hash c) = 8" and "length (Message_Block c) = 64"
  shows "SHA224_256ProcessMessageBlock c = c\<lparr>Intermediate_Hash :=
    fips_compress (Intermediate_Hash c) (Message_Block c), Message_Block_Index := 0\<rparr>"
  using sha_rounds_eq [OF assms(2,1)] by (simp add: SHA224_256ProcessMessageBlock_def)

text \<open>The last block: zeros up to the length field, the length, and the compression.\<close>

lemma sha_finish_block:
  assumes "length (Intermediate_Hash c) = 8" and "length (Message_Block c) = 64"
    and "Message_Block_Index c = i" and "i \<le> 56"
  shows "Intermediate_Hash (SHA224_256ProcessMessageBlock (sha_put_length (sha_zero_upto 56 c)))
    = fips_compress (Intermediate_Hash c)
        (take i (Message_Block c) @ replicate (56 - i) 0 @ be64 (sha_bits c))"
proof -
  define d where "d = sha_zero_upto 56 c"
  have d: "d = c\<lparr>Message_Block_Index := 56, Message_Block := take i (Message_Block c)
      @ replicate (56 - i) 0 @ drop 56 (Message_Block c)\<rparr>"
    using sha_zero_upto_eq [of c 56] assms by (simp add: d_def)
  have "length (Message_Block d) = 64" using assms by (simp add: d)
  from sha_put_length_block [OF this]
  have mb: "Message_Block (sha_put_length d) = take i (Message_Block c) @ replicate (56 - i) 0 @ be64 (sha_bits c)"
    using assms by (simp add: d sha_bits_def)
  have ih: "Intermediate_Hash (sha_put_length d) = Intermediate_Hash c" by (simp add: d sha_put_length_def)
  have "length (Message_Block (sha_put_length d)) = 64" using assms by (simp add: mb)
  then show ?thesis
    using assms(1) by (simp add: d_def [symmetric] process_eq ih mb)
qed

lemma sha_bits_frame [simp]:
  "sha_bits (c\<lparr>Message_Block_Index := i\<rparr>) = sha_bits c"
  "sha_bits (c\<lparr>Message_Block := mb\<rparr>) = sha_bits c"
  "sha_bits (c\<lparr>Intermediate_Hash := ih\<rparr>) = sha_bits c"
  by (simp_all add: sha_bits_def)

lemma PadMessage_hash:
  assumes h0: "length h0 = 8" and buf: "sha_buffered h0 m c"
  shows "Intermediate_Hash (SHA224_256PadMessage c pb) = fips_hash h0 m pb (sha_bits c)"
proof -
  define r where "r = length m mod 64"
  define rest where "rest = drop (64 * (length m div 64)) m"
  from buf have ih: "Intermediate_Hash c = foldl fips_compress h0 (chunks 64 m)"
    and mb: "length (Message_Block c) = 64" and ix: "Message_Block_Index c = r"
    and tk: "take r (Message_Block c) = rest"
    by (auto simp: sha_buffered_def r_def rest_def)
  have ih8: "length (Intermediate_Hash c) = 8" using h0 by (simp add: ih len_simps)
  have r64: "r < 64" by (simp add: r_def)
  have lr: "length rest = r" by (simp add: rest_def r_def minus_mult_div_eq_mod)
  define e where "e = sha_put c pb"
  have e: "length (Intermediate_Hash e) = 8" "length (Message_Block e) = 64" "Message_Block_Index e = Suc r"
    "take (Suc r) (Message_Block e) = rest @ [pb]" "sha_bits e = sha_bits c"
    "Intermediate_Hash e = Intermediate_Hash c"
    using ih8 mb ix tk r64 by (simp_all add: e_def sha_put_def take_Suc_update)
  have spec: "fips_hash h0 m pb bits = foldl fips_compress (Intermediate_Hash c)
      (chunks 64 (rest @ [pb] @ replicate ((119 - r) mod 64) 0 @ be64 bits))" for bits
    unfolding fips_hash_def fips_pad_def
    by (subst chunks_split) (simp_all add: ih rest_def r_def)
  show ?thesis
  proof (cases "r < 56")
    case True
    then have z: "(119 - r) mod 64 = 56 - Suc r" by (simp add: le_mod_geq)
    have "chunks 64 (rest @ [pb] @ replicate (56 - Suc r) 0 @ be64 bits)
        = [rest @ [pb] @ replicate (56 - Suc r) 0 @ be64 bits]" for bits
      by (rule chunks_one) (use True lr in auto)
    moreover have "SHA224_256PadMessage c pb
        = SHA224_256ProcessMessageBlock (sha_put_length (sha_zero_upto 56 e))"
      using True ix by (simp add: SHA224_256PadMessage_def sha_sizes e_def Let_def)
    ultimately show ?thesis
      using sha_finish_block [OF e(1-3)] True e(4-6) spec z by simp
  next
    case False
    then have z: "(119 - r) mod 64 = (64 - Suc r) + 56" using r64 by simp
    define f where "f = sha_zero_upto 64 e"
    have f: "f = e\<lparr>Message_Block_Index := 64, Message_Block := rest @ [pb] @ replicate (64 - Suc r) 0\<rparr>"
      using sha_zero_upto_eq [of e 64] e r64 by (simp add: f_def)
    define g where "g = SHA224_256ProcessMessageBlock f"
    have g: "g = e\<lparr>Intermediate_Hash := fips_compress (Intermediate_Hash c)
        (rest @ [pb] @ replicate (64 - Suc r) 0), Message_Block_Index := 0,
        Message_Block := rest @ [pb] @ replicate (64 - Suc r) 0\<rparr>"
      using process_eq [of f] e r64 lr by (simp add: f g_def)
    have "SHA224_256PadMessage c pb
        = SHA224_256ProcessMessageBlock (sha_put_length (sha_zero_upto 56 g))"
      using False ix by (simp add: SHA224_256PadMessage_def sha_sizes e_def f_def g_def Let_def)
    moreover have "chunks 64 (rest @ [pb] @ replicate ((64 - Suc r) + 56) 0 @ be64 bits)
        = [rest @ [pb] @ replicate (64 - Suc r) 0, replicate 56 0 @ be64 bits]" for bits
    proof -
      let ?A = "rest @ [pb] @ replicate (64 - Suc r) 0" and ?B = "replicate 56 0 @ be64 bits"
      have "rest @ [pb] @ replicate ((64 - Suc r) + 56) 0 @ be64 bits = ?A @ ?B"
        by (simp only: replicate_add append_assoc)
      moreover have "chunks 64 (?A @ ?B) = ?A # chunks 64 ?B"
        by (rule chunks_block) (use lr r64 in auto)
      moreover have "chunks 64 ?B = [?B]" by (rule chunks_one) auto
      ultimately show ?thesis by (simp only:)
    qed
    ultimately show ?thesis
      using sha_finish_block [of g 0] e lr r64 spec z ih8 by (simp add: g fips_compress_length)
  qed
qed

section \<open>The digest\<close>

lemma fips_digest_nth:
  assumes "i < 4 * length ih"
  shows "fips_digest ih ! i = sha_digest_byte ih i"
  using assms
proof (induction ih arbitrary: i)
  case (Cons w ih)
  show ?case
  proof (cases "i < 4")
    case True
    then consider "i = 0" | "i = 1" | "i = 2" | "i = 3" by linarith
    then show ?thesis by cases (simp_all add: fips_digest_def sha_digest_byte_def)
  next
    case False
    then obtain j where j: "i = 4 + j" using le_Suc_ex not_less by blast
    then have "fips_digest (w # ih) ! i = fips_digest ih ! j"
      by (simp add: fips_digest_def nth_append)
    moreover have "(4 + j) div 4 = Suc (j div 4)" by simp
    ultimately show ?thesis using Cons j by (simp add: sha_digest_byte_def)
  qed
qed simp

lemma fips_digest_length [simp, len_simps]: "length (fips_digest ih) = 4 * length ih"
  by (induction ih) (simp_all add: fips_digest_def)

lemma digest_bytes_eq:
  "n \<le> 4 * length ih \<Longrightarrow> map (sha_digest_byte ih) [0..<n] = take n (fips_digest ih)"
  by (rule nth_equalityI) (auto simp: fips_digest_nth)

lemma fips_hash_length [len_simps]: "length h0 = 8 \<Longrightarrow> length (fips_hash h0 m pb bits) = 8"
  by (simp add: fips_hash_def foldl_fips_compress_length)

lemma sha_H0_length [simp]: "length SHA256_H0 = 8" "length SHA224_H0 = 8"
  by (simp_all add: SHA256_H0_def SHA224_H0_def)

lemma sha256_length [simp, len_simps]: "length (sha256 m) = 32"
  by (simp add: sha256_def fips_hash_length)

lemma sha224_length [simp, len_simps]: "length (sha224 m) = 28"
  by (simp add: sha224_def fips_hash_length)

lemma Finalize_hash:
  assumes "length h0 = 8" and "sha_buffered h0 m c"
  shows "Intermediate_Hash (SHA224_256Finalize c pb) = fips_hash h0 m pb (sha_bits c)"
  using PadMessage_hash [OF assms] by (simp add: SHA224_256Finalize_def Let_def)

lemma ResultN_absorbed:
  assumes "length h0 = 8" and "sha_absorbed h0 m c" and "n \<le> 32"
  shows "\<exists>c'. SHA224_256ResultN (Some c) True n =
    (shaSuccess, Some c', Some (take n (fips_digest (fips_hash h0 m 0x80 (8 * length m)))))"
proof -
  from assms(2) have "sha_buffered h0 m c" "sha_bits c = 8 * length m" "\<not> Computed c" "Corrupted c = 0"
    by (auto simp: sha_absorbed_def)
  with Finalize_hash [OF assms(1), of m c "0x80"] assms(3) show ?thesis
    by (simp add: SHA224_256ResultN_def Let_def digest_bytes_eq fips_hash_length [OF assms(1)])
qed

section \<open>The interface of a streaming hash\<close>

text \<open>
  What a caller relies on: after a reset, a sequence of inputs whose total length stays below the
  limit is absorbed in order, and the result is the digest of the whole.
\<close>

text \<open>A caller that passes the pieces of a message one after the other, up to the first error.\<close>

fun feed :: "('c option \<Rightarrow> byte list option \<Rightarrow> u32 \<Rightarrow> (int \<times> 'c option) res) \<Rightarrow>
    'c option \<Rightarrow> byte list list \<Rightarrow> 'c option res" where
  "feed input c [] = Inr c"
| "feed input c (m # ms) = bindE (input c (Some m) (word_of_nat (length m)))
     (\<lambda>(e, c'). if e = shaSuccess then feed input c' ms else Inr c')"

locale stream_hash =
  fixes reset :: "'c option \<Rightarrow> int \<times> 'c option"
    and input :: "'c option \<Rightarrow> byte list option \<Rightarrow> u32 \<Rightarrow> (int \<times> 'c option) res"
    and result :: "'c option \<Rightarrow> bool \<Rightarrow> int \<times> 'c option \<times> byte list option"
    and usable :: "'c \<Rightarrow> bool" and absorbed :: "byte list \<Rightarrow> 'c \<Rightarrow> bool" and digest :: "byte list \<Rightarrow> byte list"
  assumes reset_law: "usable c \<Longrightarrow> \<exists>c'. reset (Some c) = (shaSuccess, Some c') \<and> absorbed [] c'"
    and input_law: "absorbed m c \<Longrightarrow> unat len \<le> length ms \<Longrightarrow> 8 * (length m + unat len) < 2 ^ 64 \<Longrightarrow>
      \<exists>c'. input (Some c) (Some ms) len = Inr (shaSuccess, Some c') \<and> absorbed (m @ take (unat len) ms) c'"
    and result_law: "absorbed m c \<Longrightarrow> \<exists>c'. result (Some c) True = (shaSuccess, Some c', Some (digest m))"
begin

lemma feed_absorbed:
  assumes "absorbed m c" and "\<forall>x\<in>set ms. length x < 2 ^ 32" and "8 * (length m + length (concat ms)) < 2 ^ 64"
  shows "\<exists>c'. feed input (Some c) ms = Inr (Some c') \<and> absorbed (m @ concat ms) c'"
  using assms
proof (induction ms arbitrary: m c)
  case (Cons x xs)
  have u: "unat (word_of_nat (length x) :: u32) = length x"
    using Cons.prems(2) by (simp add: unat_of_nat take_bit_nat_eq_self)
  obtain c' where c': "input (Some c) (Some x) (word_of_nat (length x)) = Inr (shaSuccess, Some c')"
    and "absorbed (m @ x) c'"
    using input_law [OF Cons.prems(1), of "word_of_nat (length x)" x] u Cons.prems(3) by auto
  with Cons.IH [of "m @ x" c'] Cons.prems show ?case by auto
qed simp

lemma digest_of_stream:
  assumes "usable c" and "\<forall>x\<in>set ms. length x < 2 ^ 32" and "8 * length (concat ms) < 2 ^ 64"
  shows "\<exists>c1 c2 c3. reset (Some c) = (shaSuccess, Some c1) \<and> feed input (Some c1) ms = Inr (Some c2)
    \<and> result (Some c2) True = (shaSuccess, Some c3, Some (digest (concat ms)))"
proof -
  obtain c1 where c1: "reset (Some c) = (shaSuccess, Some c1)" "absorbed [] c1"
    using reset_law [OF assms(1)] by blast
  obtain c2 where "feed input (Some c1) ms = Inr (Some c2)" "absorbed (concat ms) c2"
    using feed_absorbed [OF c1(2) assms(2)] assms(3) by auto
  with c1 result_law show ?thesis by blast
qed

end

definition sha_usable :: "SHA256Context \<Rightarrow> bool" where
  "sha_usable c \<longleftrightarrow> length (Message_Block c) = 64"

lemma Reset_absorbed:
  assumes "length h0 = 8" and "sha_usable c"
  shows "\<exists>c'. SHA224_256Reset (Some c) h0 = (shaSuccess, Some c') \<and> sha_absorbed h0 [] c'"
  using assms list8 [OF assms(1)]
  by (simp add: SHA224_256Reset_def sha_absorbed_def sha_buffered_def sha_bits_def sha_usable_def)

lemma Input_absorbed:
  assumes "length h0 = 8" and "sha_absorbed h0 m c" and "unat len \<le> length ms"
    and "8 * (length m + unat len) < 2 ^ 64"
  shows "\<exists>c'. SHA256Input (Some c) (Some ms) len = Inr (shaSuccess, Some c')
    \<and> sha_absorbed h0 (m @ take (unat len) ms) c'"
proof (cases "len = 0")
  case True
  then show ?thesis using assms(2) by (simp add: SHA256Input_def)
next
  case False
  moreover obtain c' where "sha_input_loop (unat len) c ms = Inr c'" "sha_absorbed h0 (m @ take (unat len) ms) c'"
    using sha_input_loop_absorbed [OF assms] by blast
  ultimately show ?thesis using assms(2) by (simp add: SHA256Input_def sha_absorbed_def)
qed

interpretation sha256_stream: stream_hash SHA256Reset SHA256Input SHA256Result sha_usable
  "sha_absorbed SHA256_H0" sha256
proof unfold_locales
  show "sha_absorbed SHA256_H0 m c \<Longrightarrow> \<exists>c'. SHA256Result (Some c) True = (shaSuccess, Some c', Some (sha256 m))" for m c
    using ResultN_absorbed [of SHA256_H0 m c 32]
    by (simp add: SHA256Result_def sha_sizes sha256_def fips_hash_length)
qed (use Reset_absorbed [of SHA256_H0] Input_absorbed [of SHA256_H0] in \<open>auto simp: SHA256Reset_def\<close>)

interpretation sha224_stream: stream_hash SHA224Reset SHA224Input SHA224Result sha_usable
  "sha_absorbed SHA224_H0" sha224
proof unfold_locales
  show "sha_absorbed SHA224_H0 m c \<Longrightarrow> \<exists>c'. SHA224Result (Some c) True = (shaSuccess, Some c', Some (sha224 m))" for m c
    using ResultN_absorbed [of SHA224_H0 m c 28]
    by (simp add: SHA224Result_def sha_sizes sha224_def)
qed (use Reset_absorbed [of SHA224_H0] Input_absorbed [of SHA224_H0] in \<open>auto simp: SHA224Reset_def SHA224Input_def\<close>)

lemma zero_upto_flags: "Computed (sha_zero_upto lim c) = Computed c \<and> Corrupted (sha_zero_upto lim c) = Corrupted c"
proof (induction lim c rule: sha_zero_upto.induct)
  case (1 lim c)
  then show ?case by (subst (1 2) sha_zero_upto.simps) (auto simp: sha_put_def)
qed

lemma Finalize_flags:
  "Computed (SHA224_256Finalize c pb)" "Corrupted (SHA224_256Finalize c pb) = Corrupted c"
  by (simp_all add: SHA224_256Finalize_def SHA224_256PadMessage_def SHA224_256ProcessMessageBlock_def
      sha_put_length_def zero_upto_flags Let_def) (auto simp: sha_put_def)

section \<open>Properties\<close>

text \<open>
  C12: resetting a context, passing the pieces of a message shorter than \<open>2 ^ 61\<close> bytes in any
  division, and asking for the result succeeds and returns the SHA-256 digest of the whole message.
\<close>

theorem SHA256_streaming:
  assumes "length (Message_Block c) = 64" and "\<forall>x\<in>set ms. length x < 2 ^ 32"
    and "8 * length (concat ms) < 2 ^ 64"
  shows "\<exists>c1 c2 c3. SHA256Reset (Some c) = (shaSuccess, Some c1)
    \<and> feed SHA256Input (Some c1) ms = Inr (Some c2)
    \<and> SHA256Result (Some c2) True = (shaSuccess, Some c3, Some (sha256 (concat ms)))"
  by (rule sha256_stream.digest_of_stream) (use assms in \<open>auto simp: sha_usable_def\<close>)

definition sha_blank :: SHA256Context where
  "sha_blank = \<lparr>Intermediate_Hash = replicate 8 0, Length_Low = 0, Length_High = 0,
     Message_Block_Index = 0, Message_Block = replicate 64 0, Computed = False, Corrupted = 0\<rparr>"

theorem SHA256_streaming_witness:
  "\<exists>c1 c2 c3. SHA256Reset (Some sha_blank) = (shaSuccess, Some c1)
    \<and> feed SHA256Input (Some c1) [[1, 2], [], [3]] = Inr (Some c2)
    \<and> SHA256Result (Some c2) True = (shaSuccess, Some c3, Some (sha256 [1, 2, 3]))"
  using SHA256_streaming [of sha_blank "[[1, 2], [], [3]]"] by (simp add: sha_blank_def)

text \<open>
  the same for SHA-224, whose result is the 28-byte digest computed from its own initial value.
\<close>

theorem SHA224_streaming:
  assumes "length (Message_Block c) = 64" and "\<forall>x\<in>set ms. length x < 2 ^ 32"
    and "8 * length (concat ms) < 2 ^ 64"
  shows "\<exists>c1 c2 c3. SHA224Reset (Some c) = (shaSuccess, Some c1)
    \<and> feed SHA224Input (Some c1) ms = Inr (Some c2)
    \<and> SHA224Result (Some c2) True = (shaSuccess, Some c3, Some (sha224 (concat ms)))"
  by (rule sha224_stream.digest_of_stream) (use assms in \<open>auto simp: sha_usable_def\<close>)

theorem SHA224_streaming_witness:
  "\<exists>c1 c2 c3. SHA224Reset (Some sha_blank) = (shaSuccess, Some c1)
    \<and> feed SHA224Input (Some c1) [[1, 2], [3]] = Inr (Some c2)
    \<and> SHA224Result (Some c2) True = (shaSuccess, Some c3, Some (sha224 [1, 2, 3]))"
  using SHA224_streaming [of sha_blank "[[1, 2], [3]]"] by (simp add: sha_blank_def)


definition sha_absorbed_one :: SHA256Context where
  "sha_absorbed_one = sha_input_byte (the (snd (SHA256Reset (Some sha_blank)))) 0x61"

lemma sha_absorbed_one: "sha_absorbed SHA256_H0 [0x61] sha_absorbed_one"
proof -
  obtain c where "SHA256Reset (Some sha_blank) = (shaSuccess, Some c)" "sha_absorbed SHA256_H0 [] c"
    using sha256_stream.reset_law [of sha_blank] by (auto simp: sha_usable_def sha_blank_def)
  then show ?thesis
    using sha_input_byte_absorbed [of SHA256_H0 "[]" c "0x61"] by (simp add: sha_absorbed_one_def)
qed


text \<open>
  C26: a message that reaches \<open>2 ^ 64\<close> bits is not hashed: the call that passes the limit still
  reports success, and from then on the context answers with the code \<open>shaNull\<close>, not with
  \<open>shaInputTooLong\<close>, and no digest is written.
\<close>

theorem SHA256_too_long:
  assumes "2 ^ 64 \<le> sha_bits c + 8" and "\<not> Computed c" and "Corrupted c = 0"
    and "0 < len" and "unat len \<le> length ms"
  shows "\<exists>c'. SHA256Input (Some c) (Some ms) len = Inr (shaSuccess, Some c')
    \<and> SHA256Result (Some c') True = (shaNull, Some c', None)
    \<and> (\<forall>xs k. 0 < k \<longrightarrow> SHA256Input (Some c') (Some xs) k = Inr (shaNull, Some c'))"
proof -
  obtain n where n: "unat len = Suc n" using assms(4) by (metis gr0_implies_Suc unat_gt_0 word_neq_0_conv)
  with assms(5) obtain x xs where ms: "ms = x # xs" by (cases ms) auto
  define d where "d = sha_input_byte c x"
  have "sha_bits (sha_put c (x AND 0xFF)) = sha_bits c" by (simp add: sha_put_def sha_bits_def)
  then have "Corrupted (SHA224_256AddLength (sha_put c (x AND 0xFF)) 8) = 1"
    using AddLength_overflow [of "sha_put c (x AND 0xFF)" 8] assms(1) by simp
  then have d: "Corrupted d = 1" "\<not> Computed d"
    using assms(2) by (simp_all add: d_def sha_input_byte_def Let_def sha_put_def)
  have "sha_input_loop (unat len) c ms = Inr d"
    using assms(3) d(1) by (cases n) (simp_all add: n ms d_def [symmetric])
  then show ?thesis
    using assms(2-4) d by (auto simp: SHA256Input_def SHA256Result_def SHA224_256ResultN_def sha_codes)
qed

theorem SHA256_too_long_witness:
  "\<exists>c'. SHA256Input (Some (sha_blank\<lparr>Length_Low := 0xFFFFFFF8, Length_High := 0xFFFFFFFF\<rparr>)) (Some [7]) 1
      = Inr (shaSuccess, Some c')
    \<and> SHA256Result (Some c') True = (shaNull, Some c', None)"
  using SHA256_too_long [of "sha_blank\<lparr>Length_Low := 0xFFFFFFF8, Length_High := 0xFFFFFFFF\<rparr>" 1 "[7]"]
  by (auto simp: sha_blank_def sha_bits_def)

text \<open>
  asking for the result twice gives the same digest, and any further input is refused with
  \<open>shaStateError\<close>, after which the context gives no digest at all.
\<close>

theorem SHA256Result_idempotent:
  assumes "SHA256Result (Some c) True = (shaSuccess, Some c1, Some d)"
  shows "SHA256Result (Some c1) True = (shaSuccess, Some c1, Some d)
    \<and> (\<forall>ms len. 0 < len \<longrightarrow> (\<exists>c2. SHA256Input (Some c1) (Some ms) len = Inr (shaStateError, Some c2)
          \<and> SHA256Result (Some c2) True = (shaStateError, Some c2, None)))"
proof -
  have ok: "Corrupted c = 0" using assms
    by (auto simp: SHA256Result_def SHA224_256ResultN_def sha_codes split: if_splits)
  have c1: "c1 = (if \<not> Computed c then SHA224_256Finalize c 0x80 else c)"
    and d: "d = map (sha_digest_byte (Intermediate_Hash c1)) [0..<32]"
    using assms ok by (auto simp: SHA256Result_def SHA224_256ResultN_def Let_def sha_sizes split: if_splits)
  have "Computed c1" "Corrupted c1 = 0" using ok by (auto simp: c1 Finalize_flags)
  then show ?thesis
    by (auto simp: SHA256Result_def SHA224_256ResultN_def SHA256Input_def d sha_sizes sha_codes)
qed

theorem SHA256Result_idempotent_witness:
  "\<exists>c1. SHA256Result (Some sha_absorbed_one) True = (shaSuccess, Some c1, Some (sha256 [0x61]))
    \<and> SHA256Result (Some c1) True = (shaSuccess, Some c1, Some (sha256 [0x61]))"
proof -
  obtain c1 where "SHA256Result (Some sha_absorbed_one) True = (shaSuccess, Some c1, Some (sha256 [0x61]))"
    using sha256_stream.result_law [OF sha_absorbed_one] by blast
  with SHA256Result_idempotent [OF this] show ?thesis by blast
qed

text \<open>
  the definitions of the choice and majority functions selected by \<^verbatim>\<open>USE_MODIFIED_MACROS\<close> are
  equivalent to the standard ones, as the header's comment says.
\<close>

theorem SHA_modified_macros:
  "SHA_Ch_modified x y z = SHA_Ch x y z \<and> SHA_Maj_modified x y z = SHA_Maj x y z"
proof
  show "SHA_Ch_modified x y z = SHA_Ch x y z"
    by (rule bit_word_eqI) (auto simp: SHA_Ch_modified_def SHA_Ch_def bit_simps)
  show "SHA_Maj_modified x y z = SHA_Maj x y z"
    by (rule bit_word_eqI) (auto simp: SHA_Maj_modified_def SHA_Maj_def bit_simps)
qed
end
