(* ===== verification/Mt_Array_List.thy ===== *)
theory Mt_Array_List
  imports Kv_Prelude
begin

text \<open>
  The growable array of hashes of \<^verbatim>\<open>src/src/merkle/mt_array_list.c\<close> and \<^verbatim>\<open>mt_array_list.h\<close>:
  every level of the Merkle tree is one of these. The array keeps a 32-bit element count and a heap
  block whose size is doubled whenever the count reaches a power of two.
  All offsets and sizes are computed in 32-bit arithmetic, as in the code.
\<close>

section \<open>The code\<close>

definition HASH_LENGTH :: u32 where "HASH_LENGTH = 32"
definition TREE_LEVELS :: u32 where "TREE_LEVELS = 30"
definition MT_AL_MAX_ELEMS :: u32 where "MT_AL_MAX_ELEMS = 536870912"

datatype mt_error =
  MT_SUCCESS | MT_ERR_OUT_OF_MEMORY | MT_ERR_ILLEGAL_PARAM | MT_ERR_ILLEGAL_STATE
| MT_ERR_ROOT_MISMATCH | MT_ERR_UNSPECIFIED

text \<open>The integer value of the enumeration, as a function with return type \<^verbatim>\<open>int\<close> sees it.\<close>

fun mt_error_code :: "mt_error \<Rightarrow> int" where
  "mt_error_code MT_SUCCESS = 0"
| "mt_error_code MT_ERR_OUT_OF_MEMORY = -1"
| "mt_error_code MT_ERR_ILLEGAL_PARAM = -2"
| "mt_error_code MT_ERR_ILLEGAL_STATE = -3"
| "mt_error_code MT_ERR_ROOT_MISMATCH = -4"
| "mt_error_code MT_ERR_UNSPECIFIED = -5"

record mt_al_t =
  elems :: u32
  store :: block

definition round_next_power_two :: "u32 \<Rightarrow> u32" where
  "round_next_power_two v0 =
     (let v = v0 - 1;
          v = v OR drop_bit 1 v;
          v = v OR drop_bit 2 v;
          v = v OR drop_bit 4 v;
          v = v OR drop_bit 8 v;
          v = v OR drop_bit 16 v;
          v = v + 1
      in v + (if v = 0 then 1 else 0))"

definition is_power_of_two :: "u32 \<Rightarrow> bool" where
  "is_power_of_two v \<longleftrightarrow> v \<noteq> 0 \<and> v AND (v - 1) = 0"

text \<open>\<^verbatim>\<open>calloc\<close> of the structure: \<open>None\<close> when the allocator refuses.\<close>

definition mt_al_create :: "bool \<Rightarrow> mt_al_t option" where
  "mt_al_create ok = (if ok then Some \<lparr>elems = 0, store = Null\<rparr> else None)"

definition mt_al_delete :: "mt_al_t option \<Rightarrow> unit res" where
  "mt_al_delete al = (case al of None \<Rightarrow> Inl NullDeref
     | Some a \<Rightarrow> bindE (free (store a)) (\<lambda>_. Inr ()))"

text \<open>The common tail of \<open>mt_al_add\<close>: copy the hash behind the last element and count it.\<close>

definition mt_al_append :: "mt_al_t \<Rightarrow> byte list \<Rightarrow> (mt_error \<times> mt_al_t) res" where
  "mt_al_append a h =
     bindE (bwrite (store a) (unat (elems a * HASH_LENGTH)) h)
       (\<lambda>s. Inr (MT_SUCCESS, a\<lparr>store := s, elems := elems a + 1\<rparr>))"

definition mt_al_add :: "bool \<Rightarrow> mt_al_t option \<Rightarrow> byte list option \<Rightarrow> (mt_error \<times> mt_al_t option) res" where
  "mt_al_add ok mt_al hash = (case mt_al of None \<Rightarrow> Inl NullDeref | Some a \<Rightarrow>
     if \<not> elems a < MT_AL_MAX_ELEMS then Inl AssertFail
     else case hash of None \<Rightarrow> Inr (MT_ERR_ILLEGAL_PARAM, mt_al) | Some h \<Rightarrow>
     if elems a = 0 then
       (let s = malloc ok (unat HASH_LENGTH)
        in if s = Null then Inr (MT_ERR_OUT_OF_MEMORY, Some (a\<lparr>store := s\<rparr>))
           else bindE (mt_al_append (a\<lparr>store := s\<rparr>) h) (\<lambda>(e, a'). Inr (e, Some a')))
     else if is_power_of_two (elems a) then
       (if push_bit 1 (elems a) < elems a \<or> push_bit 1 (elems a) > MT_AL_MAX_ELEMS
        then Inr (MT_ERR_ILLEGAL_STATE, mt_al)
        else let alloc = elems a * 2 * HASH_LENGTH
             in bindE (realloc ok (store a) (unat alloc)) (\<lambda>(tmp, old).
                  if tmp = Null then Inr (MT_ERR_OUT_OF_MEMORY, Some (a\<lparr>store := old\<rparr>))
                  else bindE (mt_al_append (a\<lparr>store := tmp\<rparr>) h) (\<lambda>(e, a'). Inr (e, Some a'))))
     else bindE (mt_al_append a h) (\<lambda>(e, a'). Inr (e, Some a')))"

definition mt_al_update :: "mt_al_t option \<Rightarrow> byte list option \<Rightarrow> u32 \<Rightarrow> (mt_error \<times> mt_al_t option) res" where
  "mt_al_update mt_al hash offset = (case mt_al of None \<Rightarrow> Inl NullDeref | Some a \<Rightarrow>
     if \<not> elems a < MT_AL_MAX_ELEMS then Inl AssertFail
     else case hash of None \<Rightarrow> Inr (MT_ERR_ILLEGAL_PARAM, mt_al) | Some h \<Rightarrow>
     if \<not> offset < elems a then Inr (MT_ERR_ILLEGAL_PARAM, mt_al)
     else bindE (bwrite (store a) (unat (offset * HASH_LENGTH)) h)
            (\<lambda>s. Inr (MT_SUCCESS, Some (a\<lparr>store := s\<rparr>))))"

definition mt_al_update_if_exists :: "mt_al_t option \<Rightarrow> byte list option \<Rightarrow> u32 \<Rightarrow> (mt_error \<times> mt_al_t option) res" where
  "mt_al_update_if_exists mt_al hash offset = (case mt_al of None \<Rightarrow> Inl NullDeref | Some a \<Rightarrow>
     if \<not> elems a < MT_AL_MAX_ELEMS then Inl AssertFail
     else case hash of None \<Rightarrow> Inr (MT_ERR_ILLEGAL_PARAM, mt_al) | Some h \<Rightarrow>
     if offset \<ge> elems a then Inr (MT_SUCCESS, mt_al)
     else bindE (bwrite (store a) (unat (offset * HASH_LENGTH)) h)
            (\<lambda>s. Inr (MT_SUCCESS, Some (a\<lparr>store := s\<rparr>))))"

definition mt_al_add_or_update :: "bool \<Rightarrow> mt_al_t option \<Rightarrow> byte list option \<Rightarrow> u32 \<Rightarrow> (mt_error \<times> mt_al_t option) res" where
  "mt_al_add_or_update ok mt_al hash offset = (case mt_al of None \<Rightarrow> Inl NullDeref | Some a \<Rightarrow>
     if \<not> elems a < MT_AL_MAX_ELEMS then Inl AssertFail
     else if hash = None \<or> offset > elems a then Inr (MT_ERR_ILLEGAL_PARAM, mt_al)
     else if offset = elems a then mt_al_add ok mt_al hash
     else mt_al_update mt_al hash offset)"

definition mt_al_truncate :: "bool \<Rightarrow> mt_al_t option \<Rightarrow> u32 \<Rightarrow> (mt_error \<times> mt_al_t option) res" where
  "mt_al_truncate ok mt_al n = (case mt_al of None \<Rightarrow> Inl NullDeref | Some a0 \<Rightarrow>
     if \<not> elems a0 < MT_AL_MAX_ELEMS then Inl AssertFail
     else if \<not> n < elems a0 then Inr (MT_ERR_ILLEGAL_PARAM, mt_al)
     else let a = a0\<lparr>elems := n\<rparr> in
     if n = 0 then bindE (free (store a)) (\<lambda>s. Inr (MT_SUCCESS, Some (a\<lparr>store := s\<rparr>)))
     else let alloc = round_next_power_two n * HASH_LENGTH
          in bindE (realloc ok (store a) (unat alloc)) (\<lambda>(tmp, old).
               if tmp = Null then Inr (MT_ERR_OUT_OF_MEMORY, Some (a\<lparr>store := old\<rparr>))
               else Inr (MT_SUCCESS, Some (a\<lparr>store := tmp\<rparr>))))"

text \<open>
  \<open>mt_al_get\<close> returns a pointer into the store, given by its byte offset, or \<^verbatim>\<open>NULL\<close>;
  \<open>mt_al_load\<close> reads the hash such a pointer refers to.
\<close>

definition mt_al_get :: "mt_al_t option \<Rightarrow> u32 \<Rightarrow> u32 option res" where
  "mt_al_get mt_al offset = (case mt_al of None \<Rightarrow> Inl NullDeref | Some a \<Rightarrow>
     if \<not> elems a < MT_AL_MAX_ELEMS then Inl AssertFail
     else if \<not> offset < elems a then Inr None
     else Inr (Some (offset * HASH_LENGTH)))"

definition mt_al_load :: "mt_al_t \<Rightarrow> u32 \<Rightarrow> byte list res" where
  "mt_al_load a p = bread (store a) (unat p) (unat HASH_LENGTH)"

definition mt_al_has_right_neighbor :: "mt_al_t option \<Rightarrow> u32 \<Rightarrow> u32" where
  "mt_al_has_right_neighbor mt_al offset = (case mt_al of None \<Rightarrow> 0
     | Some a \<Rightarrow> if offset + 1 < elems a then 1 else 0)"

definition mt_al_get_size :: "mt_al_t option \<Rightarrow> u32" where
  "mt_al_get_size mt_al = (case mt_al of None \<Rightarrow> 0 | Some a \<Rightarrow> elems a)"

lemmas mt_al_consts = HASH_LENGTH_def TREE_LEVELS_def MT_AL_MAX_ELEMS_def

section \<open>The two power-of-two helpers\<close>

lemma nat_and_pred_pow2: "0 < n \<Longrightarrow> (n AND (n - 1) = 0) = (\<exists>k. n = 2 ^ k)" for n :: nat
proof (induction n rule: less_induct)
  case (less n)
  show ?case
  proof (cases "even n")
    case True
    with less.prems obtain m where n: "n = 2 * m" and m: "0 < m" by (auto elim!: evenE)
    from m have "n - 1 = 1 + 2 * (m - 1)" by (simp add: n)
    then have "n AND (n - 1) = 2 * (m AND (m - 1))"
      using n by (simp add: and_rec [of "2 * m"])
    moreover have "(m AND (m - 1) = 0) = (\<exists>k. m = 2 ^ k)"
      using less.IH [of m] m n by simp
    moreover have "(\<exists>k. n = 2 ^ k) = (\<exists>k. m = 2 ^ k)"
    proof
      assume "\<exists>k. n = 2 ^ k"
      then obtain k where "2 * m = 2 ^ k" using n by auto
      then show "\<exists>k. m = 2 ^ k" by (cases k) auto
    next
      assume "\<exists>k. m = 2 ^ k"
      then show "\<exists>k. n = 2 ^ k" using n by (metis power_Suc)
    qed
    ultimately show ?thesis by simp
  next
    case False
    then obtain m where n: "n = 1 + 2 * m" by (auto elim!: oddE)
    then have "n AND (n - 1) = 2 * m" by (simp add: and_rec [of "Suc (2 * m)"])
    moreover have "(\<exists>k. n = 2 ^ k) = (m = 0)"
    proof
      assume "\<exists>k. n = 2 ^ k"
      then obtain k where "n = 2 ^ k" by blast
      with False have "k = 0" by (cases k) auto
      with \<open>n = 2 ^ k\<close> n show "m = 0" by simp
    qed (use n in \<open>auto intro: exI [of _ 0]\<close>)
    ultimately show ?thesis by simp
  qed
qed

lemma is_power_of_two_iff: "is_power_of_two v \<longleftrightarrow> (\<exists>k. unat v = 2 ^ k)"
proof (cases "v = 0")
  case False
  then have pos: "0 < unat v" by (simp add: unat_gt_0)
  have "unat (v - 1) = unat v - 1" using False by (simp add: unat_minus_one)
  then have "unat (v AND (v - 1)) = unat v AND (unat v - 1)" by (simp add: unsigned_and_eq)
  then have "(v AND (v - 1) = 0) = (unat v AND (unat v - 1) = 0)" by (metis unat_eq_zero)
  with nat_and_pred_pow2 [OF pos] False show ?thesis by (simp add: is_power_of_two_def)
qed (simp add: is_power_of_two_def)

lemma smear_step:
  fixes v m :: "'a::len word"
  assumes "\<And>i. bit v i \<longleftrightarrow> (\<exists>j<a. bit m (i + j))" and "b = a + a"
  shows "bit (v OR drop_bit a v) i \<longleftrightarrow> (\<exists>j<b. bit m (i + j))"
proof -
  have "bit (v OR drop_bit a v) i \<longleftrightarrow> (\<exists>j<a. bit m (i + j)) \<or> (\<exists>j<a. bit m (i + (a + j)))"
    by (simp add: bit_or_iff bit_drop_bit_eq assms ac_simps)
  also have "\<dots> \<longleftrightarrow> (\<exists>j<b. bit m (i + j))"
    unfolding assms(2) by (metis add_diff_inverse_nat nat_add_left_cancel_less trans_less_add1)
  finally show ?thesis .
qed

definition smear :: "u32 \<Rightarrow> u32" where
  "smear m = (let v = m OR drop_bit 1 m; v = v OR drop_bit 2 v; v = v OR drop_bit 4 v;
      v = v OR drop_bit 8 v in v OR drop_bit 16 v)"

lemma bit_smear: "bit (smear m) i \<longleftrightarrow> (\<exists>j<32. bit m (i + j))"
proof -
  have 0: "\<And>i. bit m i \<longleftrightarrow> (\<exists>j<1. bit m (i + j))" by auto
  note 1 = smear_step [where b = 2, OF 0]
  note 2 = smear_step [where b = 4, OF 1]
  note 3 = smear_step [where b = 8, OF 2]
  note 4 = smear_step [where b = 16, OF 3]
  note 5 = smear_step [where b = 32, OF 4]
  show ?thesis unfolding smear_def Let_def by (rule 5) simp_all
qed

lemma smear_pow2:
  assumes "2 ^ k \<le> unat m" and "unat m < 2 ^ Suc k"
  shows "unat (smear m) = 2 ^ Suc k - 1"
proof -
  have m: "unat m < 2 ^ 32" using unsigned_less [of m] by simp
  have k: "k < 32"
  proof (rule ccontr)
    assume "\<not> k < 32"
    then have "(2::nat) ^ 32 \<le> 2 ^ k" by (intro power_increasing) auto
    with assms(1) m show False by linarith
  qed
  have b: "bit m j = bit (unat m) j" for j by (simp add: bit_unsigned_iff)
  have hi: "\<not> bit m j" if "Suc k \<le> j" for j
  proof -
    have "unat m < 2 ^ j" using assms(2) that by (meson le_less_trans power_increasing_iff
      less_le_trans one_less_numeral_iff semiring_norm(76))
    then show ?thesis unfolding b bit_nat_def by simp
  qed
  have top: "bit m k"
  proof -
    have "unat m div 2 ^ k = 1" using assms by (simp add: div_nat_eqI)
    then show ?thesis unfolding b bit_nat_def by simp
  qed
  have "smear m = mask (Suc k)"
  proof (rule bit_word_eqI)
    fix i assume "i < LENGTH(32)"
    have "(\<exists>j<32. bit m (i + j)) \<longleftrightarrow> i \<le> k"
    proof
      assume "\<exists>j<32. bit m (i + j)"
      then show "i \<le> k" using hi by (meson le_add1 le_trans not_less_eq_eq)
    next
      assume "i \<le> k"
      then have "bit m (i + (k - i))" and "k - i < 32" using top k by auto
      then show "\<exists>j<32. bit m (i + j)" by blast
    qed
    then show "bit (smear m) i = bit (mask (Suc k) :: u32) i"
      using \<open>i < LENGTH(32)\<close> by (auto simp: bit_smear bit_mask_iff)
  qed
  then have "smear m = take_bit (Suc k) (- 1)" by simp
  then have "unat (smear m) = mask (min (Suc k) 32)"
    by (simp only: unsigned_take_bit_eq unsigned_minus_1_eq_mask take_bit_of_mask) simp
  then show ?thesis using k by (simp add: mask_eq_exp_minus_1 min_def del: power_Suc)
qed

lemma nat_floor_log2: "0 < n \<Longrightarrow> \<exists>k. 2 ^ k \<le> n \<and> n < (2::nat) ^ Suc k"
  by (metis One_nat_def Suc_leI ex_power_ivl1 one_less_numeral_iff order_refl semiring_norm(76) Suc_eq_plus1)

lemma round_next_power_two_spec:
  assumes "0 < unat n" and "unat n \<le> 2 ^ 31"
  shows "\<exists>k. unat (round_next_power_two n) = 2 ^ k \<and> unat n \<le> 2 ^ k \<and> 2 ^ k < 2 * unat n"
proof -
  have r: "round_next_power_two n = (let v = smear (n - 1) + 1 in v + (if v = 0 then 1 else 0))"
    by (simp add: round_next_power_two_def smear_def Let_def)
  have n1: "unat (n - 1) = unat n - 1"
    using assms(1) by (metis unat_minus_one unat_0 less_irrefl)
  show ?thesis
  proof (cases "unat n = 1")
    case True
    then have "n = 1" by (simp add: word_unat_eq_iff)
    then show ?thesis by (intro exI [of _ 0]) (simp add: round_next_power_two_def)
  next
    case False
    with assms(1) have "0 < unat (n - 1)" using n1 by simp
    then obtain k where k: "2 ^ k \<le> unat (n - 1)" "unat (n - 1) < 2 ^ Suc k"
      using nat_floor_log2 by blast
    have "(2::nat) ^ k < 2 ^ 31" using k(1) n1 assms by linarith
    then have k31: "Suc k < 32" using power_less_imp_less_exp [of "2::nat" k 31] by simp
    then have lt: "(2::nat) ^ Suc k < 2 ^ 32" by (intro power_strict_increasing) auto
    have "unat (smear (n - 1) + 1) = 2 ^ Suc k"
      using smear_pow2 [OF k] lt by (subst unat_add_no_wrap) auto
    then have "unat (round_next_power_two n) = 2 ^ Suc k"
      by (auto simp: r Let_def)
    then show ?thesis using k n1 by (intro exI [of _ "Suc k"]) auto
  qed
qed
section \<open>Invariant and abstraction\<close>

definition al_slot :: "mt_al_t \<Rightarrow> nat \<Rightarrow> byte list" where
  "al_slot a i = (case bread (store a) (32 * i) 32 of Inr h \<Rightarrow> h | Inl _ \<Rightarrow> [])"

definition al_hashes :: "mt_al_t \<Rightarrow> byte list list" where
  "al_hashes a = map (al_slot a) [0..<unat (elems a)]"

definition al_slot_ok :: "mt_al_t \<Rightarrow> nat \<Rightarrow> bool" where
  "al_slot_ok a i = (bread (store a) (32 * i) 32 = Inr (al_slot a i))"

definition al_inv :: "mt_al_t \<Rightarrow> bool" where
  "al_inv a \<longleftrightarrow> unat (elems a) \<le> 2 ^ 26 \<and> (elems a = 0 \<and> store a \<noteq> Freed \<or> (case store a of
     Block cs \<Rightarrow> 32 * unat (round_next_power_two (elems a)) \<le> length cs
       \<and> list_all (al_slot_ok a) [0..<unat (elems a)]
   | _ \<Rightarrow> False))"

lemma al_hashes_length [simp, len_simps]: "length (al_hashes a) = unat (elems a)"
  by (simp add: al_hashes_def)

lemma al_inv_empty: "elems a = 0 \<Longrightarrow> store a \<noteq> Freed \<Longrightarrow> al_inv a"
  by (simp add: al_inv_def)

lemma al_inv_delete: "al_inv a \<Longrightarrow> mt_al_delete (Some a) = Inr ()"
  by (cases "store a") (auto simp: al_inv_def mt_al_delete_def)

lemma al_hashes_empty: "elems a = 0 \<Longrightarrow> al_hashes a = []"
  by (simp add: al_hashes_def)

lemma unat_mult_32:
  "unat v < 2 ^ 27 \<Longrightarrow> unat (v * HASH_LENGTH) = 32 * unat v"
  by (simp add: mt_al_consts unat_word_ariths)

lemma unat_HASH_LENGTH [simp]: "unat HASH_LENGTH = 32"
  by (simp add: mt_al_consts)

text \<open>What the invariant says of a non-empty list.\<close>

lemma al_inv_nonempty:
  assumes "al_inv a" and "elems a \<noteq> 0"
  obtains cs k where "store a = Block cs" and "unat (elems a) \<le> 2 ^ k" and "2 ^ k < 2 * unat (elems a)"
    and "32 * 2 ^ k \<le> length cs" and "unat (elems a) \<le> 2 ^ 26"
    and "\<And>i. i < unat (elems a) \<Longrightarrow> bread (Block cs) (32 * i) 32 = Inr (al_slot a i)"
proof -
  from assms obtain cs where cs: "store a = Block cs"
    and cap: "32 * unat (round_next_power_two (elems a)) \<le> length cs"
    and ok: "list_all (al_slot_ok a) [0..<unat (elems a)]" and le: "unat (elems a) \<le> 2 ^ 26"
    by (auto simp: al_inv_def split: block.splits)
  have "0 < unat (elems a)" using assms(2) by (simp add: unat_gt_0)
  with le round_next_power_two_spec [of "elems a"] obtain k
    where "unat (round_next_power_two (elems a)) = 2 ^ k" "unat (elems a) \<le> 2 ^ k"
      "2 ^ k < 2 * unat (elems a)"
    by auto
  with that cs cap ok le show ?thesis by (auto simp: list_all_iff al_slot_ok_def)
qed

lemma al_invI:
  assumes "store a = Block cs" and "0 < unat (elems a)" and "unat (elems a) \<le> 2 ^ 26"
    and "unat (elems a) \<le> 2 ^ k" and "2 ^ k < 2 * unat (elems a)" and "32 * 2 ^ k \<le> length cs"
    and "\<And>i. i < unat (elems a) \<Longrightarrow> bread (Block cs) (32 * i) 32 = Inr (al_slot a i)"
  shows "al_inv a"
proof -
  from assms(2,3) round_next_power_two_spec [of "elems a"] obtain k'
    where k': "unat (round_next_power_two (elems a)) = 2 ^ k'" "unat (elems a) \<le> 2 ^ k'"
      "2 ^ k' < 2 * unat (elems a)"
    by auto
  have "(2::nat) ^ k' < 2 ^ Suc k" using k'(3) assms(4) by simp
  then have "k' \<le> k" by (metis less_Suc_eq_le one_less_numeral_iff power_less_imp_less_exp semiring_norm(76))
  then have "(2::nat) ^ k' \<le> 2 ^ k" by (simp add: power_increasing)
  with assms(6) k'(1) have "32 * unat (round_next_power_two (elems a)) \<le> length cs" by linarith
  with assms(1,3,7) show ?thesis
    by (simp add: al_inv_def al_slot_ok_def list_all_iff del: bread.simps)
qed

lemma al_inv_slot_ok:
  assumes "al_inv a" and "i < unat (elems a)"
  shows "bread (store a) (32 * i) 32 = Inr (al_hashes a ! i)"
proof -
  have "elems a \<noteq> 0" using assms(2) by auto
  with assms show ?thesis by (auto elim: al_inv_nonempty simp: al_hashes_def)
qed

lemma al_hashes_slot_length: "al_inv a \<Longrightarrow> h \<in> set (al_hashes a) \<Longrightarrow> length h = 32"
  by (metis al_hashes_length al_inv_slot_ok bread_length in_set_conv_nth)

section \<open>Appending\<close>

text \<open>The copy step, given a block with room for one more hash.\<close>

lemma mt_al_append_ok:
  assumes "store a = Block cs" and "unat (elems a) < 2 ^ 26" and "length h = 32"
    and "unat (elems a) + 1 \<le> 2 ^ k" and "2 ^ k < 2 * (unat (elems a) + 1)" and "32 * 2 ^ k \<le> length cs"
    and "\<And>i. i < unat (elems a) \<Longrightarrow> bread (Block cs) (32 * i) 32 = Inr (hs ! i)"
    and "length hs = unat (elems a)"
  shows "\<exists>a'. mt_al_append a h = Inr (MT_SUCCESS, a') \<and> al_inv a' \<and> al_hashes a' = hs @ [h]"
proof -
  let ?n = "unat (elems a)"
  have room: "32 * ?n + 32 \<le> length cs" using assms(4,6) by linarith
  define s where "s = Block (take (32 * ?n) cs @ map Some h @ drop (32 * ?n + 32) cs)"
  have w: "bwrite (Block cs) (32 * ?n) h = Inr s"
    using room assms(3) by (simp add: s_def)
  define a' where "a' = a\<lparr>store := s, elems := elems a + 1\<rparr>"
  have app: "mt_al_append a h = Inr (MT_SUCCESS, a')"
    using assms(1,2) w by (simp add: mt_al_append_def unat_mult_32 a'_def)
  have n': "unat (elems a') = Suc ?n"
    using assms(2) by (simp add: a'_def unat_add_no_wrap)
  have rd: "bread s (32 * i) 32 = Inr ((hs @ [h]) ! i)" if "i < Suc ?n" for i
  proof (cases "i = ?n")
    case True
    then show ?thesis using bread_bwrite_same [OF w] assms(3,8) by (simp add: nth_append)
  next
    case False
    with that have i: "i < ?n" by simp
    then have "32 * i + 32 \<le> 32 * ?n" by simp
    then have "bread s (32 * i) 32 = bread (Block cs) (32 * i) 32"
      using bread_bwrite_other [OF w, of "32 * i" 32] by simp
    with assms(7) [OF i] i assms(8) show ?thesis by (simp add: nth_append)
  qed
  have slot: "al_slot a' i = (hs @ [h]) ! i" if "i < Suc ?n" for i
    using rd [OF that] by (simp add: al_slot_def a'_def)
  have "al_inv a'"
  proof (rule al_invI [where k = k])
    show "store a' = Block (take (32 * ?n) cs @ map Some h @ drop (32 * ?n + 32) cs)"
      by (simp add: a'_def s_def)
    show "32 * 2 ^ k \<le> length (take (32 * ?n) cs @ map Some h @ drop (32 * ?n + 32) cs)"
      using assms(3,6) room by simp
    show "bread (Block (take (32 * ?n) cs @ map Some h @ drop (32 * ?n + 32) cs)) (32 * i) 32
        = Inr (al_slot a' i)" if "i < unat (elems a')" for i
      using rd [of i] slot [of i] that n' unfolding s_def by simp
  qed (use n' assms(2,4,5) in auto)
  moreover have "al_hashes a' = hs @ [h]"
  proof (rule nth_equalityI)
    show "length (al_hashes a') = length (hs @ [h])" using n' assms(8) by simp
    show "al_hashes a' ! i = (hs @ [h]) ! i" if "i < length (al_hashes a')" for i
      using slot [of i] that n' by (simp add: al_hashes_def del: upt_Suc)
  qed
  ultimately show ?thesis using app by blast
qed

lemma pow2_between:
  assumes "2 ^ k < 2 * n" and "n \<le> 2 ^ k" and "n = (2::nat) ^ j"
  shows "n = 2 ^ k"
proof -
  have "(2::nat) ^ k < 2 ^ Suc j" and "(2::nat) ^ j \<le> 2 ^ k" using assms by auto
  then have "k < Suc j" and "j \<le> k"
    using power_less_imp_less_exp [of "2::nat" k "Suc j"] by simp_all
  then show ?thesis using assms(3) by simp
qed

text \<open>The doubling of a full block: enough room for the next hash, old contents kept.\<close>

lemma mt_al_grow_ok:
  assumes "store a = Block cs" and "unat (elems a) = 2 ^ k" and "unat (elems a) < 2 ^ 26"
    and "32 * 2 ^ k \<le> length cs"
    and "\<And>i. i < unat (elems a) \<Longrightarrow> bread (Block cs) (32 * i) 32 = Inr (hs ! i)"
    and "length h = 32" and "length hs = unat (elems a)"
  shows "\<exists>s a'. realloc True (store a) (unat (elems a * 2 * HASH_LENGTH)) = Inr (s, Freed) \<and> s \<noteq> Null
    \<and> mt_al_append (a\<lparr>store := s\<rparr>) h = Inr (MT_SUCCESS, a') \<and> al_inv a' \<and> al_hashes a' = hs @ [h]"
proof -
  have alloc: "unat (elems a * 2 * HASH_LENGTH) = 64 * 2 ^ k"
    using assms(2,3) by (simp add: mt_al_consts unat_word_ariths)
  define ds where "ds = take (64 * 2 ^ k) cs @ replicate (64 * 2 ^ k - length cs) None"
  have re: "realloc True (store a) (unat (elems a * 2 * HASH_LENGTH)) = Inr (Block ds, Freed)"
    using assms(1) alloc by (simp add: ds_def)
  have rd: "bread (Block ds) (32 * i) 32 = Inr (hs ! i)" if "i < unat (elems a)" for i
  proof -
    have "32 * i + 32 \<le> 32 * 2 ^ k" using that assms(2) by auto
    then have "bread (Block ds) (32 * i) 32 = bread (Block cs) (32 * i) 32"
      using re assms(1,4) by (intro bread_realloc [where ok = True and m = "64 * 2 ^ k"])
        (auto simp: alloc simp del: bread.simps)
    with assms(5) [OF that] show ?thesis by simp
  qed
  have "\<exists>a'. mt_al_append (a\<lparr>store := Block ds\<rparr>) h = Inr (MT_SUCCESS, a') \<and> al_inv a'
      \<and> al_hashes a' = hs @ [h]"
    by (rule mt_al_append_ok [where k = "Suc k"])
      (use assms rd in \<open>auto simp: ds_def simp del: bread.simps\<close>)
  with re show ?thesis by blast
qed

lemma elems_below_max: "unat (elems a) \<le> 2 ^ 26 \<Longrightarrow> elems a < MT_AL_MAX_ELEMS"
  by (simp add: mt_al_consts word_less_nat_alt)

lemma doubling_guard:
  assumes "unat v \<le> 2 ^ 26" and "unat v = 2 ^ k"
  shows "\<not> (push_bit 1 v < v \<or> push_bit 1 v > MT_AL_MAX_ELEMS)"
proof -
  have "unat (push_bit 1 v) = 2 * 2 ^ k" using assms by (simp add: unat_word_ariths)
  with assms show ?thesis by (auto simp: word_less_nat_alt mt_al_consts)
qed

text \<open>A granted \<open>mt_al_add\<close> appends.\<close>

lemma mt_al_add_ok:
  assumes "al_inv a" and "unat (elems a) < 2 ^ 26" and "length h = 32"
  shows "\<exists>a'. mt_al_add True (Some a) (Some h) = Inr (MT_SUCCESS, Some a')
    \<and> al_inv a' \<and> al_hashes a' = al_hashes a @ [h]"
proof -
  have max: "elems a < MT_AL_MAX_ELEMS" using assms(2) by (simp add: elems_below_max)
  show ?thesis
  proof (cases "elems a = 0")
    case True
    define s where "s = Block (replicate 32 (None :: byte option))"
    have "\<exists>a'. mt_al_append (a\<lparr>store := s\<rparr>) h = Inr (MT_SUCCESS, a') \<and> al_inv a'
        \<and> al_hashes a' = [] @ [h]"
      by (rule mt_al_append_ok [where k = 0]) (use True assms in \<open>auto simp: s_def\<close>)
    then show ?thesis
      using True max by (auto simp: mt_al_add_def malloc_def s_def al_hashes_empty Let_def)
  next
    case False
    then obtain cs k where cs: "store a = Block cs"
      and k: "unat (elems a) \<le> 2 ^ k" "2 ^ k < 2 * unat (elems a)" and cap: "32 * 2 ^ k \<le> length cs"
      and rd: "\<And>i. i < unat (elems a) \<Longrightarrow> bread (Block cs) (32 * i) 32 = Inr (al_slot a i)"
      using al_inv_nonempty [OF assms(1)] by metis
    have hs: "\<And>i. i < unat (elems a) \<Longrightarrow> bread (Block cs) (32 * i) 32 = Inr (al_hashes a ! i)"
      using rd by (simp add: al_hashes_def del: bread.simps)
    show ?thesis
    proof (cases "is_power_of_two (elems a)")
      case True
      then have n2: "unat (elems a) = 2 ^ k"
        using k pow2_between is_power_of_two_iff by metis
      have guard: "\<not> (push_bit 1 (elems a) < elems a \<or> push_bit 1 (elems a) > MT_AL_MAX_ELEMS)"
        by (rule doubling_guard) (use n2 assms(2) in auto)
      obtain s a' where "realloc True (store a) (unat (elems a * 2 * HASH_LENGTH)) = Inr (s, Freed)"
        "s \<noteq> Null" "mt_al_append (a\<lparr>store := s\<rparr>) h = Inr (MT_SUCCESS, a')" "al_inv a'"
        "al_hashes a' = al_hashes a @ [h]"
        using mt_al_grow_ok [OF cs n2 assms(2) cap hs assms(3)] by auto
      then show ?thesis
        using False True guard max by (auto simp: mt_al_add_def Let_def simp del: realloc.simps)
    next
      case np: False
      have ne: "unat (elems a) \<noteq> 2 ^ k" using np is_power_of_two_iff by metis
      have "\<exists>a'. mt_al_append a h = Inr (MT_SUCCESS, a') \<and> al_inv a' \<and> al_hashes a' = al_hashes a @ [h]"
        by (rule mt_al_append_ok [where k = k, OF cs]) (use assms k ne cap hs in auto)
      then show ?thesis using False np max by (auto simp: mt_al_add_def)
    qed
  qed
qed

text \<open>
  When the allocator refuses, either nothing had to be allocated and the hash is appended, or the
  call reports it and the contents are as before.
\<close>

lemma mt_al_add_refused:
  assumes "al_inv a" and "unat (elems a) < 2 ^ 26" and "length h = 32"
  shows "\<exists>e a'. mt_al_add False (Some a) (Some h) = Inr (e, Some a') \<and> al_inv a'
    \<and> (e = MT_SUCCESS \<and> al_hashes a' = al_hashes a @ [h]
       \<or> e = MT_ERR_OUT_OF_MEMORY \<and> al_hashes a' = al_hashes a)"
proof -
  have max: "elems a < MT_AL_MAX_ELEMS" using assms(2) by (simp add: elems_below_max)
  consider "elems a = 0" | "elems a \<noteq> 0" "is_power_of_two (elems a)"
    | "elems a \<noteq> 0" "\<not> is_power_of_two (elems a)" by blast
  then show ?thesis
  proof cases
    case 1
    then show ?thesis using max
      by (auto simp: mt_al_add_def malloc_def al_inv_empty al_hashes_empty)
  next
    case 2
    then obtain k where n2: "unat (elems a) = 2 ^ k" using is_power_of_two_iff by metis
    have guard: "\<not> (push_bit 1 (elems a) < elems a \<or> push_bit 1 (elems a) > MT_AL_MAX_ELEMS)"
      by (rule doubling_guard) (use n2 assms(2) in auto)
    have alloc: "unat (elems a * 2 * HASH_LENGTH) \<noteq> 0"
      using n2 assms(2) by (simp add: mt_al_consts unat_word_ariths)
    obtain cs where cs: "store a = Block cs" using al_inv_nonempty [OF assms(1) 2(1)] by metis
    have "realloc False (store a) (unat (elems a * 2 * HASH_LENGTH)) = Inr (Null, store a)"
      using cs alloc by simp
    with 2 guard max assms(1) show ?thesis
      by (auto simp: mt_al_add_def Let_def simp del: realloc.simps)
  next
    case 3
    then have "mt_al_add False (Some a) (Some h) = mt_al_add True (Some a) (Some h)"
      by (simp add: mt_al_add_def)
    with mt_al_add_ok [OF assms] show ?thesis by auto
  qed
qed

text \<open>
  With \<open>2 ^ 26\<close> elements the new size, \<open>2 ^ 26 * 2 * 32\<close>, is zero in 32-bit arithmetic: the call
  reports that memory is exhausted, whatever the allocator would grant, and the block is gone while
  the structure still points to it.
\<close>

lemma mt_al_add_full:
  assumes "al_inv a" and "unat (elems a) = 2 ^ 26"
  shows "mt_al_add ok (Some a) (Some h) = Inr (MT_ERR_OUT_OF_MEMORY, Some (a\<lparr>store := Freed\<rparr>))"
proof -
  have e: "elems a = 2 ^ 26" using assms(2) by (simp add: word_unat_eq_iff)
  have nz: "elems a \<noteq> 0" by (simp add: e)
  have p2: "is_power_of_two (elems a)" using assms(2) is_power_of_two_iff by blast
  have max: "elems a < MT_AL_MAX_ELEMS" using assms(2) by (simp add: elems_below_max)
  have guard: "\<not> (push_bit 1 (elems a) < elems a \<or> push_bit 1 (elems a) > MT_AL_MAX_ELEMS)"
    by (rule doubling_guard [where k = 26]) (use assms(2) in auto)
  have alloc: "elems a * 2 * HASH_LENGTH = 0" by (simp add: e mt_al_consts)
  obtain cs where "store a = Block cs" using al_inv_nonempty [OF assms(1) nz] by metis
  with nz p2 max guard alloc show ?thesis by (simp add: mt_al_add_def Let_def)
qed

section \<open>Reading and updating\<close>

text \<open>The hash that a pointer returned by \<open>mt_al_get\<close> refers to, as its user reads it.\<close>

definition mt_al_fetch :: "mt_al_t option \<Rightarrow> u32 \<Rightarrow> byte list option res" where
  "mt_al_fetch mt_al offset = bindE (mt_al_get mt_al offset) (\<lambda>p. case (p, mt_al) of
      (Some q, Some a) \<Rightarrow> bindE (mt_al_load a q) (\<lambda>h. Inr (Some h)) | _ \<Rightarrow> Inr None)"

lemma al_inv_le: "al_inv a \<Longrightarrow> unat (elems a) \<le> 2 ^ 26"
  by (simp add: al_inv_def)

lemma unat_offset:
  "al_inv a \<Longrightarrow> unat off < unat (elems a) \<Longrightarrow> unat (off * HASH_LENGTH) = 32 * unat off"
  using al_inv_le [of a] by (intro unat_mult_32) simp

lemma mt_al_fetch_eq:
  assumes "al_inv a"
  shows "mt_al_fetch (Some a) off =
    Inr (if unat off < unat (elems a) then Some (al_hashes a ! unat off) else None)"
  using assms elems_below_max [OF al_inv_le [OF assms]]
  by (simp add: mt_al_fetch_def mt_al_get_def mt_al_load_def word_less_nat_alt [of off]
      unat_offset al_inv_slot_ok)

lemma al_write_ok:
  assumes "al_inv a" and "unat off < unat (elems a)" and "length h = 32"
  shows "\<exists>s. bwrite (store a) (unat (off * HASH_LENGTH)) h = Inr s \<and> al_inv (a\<lparr>store := s\<rparr>)
    \<and> al_hashes (a\<lparr>store := s\<rparr>) = (al_hashes a)[unat off := h]"
proof -
  let ?o = "unat off"
  have nz: "elems a \<noteq> 0" using assms(2) by auto
  obtain cs k where cs: "store a = Block cs"
    and k: "unat (elems a) \<le> 2 ^ k" "2 ^ k < 2 * unat (elems a)" and cap: "32 * 2 ^ k \<le> length cs"
    and rd: "\<And>i. i < unat (elems a) \<Longrightarrow> bread (Block cs) (32 * i) 32 = Inr (al_slot a i)"
    using al_inv_nonempty [OF assms(1) nz] by metis
  have room: "32 * ?o + 32 \<le> length cs" using assms(2) k(1) cap by linarith
  define ds where "ds = take (32 * ?o) cs @ map Some h @ drop (32 * ?o + 32) cs"
  have w: "bwrite (Block cs) (32 * ?o) h = Inr (Block ds)"
    using room assms(3) by (simp add: ds_def)
  define a' where "a' = a\<lparr>store := Block ds\<rparr>"
  have rd': "bread (Block ds) (32 * i) 32 = Inr ((al_hashes a)[?o := h] ! i)"
    if i: "i < unat (elems a)" for i
  proof (cases "i = ?o")
    case True
    then show ?thesis using bread_bwrite_same [OF w] assms(2,3) by simp
  next
    case False
    then have "32 * i + 32 \<le> 32 * ?o \<or> 32 * ?o + length h \<le> 32 * i" using assms(3) by arith
    then have "bread (Block ds) (32 * i) 32 = bread (Block cs) (32 * i) 32"
      by (rule bread_bwrite_other [OF w])
    then show ?thesis using rd [OF i] False i by (simp add: al_hashes_def del: bread.simps)
  qed
  have slot: "al_slot a' i = (al_hashes a)[?o := h] ! i" if "i < unat (elems a)" for i
    using rd' [OF that] by (simp add: al_slot_def a'_def del: bread.simps)
  have "al_inv a'"
    by (rule al_invI [where k = k and cs = ds])
      (use nz k cap rd' slot al_inv_le [OF assms(1)] room assms(3) in
        \<open>auto simp: a'_def ds_def unat_gt_0 simp del: bread.simps\<close>)
  moreover have "al_hashes a' = (al_hashes a)[?o := h]"
    by (rule nth_equalityI) (use slot in \<open>auto simp: al_hashes_def a'_def\<close>)
  ultimately show ?thesis
    using w cs unat_offset [OF assms(1,2)] by (auto simp: a'_def simp del: bwrite.simps)
qed

lemma mt_al_update_ok:
  assumes "al_inv a" and "unat off < unat (elems a)" and "length h = 32"
  shows "\<exists>a'. mt_al_update (Some a) (Some h) off = Inr (MT_SUCCESS, Some a') \<and> al_inv a'
    \<and> al_hashes a' = (al_hashes a)[unat off := h]"
  using al_write_ok [OF assms] assms(2) elems_below_max [OF al_inv_le [OF assms(1)]]
  by (auto simp: mt_al_update_def word_less_nat_alt)

lemma mt_al_update_beyond:
  assumes "al_inv a" and "unat (elems a) \<le> unat off"
  shows "mt_al_update (Some a) (Some h) off = Inr (MT_ERR_ILLEGAL_PARAM, Some a)"
  using assms elems_below_max [OF al_inv_le [OF assms(1)]]
  by (simp add: mt_al_update_def word_less_nat_alt)

lemma mt_al_update_if_exists_ok:
  assumes "al_inv a" and "length h = 32"
  shows "\<exists>a'. mt_al_update_if_exists (Some a) (Some h) off = Inr (MT_SUCCESS, Some a') \<and> al_inv a'
    \<and> al_hashes a' = (al_hashes a)[unat off := h]"
proof (cases "unat off < unat (elems a)")
  case True
  then show ?thesis
    using al_write_ok [OF assms(1) True assms(2)] elems_below_max [OF al_inv_le [OF assms(1)]]
    by (auto simp: mt_al_update_if_exists_def word_less_nat_alt word_le_nat_alt)
next
  case False
  then show ?thesis using assms elems_below_max [OF al_inv_le [OF assms(1)]]
    by (auto simp: mt_al_update_if_exists_def word_le_nat_alt list_update_beyond)
qed

lemma mt_al_add_or_update_ok:
  assumes "al_inv a" and "unat off \<le> unat (elems a)" and "unat off < 2 ^ 26" and "length h = 32"
  shows "\<exists>a'. mt_al_add_or_update True (Some a) (Some h) off = Inr (MT_SUCCESS, Some a') \<and> al_inv a'
    \<and> al_hashes a' = (if unat off = unat (elems a) then al_hashes a @ [h]
                      else (al_hashes a)[unat off := h])"
proof (cases "unat off = unat (elems a)")
  case True
  then show ?thesis
    using assms mt_al_add_ok [OF assms(1) _ assms(4)] elems_below_max [OF al_inv_le [OF assms(1)]]
    by (auto simp: mt_al_add_or_update_def word_unat_eq_iff word_less_nat_alt)
next
  case False
  then show ?thesis
    using assms mt_al_update_ok [OF assms(1) _ assms(4)] elems_below_max [OF al_inv_le [OF assms(1)]]
    by (auto simp: mt_al_add_or_update_def word_unat_eq_iff word_less_nat_alt)
qed

section \<open>Truncating\<close>

text \<open>
  Shrinking keeps the first \<open>n\<close> hashes, also when the allocator refuses the smaller block; then the
  call reports the failure although the count has changed.
\<close>

lemma mt_al_truncate_ok:
  assumes "al_inv a" and "n \<noteq> 0" and "unat n < unat (elems a)"
  shows "\<exists>a'. mt_al_truncate ok (Some a) n =
      Inr (if ok then MT_SUCCESS else MT_ERR_OUT_OF_MEMORY, Some a') \<and> al_inv a'
    \<and> al_hashes a' = take (unat n) (al_hashes a)"
proof -
  have nz: "elems a \<noteq> 0" using assms(3) by auto
  obtain cs k where cs: "store a = Block cs"
    and k: "unat (elems a) \<le> 2 ^ k" and cap: "32 * 2 ^ k \<le> length cs" and le: "unat (elems a) \<le> 2 ^ 26"
    and rd: "\<And>i. i < unat (elems a) \<Longrightarrow> bread (Block cs) (32 * i) 32 = Inr (al_slot a i)"
    using al_inv_nonempty [OF assms(1) nz] by metis
  obtain j where j: "unat (round_next_power_two n) = 2 ^ j" "unat n \<le> 2 ^ j" "2 ^ j < 2 * unat n"
    using round_next_power_two_spec [of n] assms(2,3) le by (auto simp: unat_gt_0)
  have alloc: "unat (round_next_power_two n * HASH_LENGTH) = 32 * 2 ^ j"
    using j assms(3) le by (subst unat_mult_32) auto
  have "(2::nat) ^ j < 2 ^ Suc k" using j(3) assms(3) k by simp
  then have "(2::nat) ^ j \<le> 2 ^ k"
    using power_less_imp_less_exp [of "2::nat" j "Suc k"] by (simp add: power_increasing)
  then have fit: "32 * 2 ^ j \<le> length cs" using cap by linarith
  define ds where "ds = (if ok then take (32 * 2 ^ j) cs else cs)"
  define a' where "a' = a\<lparr>elems := n, store := Block ds\<rparr>"
  have rd': "bread (Block ds) (32 * i) 32 = Inr (al_slot a i)" if "i < unat n" for i
  proof -
    have "32 * i + 32 \<le> 32 * 2 ^ j" using that j(2) by linarith
    then have "take 32 (drop (32 * i) ds) = take 32 (drop (32 * i) cs)"
      and "32 * i + 32 \<le> length ds" and "32 * i + 32 \<le> length cs"
      using fit by (auto simp: ds_def drop_take min_def)
    then show ?thesis using rd [of i] that assms(3) by simp
  qed
  have slot: "al_slot a' i = al_slot a i" if "i < unat n" for i
    using rd' [OF that]
    by (simp add: a'_def al_slot_def [of "a\<lparr>elems := n, store := Block ds\<rparr>"] del: bread.simps)
  have "al_inv a'"
    by (rule al_invI [where k = j and cs = ds])
      (use assms(2,3) j fit rd' slot le in \<open>auto simp: a'_def ds_def unat_gt_0 simp del: bread.simps\<close>)
  moreover have "al_hashes a' = take (unat n) (al_hashes a)"
    by (rule nth_equalityI) (use slot assms(3) in \<open>auto simp: al_hashes_def a'_def\<close>)
  ultimately show ?thesis
    using assms(2,3) cs alloc fit elems_below_max [OF le]
    by (auto simp: mt_al_truncate_def word_less_nat_alt a'_def ds_def Let_def)
qed

text \<open>
  Truncating to zero frees the block and leaves the pointer to it in place. The empty list can be
  filled again, but deleting it frees the block a second time.
\<close>

lemma mt_al_truncate_zero:
  assumes "al_inv a" and "elems a \<noteq> 0"
  shows "mt_al_truncate ok (Some a) 0 = Inr (MT_SUCCESS, Some (a\<lparr>elems := 0, store := Freed\<rparr>))"
proof -
  obtain cs where "store a = Block cs" using al_inv_nonempty [OF assms] by metis
  with assms elems_below_max [OF al_inv_le [OF assms(1)]] show ?thesis
    by (simp add: mt_al_truncate_def word_less_nat_alt unat_gt_0)
qed

section \<open>The interface to the tree\<close>

text \<open>
  What the Merkle tree relies on: an array of hashes, addressed by 32-bit offsets, that can be
  appended to while it is below its capacity, updated in place, and read. The laws say what each
  operation does to the list of hashes the array stands for, and that it keeps the invariant.
\<close>

locale hash_array =
  fixes inv :: "'a \<Rightarrow> bool" and hashes :: "'a \<Rightarrow> byte list list" and capacity :: nat
    and size_of :: "'a option \<Rightarrow> u32"
    and fetch :: "'a option \<Rightarrow> u32 \<Rightarrow> byte list option res"
    and add :: "bool \<Rightarrow> 'a option \<Rightarrow> byte list option \<Rightarrow> (mt_error \<times> 'a option) res"
    and update :: "'a option \<Rightarrow> byte list option \<Rightarrow> u32 \<Rightarrow> (mt_error \<times> 'a option) res"
    and update_if_exists :: "'a option \<Rightarrow> byte list option \<Rightarrow> u32 \<Rightarrow> (mt_error \<times> 'a option) res"
    and add_or_update :: "bool \<Rightarrow> 'a option \<Rightarrow> byte list option \<Rightarrow> u32 \<Rightarrow> (mt_error \<times> 'a option) res"
  assumes size_law: "inv a \<Longrightarrow> unat (size_of (Some a)) = length (hashes a)"
    and elem_length: "inv a \<Longrightarrow> h \<in> set (hashes a) \<Longrightarrow> length h = 32"
    and fetch_law: "inv a \<Longrightarrow> fetch (Some a) off =
      Inr (if unat off < length (hashes a) then Some (hashes a ! unat off) else None)"
    and add_law: "inv a \<Longrightarrow> length (hashes a) < capacity \<Longrightarrow> length h = 32 \<Longrightarrow>
      \<exists>a'. add True (Some a) (Some h) = Inr (MT_SUCCESS, Some a') \<and> inv a' \<and> hashes a' = hashes a @ [h]"
    and update_law: "inv a \<Longrightarrow> unat off < length (hashes a) \<Longrightarrow> length h = 32 \<Longrightarrow>
      \<exists>a'. update (Some a) (Some h) off = Inr (MT_SUCCESS, Some a') \<and> inv a'
        \<and> hashes a' = (hashes a)[unat off := h]"
    and update_if_exists_law: "inv a \<Longrightarrow> length h = 32 \<Longrightarrow>
      \<exists>a'. update_if_exists (Some a) (Some h) off = Inr (MT_SUCCESS, Some a') \<and> inv a'
        \<and> hashes a' = (hashes a)[unat off := h]"
    and add_or_update_law: "inv a \<Longrightarrow> unat off \<le> length (hashes a) \<Longrightarrow> unat off < capacity \<Longrightarrow>
      length h = 32 \<Longrightarrow>
      \<exists>a'. add_or_update True (Some a) (Some h) off = Inr (MT_SUCCESS, Some a') \<and> inv a'
        \<and> hashes a' = (if unat off = length (hashes a) then hashes a @ [h] else (hashes a)[unat off := h])"
begin

lemma size_pos: "inv a \<Longrightarrow> (size_of (Some a) > 0) = (hashes a \<noteq> [])"
  by (metis length_0_conv size_law unat_eq_0 word_gt_0 unat_0)

lemma size_less: "inv a \<Longrightarrow> (off < size_of (Some a)) = (unat off < length (hashes a))"
  by (simp add: word_less_nat_alt size_law)

lemma fetch_elem_length:
  "inv a \<Longrightarrow> fetch (Some a) off = Inr (Some h) \<Longrightarrow> length h = 32"
  by (auto simp: fetch_law split: if_splits intro: elem_length)

text \<open>Reading after writing: the written offset gives the written hash, the others are untouched.\<close>

lemma fetch_after_add:
  assumes "inv a" and "length (hashes a) < capacity" and "length h = 32"
    and "unat off \<le> length (hashes a)"
  shows "\<exists>a'. add True (Some a) (Some h) = Inr (MT_SUCCESS, Some a')
    \<and> fetch (Some a') off = Inr (Some (if unat off = length (hashes a) then h else hashes a ! unat off))"
proof -
  obtain a' where "add True (Some a) (Some h) = Inr (MT_SUCCESS, Some a')" "inv a'"
    "hashes a' = hashes a @ [h]"
    using add_law [OF assms(1-3)] by blast
  with assms(4) show ?thesis by (auto simp: fetch_law nth_append)
qed

lemma fetch_after_update:
  assumes "inv a" and "unat off < length (hashes a)" and "length h = 32" and "unat p < length (hashes a)"
  shows "\<exists>a'. update (Some a) (Some h) off = Inr (MT_SUCCESS, Some a')
    \<and> fetch (Some a') p = Inr (Some (if p = off then h else hashes a ! unat p))"
proof -
  obtain a' where "update (Some a) (Some h) off = Inr (MT_SUCCESS, Some a')" "inv a'"
    "hashes a' = (hashes a)[unat off := h]"
    using update_law [OF assms(1-3)] by blast
  with assms(4) show ?thesis by (auto simp: fetch_law word_unat_eq_iff)
qed

end

interpretation al: hash_array al_inv al_hashes "2 ^ 26" mt_al_get_size mt_al_fetch mt_al_add
  mt_al_update mt_al_update_if_exists mt_al_add_or_update
proof unfold_locales
  fix a :: mt_al_t and h :: "byte list" and off :: u32
  assume inv: "al_inv a"
  show "unat (mt_al_get_size (Some a)) = length (al_hashes a)" by (simp add: mt_al_get_size_def)
  show "h \<in> set (al_hashes a) \<Longrightarrow> length h = 32" by (rule al_hashes_slot_length [OF inv])
  show "mt_al_fetch (Some a) off =
      Inr (if unat off < length (al_hashes a) then Some (al_hashes a ! unat off) else None)"
    by (simp add: mt_al_fetch_eq [OF inv])
qed (use mt_al_add_ok mt_al_update_ok mt_al_update_if_exists_ok mt_al_add_or_update_ok in auto)

section \<open>Properties\<close>

text \<open>
  C36: \<open>round_next_power_two\<close> returns the least power of two that is not below its argument, for every
  argument from 1 to \<open>2 ^ 31\<close>.
\<close>

theorem round_next_power_two_least:
  assumes "0 < unat n" and "unat n \<le> 2 ^ 31"
  shows "(\<exists>k. unat (round_next_power_two n) = 2 ^ k) \<and> n \<le> round_next_power_two n
    \<and> (\<forall>j. unat n \<le> 2 ^ j \<longrightarrow> unat (round_next_power_two n) \<le> 2 ^ j)"
proof -
  obtain k where k: "unat (round_next_power_two n) = 2 ^ k" "unat n \<le> 2 ^ k" "2 ^ k < 2 * unat n"
    using round_next_power_two_spec [OF assms] by blast
  have "(2::nat) ^ k \<le> 2 ^ j" if "unat n \<le> 2 ^ j" for j
  proof -
    have "(2::nat) ^ k < 2 ^ Suc j" using k(3) that by simp
    then show ?thesis
      using power_less_imp_less_exp [of "2::nat" k "Suc j"] by (simp add: power_increasing)
  qed
  with k show ?thesis by (auto simp: word_le_nat_alt)
qed

theorem round_next_power_two_least_witness:
  "0 < unat (11::u32) \<and> unat (11::u32) \<le> 2 ^ 31 \<and> round_next_power_two 11 = 16
    \<and> unat (round_next_power_two 11) \<le> 2 ^ 4"
  using round_next_power_two_least [of 11] by (simp add: round_next_power_two_def)

text \<open>
  C16: below \<open>2 ^ 26\<close> elements, \<open>mt_al_add\<close> either appends the hash and keeps the invariant, or, only
  when the allocator refuses a request, reports that memory is exhausted and leaves the stored hashes
  as they were.
\<close>

theorem mt_al_add_refines:
  assumes "al_inv a" and "unat (elems a) < 2 ^ 26" and "length h = 32"
  shows "\<exists>e a'. mt_al_add ok (Some a) (Some h) = Inr (e, Some a') \<and> al_inv a'
    \<and> (e = MT_SUCCESS \<and> al_hashes a' = al_hashes a @ [h]
       \<or> e = MT_ERR_OUT_OF_MEMORY \<and> \<not> ok \<and> al_hashes a' = al_hashes a)"
  using mt_al_add_ok [OF assms] mt_al_add_refused [OF assms] by (cases ok) auto

theorem mt_al_add_refines_witness:
  "\<exists>e a'. mt_al_add True (Some \<lparr>elems = 0, store = Null\<rparr>) (Some (replicate 32 7)) = Inr (e, Some a')
     \<and> e = MT_SUCCESS \<and> al_hashes a' = [replicate 32 7]"
  using mt_al_add_refines [of "\<lparr>elems = 0, store = Null\<rparr>" "replicate 32 7" True]
  by (auto simp: al_inv_empty al_hashes_empty)

text \<open>
  at \<open>2 ^ 26\<close> elements, far below the declared maximum of \<open>2 ^ 29\<close>, \<open>mt_al_add\<close> computes a new
  size of zero bytes in 32-bit arithmetic. It reports exhausted memory whatever the allocator would
  grant, and the stored hashes are gone: the next read is a use after free, and deleting the list
  frees the block twice.
\<close>

theorem mt_al_add_full_loses_store:
  assumes "al_inv a" and "unat (elems a) = 2 ^ 26"
  shows "\<exists>a'. mt_al_add ok (Some a) (Some h) = Inr (MT_ERR_OUT_OF_MEMORY, Some a')
    \<and> mt_al_fetch (Some a') 0 = Inl UseAfterFree \<and> mt_al_delete (Some a') = Inl DoubleFree"
proof -
  have "0 < elems a" using assms(2) by (metis unat_0 word_neq_0_conv zero_neq_numeral power_not_zero)
  then show ?thesis
    using mt_al_add_full [OF assms, of ok h] elems_below_max [of a] assms(2)
    by (auto simp: mt_al_fetch_def mt_al_get_def mt_al_load_def mt_al_delete_def)
qed

definition al_full :: mt_al_t where
  "al_full = \<lparr>elems = 2 ^ 26, store = Block (replicate (32 * 2 ^ 26) (Some 0))\<rparr>"

lemma unat_elems_al_full: "unat (elems al_full) = 2 ^ 26" and elems_al_full: "elems al_full \<noteq> 0"
  by (simp_all add: al_full_def)

lemma al_inv_al_full: "al_inv al_full"
proof (rule al_invI [where k = 26])
  show "bread (Block (replicate (32 * 2 ^ 26) (Some 0))) (32 * i) 32 = Inr (al_slot al_full i)"
    if "i < unat (elems al_full)" for i
    using that by (auto simp: al_slot_def Let_def al_full_def)
qed (auto simp: al_full_def)

theorem mt_al_add_full_loses_store_witness:
  "unat (elems al_full) = 2 ^ 26 \<and> al_inv al_full
     \<and> (\<exists>a'. mt_al_add True (Some al_full) (Some (replicate 32 7)) = Inr (MT_ERR_OUT_OF_MEMORY, Some a')
          \<and> mt_al_delete (Some a') = Inl DoubleFree)"
  using mt_al_add_full_loses_store [OF al_inv_al_full unat_elems_al_full] al_inv_al_full
    unat_elems_al_full by blast

text \<open>
  C40: truncating a non-empty list to zero elements succeeds, and deleting the list afterwards frees
  its block a second time.
\<close>

theorem mt_al_truncate_zero_then_delete:
  assumes "al_inv a" and "elems a \<noteq> 0"
  shows "\<exists>a'. mt_al_truncate ok (Some a) 0 = Inr (MT_SUCCESS, Some a') \<and> al_hashes a' = []
    \<and> mt_al_delete (Some a') = Inl DoubleFree"
  using mt_al_truncate_zero [OF assms] by (simp add: mt_al_delete_def al_hashes_empty)

theorem mt_al_truncate_zero_then_delete_witness:
  "al_inv al_full \<and> elems al_full \<noteq> 0
     \<and> (\<exists>a'. mt_al_truncate True (Some al_full) 0 = Inr (MT_SUCCESS, Some a')
          \<and> mt_al_delete (Some a') = Inl DoubleFree)"
  using mt_al_truncate_zero_then_delete [OF al_inv_al_full elems_al_full] al_inv_al_full
    elems_al_full by blast

end
