(* ===== verification/Mt_Crypto.thy ===== *)
theory Mt_Crypto
  imports Sha256 Mt_Array_List
begin

text \<open>
  The node hash of the Merkle tree, \<^verbatim>\<open>src/src/merkle/mt_crypto.c\<close>: SHA-256 of the two children,
  computed with the streaming interface. The context lives on the stack and is not initialised; it is
  an argument of the first definition, and the result is shown not to depend on it.
\<close>

section \<open>The code\<close>

definition mt_hash_with :: "SHA256Context \<Rightarrow> byte list option \<Rightarrow> byte list option \<Rightarrow> bool \<Rightarrow>
    (mt_error \<times> byte list option) res" where
  "mt_hash_with ctx left right message_digest =
     (if left = None \<or> right = None \<or> \<not> message_digest then Inr (MT_ERR_ILLEGAL_PARAM, None)
      else case SHA256Reset (Some ctx) of (r0, c0) \<Rightarrow>
        if r0 \<noteq> shaSuccess then Inr (MT_ERR_ILLEGAL_STATE, None)
        else bindE (SHA256Input c0 left HASH_LENGTH) (\<lambda>(r1, c1).
        if r1 \<noteq> shaSuccess then Inr (MT_ERR_ILLEGAL_STATE, None)
        else bindE (SHA256Input c1 right HASH_LENGTH) (\<lambda>(r2, c2).
        if r2 \<noteq> shaSuccess then Inr (MT_ERR_ILLEGAL_STATE, None)
        else case SHA256Result c2 message_digest of (r3, c3, d) \<Rightarrow>
          if r3 \<noteq> shaSuccess then Inr (MT_ERR_ILLEGAL_STATE, None)
          else Inr (MT_SUCCESS, d))))"

definition mt_hash :: "byte list option \<Rightarrow> byte list option \<Rightarrow> bool \<Rightarrow> (mt_error \<times> byte list option) res" where
  "mt_hash = mt_hash_with sha_blank"

section \<open>What it computes\<close>

text \<open>The hash of a node from the hashes of its children.\<close>

definition node_hash :: "byte list \<Rightarrow> byte list \<Rightarrow> byte list" where
  "node_hash l r = sha256 (l @ r)"

lemma node_hash_length [simp, len_simps]: "length (node_hash l r) = 32"
  by (simp add: node_hash_def)

lemma node_hash_collision:
  assumes "node_hash a b = node_hash a' b'" and "(a, b) \<noteq> (a', b')"
    and "length a = 32" and "length a' = 32"
  shows "a @ b \<noteq> a' @ b' \<and> sha256 (a @ b) = sha256 (a' @ b')"
  using assms by (simp add: node_hash_def)

lemma mt_hash_with_eq:
  assumes "length (Message_Block ctx) = 64" and "length l = 32" and "length r = 32"
  shows "mt_hash_with ctx (Some l) (Some r) True = Inr (MT_SUCCESS, Some (node_hash l r))"
proof -
  obtain c0 where c0: "SHA256Reset (Some ctx) = (shaSuccess, Some c0)" "sha_absorbed SHA256_H0 [] c0"
    using sha256_stream.reset_law [of ctx] assms(1) by (auto simp: sha_usable_def)
  obtain c1 where c1: "SHA256Input (Some c0) (Some l) HASH_LENGTH = Inr (shaSuccess, Some c1)"
    "sha_absorbed SHA256_H0 l c1"
    using sha256_stream.input_law [OF c0(2), of HASH_LENGTH l] assms(2) by auto
  obtain c2 where c2: "SHA256Input (Some c1) (Some r) HASH_LENGTH = Inr (shaSuccess, Some c2)"
    "sha_absorbed SHA256_H0 (l @ r) c2"
    using sha256_stream.input_law [OF c1(2), of HASH_LENGTH r] assms(2,3) by auto
  obtain c3 where c3: "SHA256Result (Some c2) True = (shaSuccess, Some c3, Some (node_hash l r))"
    using sha256_stream.result_law [OF c2(2)] by (auto simp: node_hash_def)
  show ?thesis using c0(1) c1(1) c2(1) c3 by (simp add: mt_hash_with_def)
qed

lemma mt_hash_eq [simp]:
  "length l = 32 \<Longrightarrow> length r = 32 \<Longrightarrow> mt_hash (Some l) (Some r) True = Inr (MT_SUCCESS, Some (node_hash l r))"
  unfolding mt_hash_def by (rule mt_hash_with_eq) (simp_all add: sha_blank_def)

lemma mt_hash_NULL: "mt_hash None r d = Inr (MT_ERR_ILLEGAL_PARAM, None)"
  by (simp add: mt_hash_def mt_hash_with_def)

section \<open>Properties\<close>

text \<open>
  C24: for two 32-byte children \<open>mt_hash\<close> succeeds and returns SHA-256 of their concatenation,
  whatever the uninitialised context on the stack holds.
\<close>

theorem mt_hash_is_sha256:
  assumes "length (Message_Block ctx) = 64" and "length l = 32" and "length r = 32"
  shows "mt_hash_with ctx (Some l) (Some r) True = Inr (MT_SUCCESS, Some (sha256 (l @ r)))"
  using mt_hash_with_eq [OF assms] by (simp add: node_hash_def)

theorem mt_hash_is_sha256_witness:
  "mt_hash_with sha_blank (Some (replicate 32 1)) (Some (replicate 32 2)) True
     = Inr (MT_SUCCESS, Some (sha256 (replicate 32 1 @ replicate 32 2)))"
  using mt_hash_is_sha256 [of sha_blank "replicate 32 1" "replicate 32 2"]
  by (simp add: sha_blank_def)

end
