(* ===== verification/Merkle_Spec.thy ===== *)
theory Merkle_Spec
  imports Mt_Crypto
begin

text \<open>
  The hash tree that \<^verbatim>\<open>src/src/merkle/mt_impl.c\<close> maintains, as a function of the list of its leaves:
  neighbours of a level are hashed in pairs, and a last node without a neighbour is carried to the
  next level unchanged. \<open>vlevel\<close> is a level with all its nodes; \<open>slevel\<close> is the part of it the code
  stores, which leaves a carried node out. The lemmas say what appending or replacing a leaf does to
  every level, and that two different lists of one length with the same root give two different
  messages with the same SHA-256 hash, which \<open>tree_collision\<close> computes from the two lists.
\<close>

section \<open>The reference tree\<close>

fun pair_up :: "('h \<Rightarrow> 'h \<Rightarrow> 'h) \<Rightarrow> 'h list \<Rightarrow> 'h list" where
  "pair_up H [] = []"
| "pair_up H [x] = [x]"
| "pair_up H (x # y # xs) = H x y # pair_up H xs"

lemma pair_up_length [simp, len_simps]: "length (pair_up H xs) = (length xs + 1) div 2"
  by (induction H xs rule: pair_up.induct) auto

function merkle_root :: "('h \<Rightarrow> 'h \<Rightarrow> 'h) \<Rightarrow> 'h list \<Rightarrow> 'h option" where
  "merkle_root H xs = (case xs of [] \<Rightarrow> None | [x] \<Rightarrow> Some x | x # y # ys \<Rightarrow> merkle_root H (pair_up H xs))"
  by pat_completeness auto
termination
  by (relation "measure (\<lambda>(H, xs). length xs)") auto

declare merkle_root.simps [simp del]

text \<open>The levels of the tree, every node of a level present, and the part of a level that is stored.\<close>

fun vlevel :: "('h \<Rightarrow> 'h \<Rightarrow> 'h) \<Rightarrow> 'h list \<Rightarrow> nat \<Rightarrow> 'h list" where
  "vlevel H xs 0 = xs"
| "vlevel H xs (Suc l) = pair_up H (vlevel H xs l)"

fun slevel :: "('h \<Rightarrow> 'h \<Rightarrow> 'h) \<Rightarrow> 'h list \<Rightarrow> nat \<Rightarrow> 'h list" where
  "slevel H xs 0 = xs"
| "slevel H xs (Suc l) = take (length (vlevel H xs l) div 2) (vlevel H xs (Suc l))"

text \<open>The hash at level \<open>l\<close> on the path from leaf \<open>i\<close>, when the leaf holds \<open>x\<close>.\<close>

fun path_hash :: "('h \<Rightarrow> 'h \<Rightarrow> 'h) \<Rightarrow> 'h list \<Rightarrow> nat \<Rightarrow> 'h \<Rightarrow> nat \<Rightarrow> 'h" where
  "path_hash H xs i x 0 = x"
| "path_hash H xs i x (Suc l) = (let q = i div 2 ^ l; v = vlevel H xs l; d = path_hash H xs i x l in
     if odd q then H (v ! (q - 1)) d
     else if q + 1 < length v then H d (v ! (q + 1)) else d)"

text \<open>
  Where two different lists of leaves with the same root differ: going up while the lists of hashes
  differ, the first pair of neighbours that differs below the first level that agrees.
\<close>

fun pair_clash :: "'h list \<Rightarrow> 'h list \<Rightarrow> (('h \<times> 'h) \<times> ('h \<times> 'h)) option" where
  "pair_clash (a # b # xs) (a' # b' # ys) =
     (if (a, b) \<noteq> (a', b') then Some ((a, b), (a', b')) else pair_clash xs ys)"
| "pair_clash _ _ = None"

function root_clash :: "('h \<Rightarrow> 'h \<Rightarrow> 'h) \<Rightarrow> 'h list \<Rightarrow> 'h list \<Rightarrow> (('h \<times> 'h) \<times> ('h \<times> 'h)) option" where
  "root_clash H xs ys =
     (if length xs < 2 then None
      else if pair_up H xs = pair_up H ys then pair_clash xs ys
      else root_clash H (pair_up H xs) (pair_up H ys))"
  by pat_completeness auto
termination
  by (relation "measure (\<lambda>(H, xs, ys). length xs)") auto

declare root_clash.simps [simp del]

section \<open>Levels\<close>

lemma pair_up_nth:
  "k < length (pair_up H xs) \<Longrightarrow>
     pair_up H xs ! k = (if 2 * k + 1 < length xs then H (xs ! (2 * k)) (xs ! (2 * k + 1)) else xs ! (2 * k))"
proof (induction H xs arbitrary: k rule: pair_up.induct)
  case (3 H x y xs)
  then show ?case by (cases k) auto
qed auto

lemma vlevel_length: "length (vlevel H xs l) = (length xs + 2 ^ l - 1) div 2 ^ l"
proof (induction l)
  case (Suc l)
  have "(length xs + 2 ^ l - 1) div 2 ^ l + 1 = (length xs + 2 ^ l - 1 + 2 ^ l) div 2 ^ l"
    by (rule div_add_self2 [symmetric]) simp
  also have "length xs + 2 ^ l - 1 + 2 ^ l = length xs + 2 ^ Suc l - 1"
    using one_le_power [of "2::nat" l] by simp
  also have "\<dots> div 2 ^ l div 2 = (length xs + 2 ^ Suc l - 1) div 2 ^ Suc l"
    by (simp add: div_mult2_eq [symmetric] mult.commute)
  finally show ?case using Suc by simp
qed simp

lemma vlevel_length_eq: "length xs = length ys \<Longrightarrow> length (vlevel H xs l) = length (vlevel H ys l)"
  by (simp add: vlevel_length)

lemma vlevel_length_bounds:
  "length xs div 2 ^ l \<le> length (vlevel H xs l)" "length (vlevel H xs l) \<le> length xs div 2 ^ l + 1"
proof -
  show "length xs div 2 ^ l \<le> length (vlevel H xs l)"
    unfolding vlevel_length using one_le_power [of "2::nat" l] by (intro div_le_mono) linarith
  have "length (vlevel H xs l) \<le> (length xs + 2 ^ l) div 2 ^ l"
    unfolding vlevel_length by (rule div_le_mono) simp
  then show "length (vlevel H xs l) \<le> length xs div 2 ^ l + 1" by (simp add: div_add_self2)
qed

lemma index_in_vlevel: "i < length xs \<Longrightarrow> i div 2 ^ l < length (vlevel H xs l)"
proof -
  assume "i < length xs"
  then have "i + 2 ^ l \<le> length xs + 2 ^ l - 1" by simp
  then have "(i + 2 ^ l) div 2 ^ l \<le> length (vlevel H xs l)"
    unfolding vlevel_length by (rule div_le_mono)
  then show ?thesis by (simp add: div_add_self2)
qed

lemma div_Suc_level: "i div 2 ^ Suc l = i div 2 ^ l div 2" for i :: nat
  by (simp add: div_mult2_eq [symmetric] mult.commute)

lemma pair_up_take: "even q \<Longrightarrow> q \<le> length xs \<Longrightarrow> pair_up H (take q xs) = take (q div 2) (pair_up H xs)"
proof (induction H xs arbitrary: q rule: pair_up.induct)
  case (2 H x)
  then have "q = 0" by (cases q) auto
  then show ?case by simp
next
  case (3 H x y xs)
  show ?case
  proof (cases q)
    case (Suc p)
    with 3(2) obtain r where "q = Suc (Suc r)" "even r" by (cases p) auto
    with 3 show ?thesis by simp
  qed simp
qed simp

lemma pair_up_snoc:
  "even (length xs) \<Longrightarrow> pair_up H (xs @ [d]) = pair_up H xs @ [d]"
  "even (length xs) \<Longrightarrow> pair_up H (xs @ [c, d]) = pair_up H xs @ [H c d]"
  by (induction H xs rule: pair_up.induct) auto

text \<open>Appending a leaf changes the last node of each level only.\<close>

lemma vlevel_append:
  "vlevel H (xs @ [x]) l = take (length xs div 2 ^ l) (vlevel H xs l) @ [path_hash H (xs @ [x]) (length xs) x l]"
proof (induction l)
  case (Suc l)
  let ?q = "length xs div 2 ^ l" and ?v = "vlevel H xs l" and ?d = "path_hash H (xs @ [x]) (length xs) x l"
  have le: "?q \<le> length ?v" by (rule vlevel_length_bounds)
  have q2: "length xs div 2 ^ Suc l = ?q div 2" by (rule div_Suc_level)
  show ?case
  proof (cases "even ?q")
    case True
    have "vlevel H (xs @ [x]) (Suc l) = pair_up H (take ?q ?v) @ [?d]"
      using True le by (simp add: Suc pair_up_snoc(1))
    moreover have "path_hash H (xs @ [x]) (length xs) x (Suc l) = ?d"
      using True le by (simp add: Let_def Suc)
    ultimately show ?thesis using True le q2 by (simp add: pair_up_take)
  next
    case False
    then obtain p where p: "?q = Suc p" "even p" by (cases ?q) auto
    have tk: "take (Suc p) ?v = take p ?v @ [?v ! p]" using le p(1) by (simp add: take_Suc_conv_app_nth)
    have "vlevel H (xs @ [x]) (Suc l) = pair_up H (take p ?v) @ [H (?v ! p) ?d]"
      using pair_up_snoc(2) [of "take p ?v" H "?v ! p" ?d] p(2) le
      unfolding vlevel.simps Suc unfolding p(1) tk by simp
    moreover have "path_hash H (xs @ [x]) (length xs) x (Suc l) = H (?v ! p) ?d"
      using False p le by (simp add: Let_def Suc nth_append)
    moreover have "?q div 2 = p div 2" using p by simp
    ultimately show ?thesis using p le q2 by (simp add: pair_up_take)
  qed
qed simp

text \<open>Changing a leaf changes the nodes on its path only.\<close>

lemma pair_up_update:
  assumes "q < length v"
  shows "pair_up H (v[q := d]) = (pair_up H v)[q div 2 :=
    (if odd q then H (v ! (q - 1)) d else if q + 1 < length v then H d (v ! (q + 1)) else d)]"
    (is "?l = ?r")
proof (rule nth_equalityI)
  show "length ?l = length ?r" by simp
  fix k assume "k < length ?l"
  then have k: "k < length (pair_up H v)" "k < length (pair_up H (v[q := d]))" by simp_all
  have k2: "2 * k < length v" using k(1) by simp
  show "?l ! k = ?r ! k"
  proof (cases "k = q div 2")
    case True
    show ?thesis
    proof (cases "even q")
      case ev: True
      then have "q = 2 * k" using True by simp
      then show ?thesis using k assms by (simp add: pair_up_nth)
    next
      case od: False
      then have "q = 2 * k + 1" using True by simp
      then show ?thesis using k assms by (simp add: pair_up_nth)
    qed
  next
    case False
    then have "2 * k \<noteq> q" "2 * k + 1 \<noteq> q" by linarith+
    then have "?l ! k = pair_up H v ! k"
      using k k2 by (simp add: pair_up_nth [OF k(2)] pair_up_nth [OF k(1)])
    then show ?thesis using False by simp
  qed
qed

lemma vlevel_update:
  assumes "i < length xs"
  shows "vlevel H (xs[i := x]) l = (vlevel H xs l)[i div 2 ^ l := path_hash H xs i x l]"
proof (induction l)
  case (Suc l)
  show ?case
    using pair_up_update [OF index_in_vlevel [OF assms, where H = H and l = l]]
    by (simp add: Suc Let_def div_Suc_level del: power_Suc)
qed simp

lemma path_hash_self:
  assumes "i < length xs"
  shows "path_hash H xs i (xs ! i) l = vlevel H xs l ! (i div 2 ^ l)"
  using vlevel_update [OF assms, where x = "xs ! i" and H = H and l = l]
    index_in_vlevel [OF assms, where H = H and l = l]
  by (metis list_update_id nth_list_update_eq)

section \<open>Stored levels\<close>

lemma slevel_length: "length (slevel H xs l) = (case l of 0 \<Rightarrow> length xs | Suc k \<Rightarrow> length (vlevel H xs k) div 2)"
  by (cases l) auto

lemma slevel_nth: "k < length (slevel H xs l) \<Longrightarrow> slevel H xs l ! k = vlevel H xs l ! k"
  by (cases l) auto

lemma slevel_le: "length (slevel H xs l) \<le> length (vlevel H xs l)"
  by (cases l) auto

lemma full_nodes_stored: "length xs div 2 ^ l \<le> length (slevel H xs l)"
proof (cases l)
  case (Suc k)
  have "length xs div 2 ^ k \<le> length (vlevel H xs k)" by (rule vlevel_length_bounds)
  then have "length xs div 2 ^ k div 2 \<le> length (vlevel H xs k) div 2" by (rule div_le_mono)
  then show ?thesis unfolding Suc div_Suc_level by simp
qed simp

lemma slevel_length_bound: "length (slevel H xs l) \<le> length xs"
proof (cases l)
  case (Suc k)
  have "length (vlevel H xs k) \<le> length xs div 2 ^ k + 1" by (rule vlevel_length_bounds)
  moreover have "length xs div 2 ^ k \<le> length xs" by (rule div_le_dividend)
  ultimately have "length (vlevel H xs k) div 2 \<le> length xs" by linarith
  then show ?thesis by (simp add: Suc)
qed simp

text \<open>A node beyond the stored part of its level is its left child.\<close>

lemma unstored_node:
  assumes "length (slevel H xs (Suc l)) \<le> k"
  shows "(k < length (vlevel H xs (Suc l))) = (2 * k < length (vlevel H xs l))"
    and "k < length (vlevel H xs (Suc l)) \<Longrightarrow> vlevel H xs (Suc l) ! k = vlevel H xs l ! (2 * k)"
proof -
  have ge: "length (vlevel H xs l) div 2 \<le> k" using assms by simp
  show "(k < length (vlevel H xs (Suc l))) = (2 * k < length (vlevel H xs l))" by auto
  assume k: "k < length (vlevel H xs (Suc l))"
  have "\<not> 2 * k + 1 < length (vlevel H xs l)" using ge by linarith
  then show "vlevel H xs (Suc l) ! k = vlevel H xs l ! (2 * k)"
    using k pair_up_nth [of k H "vlevel H xs l"] by simp
qed

text \<open>What appending a leaf does to the stored part of the next level.\<close>

lemma slevel_append_odd:
  assumes "odd (length xs div 2 ^ l)"
  shows "slevel H (xs @ [x]) (Suc l) = take (length xs div 2 ^ Suc l) (slevel H xs (Suc l))
      @ [path_hash H (xs @ [x]) (length xs) x (Suc l)]"
    and "length xs div 2 ^ Suc l \<le> length (slevel H xs (Suc l))"
    and "length (slevel H xs (Suc l)) \<le> length xs div 2 ^ Suc l + 1"
proof -
  let ?q = "length xs div 2 ^ l"
  have q2: "length xs div 2 ^ Suc l = ?q div 2" by (rule div_Suc_level)
  show le: "length xs div 2 ^ Suc l \<le> length (slevel H xs (Suc l))" by (rule full_nodes_stored)
  have "length (vlevel H xs l) \<le> ?q + 1" by (rule vlevel_length_bounds)
  then show "length (slevel H xs (Suc l)) \<le> length xs div 2 ^ Suc l + 1"
    unfolding q2 by auto
  have lv: "length (vlevel H (xs @ [x]) l) = ?q + 1"
    using vlevel_length_bounds(1) [where xs = xs and l = l and H = H] by (simp add: vlevel_append)
  have "length (vlevel H (xs @ [x]) (Suc l)) = (?q + 1) div 2" using lv by (simp add: assms)
  moreover have "(?q + 1) div 2 = ?q div 2 + 1" using assms by (simp add: odd_iff_mod_2_eq_one)
  ultimately have "slevel H (xs @ [x]) (Suc l) = vlevel H (xs @ [x]) (Suc l)" using lv by simp
  also have "\<dots> = take (?q div 2) (vlevel H xs (Suc l)) @ [path_hash H (xs @ [x]) (length xs) x (Suc l)]"
    unfolding vlevel_append q2 ..
  also have "take (?q div 2) (vlevel H xs (Suc l)) = take (?q div 2) (slevel H xs (Suc l))"
    using le unfolding q2 by (simp add: min_absorb1)
  finally show "slevel H (xs @ [x]) (Suc l) = take (length xs div 2 ^ Suc l) (slevel H xs (Suc l))
      @ [path_hash H (xs @ [x]) (length xs) x (Suc l)]" unfolding q2 .
qed

lemma slevel_append_even:
  assumes "even (length xs div 2 ^ l)"
  shows "slevel H (xs @ [x]) (Suc l) = slevel H xs (Suc l)"
proof -
  let ?q = "length xs div 2 ^ l"
  have q2: "length xs div 2 ^ Suc l = ?q div 2" by (rule div_Suc_level)
  have b: "?q \<le> length (vlevel H xs l)" "length (vlevel H xs l) \<le> ?q + 1"
    by (rule vlevel_length_bounds)+
  then have old: "length (vlevel H xs l) div 2 = ?q div 2" using assms by auto
  have new: "length (vlevel H (xs @ [x]) l) div 2 = ?q div 2" using b assms by (simp add: vlevel_append)
  have "?q div 2 \<le> length (vlevel H xs (Suc l))"
    using vlevel_length_bounds(1) [where xs = xs and l = "Suc l" and H = H] unfolding q2 .
  then show ?thesis
    using vlevel_append [of H xs x "Suc l"] unfolding slevel.simps old new q2 by simp
qed

lemma slevel_update:
  assumes "i < length xs"
  shows "slevel H (xs[i := x]) l = (slevel H xs l)[i div 2 ^ l := path_hash H xs i x l]"
proof (cases l)
  case (Suc k)
  have "length (vlevel H (xs[i := x]) k) = length (vlevel H xs k)" by (rule vlevel_length_eq) simp
  then show ?thesis
    using vlevel_update [OF assms, of H x l] by (simp add: Suc take_update_swap)
qed simp

section \<open>The root\<close>

lemma merkle_root_Nil [simp]: "merkle_root H [] = None"
  by (subst merkle_root.simps) simp

lemma merkle_root_single [simp]: "merkle_root H [x] = Some x"
  by (subst merkle_root.simps) simp

lemma merkle_root_pair_up: "merkle_root H (pair_up H xs) = merkle_root H xs"
proof (cases xs)
  case (Cons x ys)
  show ?thesis
  proof (cases ys)
    case (Cons y zs)
    then show ?thesis using \<open>xs = x # ys\<close> by (subst (2) merkle_root.simps) simp
  qed (simp add: \<open>xs = x # ys\<close>)
qed simp

lemma merkle_root_vlevel: "merkle_root H (vlevel H xs l) = merkle_root H xs"
  by (induction l) (simp_all add: merkle_root_pair_up)

lemma merkle_root_top:
  assumes "length (vlevel H xs l) = 1"
  shows "merkle_root H xs = Some (vlevel H xs l ! 0)"
proof -
  obtain r where "vlevel H xs l = [r]" using assms by (auto simp: length_Suc_conv)
  then show ?thesis using merkle_root_vlevel [of H xs l] by simp
qed


lemma vlevel_div_0: "length xs div 2 ^ l = 0 \<Longrightarrow> xs \<noteq> [] \<Longrightarrow> length (vlevel H xs l) = 1"
  using vlevel_length_bounds(2) [where H = H and xs = xs and l = l] index_in_vlevel [of 0 xs l H]
  by (simp add: le_antisym Suc_leI)

section \<open>Hash combiners\<close>

text \<open>The interface of the node hash: it is closed on the values that may stand in the tree.\<close>

locale node_combiner =
  fixes H :: "'h \<Rightarrow> 'h \<Rightarrow> 'h" and ok :: "'h \<Rightarrow> bool"
  assumes closed: "ok a \<Longrightarrow> ok b \<Longrightarrow> ok (H a b)"
begin

lemma pair_up_ok: "list_all ok xs \<Longrightarrow> list_all ok (pair_up H xs)"
  by (induction xs rule: induct_list012) (auto simp: closed)

lemma vlevel_ok: "list_all ok xs \<Longrightarrow> list_all ok (vlevel H xs l)"
  by (induction l) (auto simp: pair_up_ok)

lemma vlevel_nth_ok: "list_all ok xs \<Longrightarrow> k < length (vlevel H xs l) \<Longrightarrow> ok (vlevel H xs l ! k)"
  using vlevel_ok by (auto simp: list_all_length)

lemma pair_clash_ok:
  "list_all ok xs \<Longrightarrow> list_all ok ys \<Longrightarrow> length xs = length ys \<Longrightarrow> pair_up H xs = pair_up H ys \<Longrightarrow>
     xs \<noteq> ys \<Longrightarrow> \<exists>a b a' b'. pair_clash xs ys = Some ((a, b), (a', b')) \<and> (a, b) \<noteq> (a', b')
       \<and> H a b = H a' b' \<and> ok a \<and> ok b \<and> ok a' \<and> ok b'"
proof (induction xs arbitrary: ys rule: induct_list012)
  case (2 x)
  then obtain y where "ys = [y]" by (cases ys) auto
  with 2 show ?case by simp
next
  case (3 a b xs)
  obtain a' b' zs where ys: "ys = a' # b' # zs"
    using 3(5) by (cases ys; cases "tl ys") auto
  show ?case
  proof (cases "(a, b) = (a', b')")
    case True
    with 3(7) ys have "xs \<noteq> zs" by auto
    moreover have "list_all ok xs" "list_all ok zs" "length xs = length zs" "pair_up H xs = pair_up H zs"
      using 3(3-6) ys by simp_all
    ultimately have "\<exists>a b a' b'. pair_clash xs zs = Some ((a, b), (a', b')) \<and> (a, b) \<noteq> (a', b')
        \<and> H a b = H a' b' \<and> ok a \<and> ok b \<and> ok a' \<and> ok b'"
      by (intro 3(1))
    then show ?thesis using True ys by simp
  next
    case False
    then show ?thesis using 3(3-6) ys by simp
  qed
qed simp

text \<open>
  Two different lists of leaves of one length with the same root give a clash of the node hash, and
  the clash is computed from the two lists.
\<close>

lemma root_binding:
  "list_all ok xs \<Longrightarrow> list_all ok ys \<Longrightarrow> length xs = length ys \<Longrightarrow>
     merkle_root H xs = merkle_root H ys \<Longrightarrow> xs \<noteq> ys \<Longrightarrow>
     \<exists>a b a' b'. root_clash H xs ys = Some ((a, b), (a', b')) \<and> (a, b) \<noteq> (a', b')
       \<and> H a b = H a' b' \<and> ok a \<and> ok b \<and> ok a' \<and> ok b'"
proof (induction "length xs" arbitrary: xs ys rule: less_induct)
  case less
  show ?case
  proof (cases "length xs < 2")
    case True
    then consider "xs = []" | x where "xs = [x]" by (cases xs) auto
    then show ?thesis
    proof cases
      case 2
      then obtain y where "ys = [y]" using less(4) by (cases ys) auto
      with 2 less(5,6) show ?thesis by simp
    qed (use less(4,6) in simp)
  next
    case long: False
    show ?thesis
    proof (cases "pair_up H xs = pair_up H ys")
      case True
      then have "root_clash H xs ys = pair_clash xs ys" using long less(4) by (subst root_clash.simps) simp
      with pair_clash_ok [OF less(2-4) True less(6)] show ?thesis by simp
    next
      case False
      then have "root_clash H xs ys = root_clash H (pair_up H xs) (pair_up H ys)"
        using long less(4) by (subst root_clash.simps) simp
      moreover have "length (pair_up H xs) < length xs" using long by simp
      moreover have "merkle_root H (pair_up H xs) = merkle_root H (pair_up H ys)"
        using less(5) by (simp add: merkle_root_pair_up)
      ultimately show ?thesis
        using less(1) [of "pair_up H xs" "pair_up H ys"] pair_up_ok [OF less(2)] pair_up_ok [OF less(3)]
          less(4) False by simp
    qed
  qed
qed

end

abbreviation hash32 :: "byte list \<Rightarrow> bool" where
  "hash32 h \<equiv> length h = 32"

interpretation sha_tree: node_combiner node_hash hash32
  by unfold_locales simp

text \<open>The two messages of 64 bytes that a clash stands for, and when they are a collision of SHA-256.\<close>

definition sha256_collision :: "byte list \<times> byte list \<Rightarrow> bool" where
  "sha256_collision p = (fst p \<noteq> snd p \<and> sha256 (fst p) = sha256 (snd p))"

definition tree_collision :: "byte list list \<Rightarrow> byte list list \<Rightarrow> byte list \<times> byte list" where
  "tree_collision xs ys = (case root_clash node_hash xs ys of
     Some ((a, b), (a', b')) \<Rightarrow> (a @ b, a' @ b') | None \<Rightarrow> ([], []))"

lemma tree_binding:
  assumes "list_all hash32 xs" and "list_all hash32 ys" and "length xs = length ys"
    and "merkle_root node_hash xs = merkle_root node_hash ys" and "xs \<noteq> ys"
  shows "sha256_collision (tree_collision xs ys)"
proof -
  obtain a b a' b' where c: "root_clash node_hash xs ys = Some ((a, b), (a', b'))"
    "(a, b) \<noteq> (a', b')" "node_hash a b = node_hash a' b'" "hash32 a" "hash32 a'"
    using sha_tree.root_binding [OF assms] by blast
  show ?thesis using node_hash_collision [OF c(3,2,4,5)] c(1)
    by (simp add: sha256_collision_def tree_collision_def)
qed

end
