(* ===== verification/Merkle.thy ===== *)
theory Merkle
  imports Merkle_Spec
begin

text \<open>
  The Merkle tree of \<^verbatim>\<open>src/src/merkle/mt_impl.c\<close> and \<^verbatim>\<open>merkle.h\<close>: thirty array lists of hashes,
  the leaves in the first one. \<open>mt_rep mt xs\<close> says that the structure \<open>mt\<close> stands for the list of
  leaves \<open>xs\<close>; the lemmas show that every operation does to the structure what its counterpart does
  to the list: \<open>mt_add\<close> appends, \<open>mt_update\<close> replaces, \<open>mt_get_root\<close> returns the root of the
  reference tree and \<open>mt_verify\<close> accepts exactly the tags that leave that root as it is.
  The level counter of the loops is a natural number, since it stays below 30; offsets are 32-bit words.
\<close>

section \<open>The code\<close>

text \<open>
  The mutex of the structure is not used by any function of the tree and is left out.
  A level is a pointer to an array list.
\<close>

record mt_t =
  mt_elems :: u32
  level :: "mt_al_t option list"

text \<open>Reading and replacing an entry of the array of levels.\<close>

definition lev :: "mt_t \<Rightarrow> nat \<Rightarrow> mt_al_t option res" where
  "lev mt l = (if l < unat TREE_LEVELS then Inr (level mt ! l) else Inl OutOfBounds)"

definition set_lev :: "mt_t \<Rightarrow> nat \<Rightarrow> mt_al_t option \<Rightarrow> mt_t" where
  "set_lev mt l al = mt\<lparr>level := (level mt)[l := al]\<rparr>"

text \<open>
  \<open>mt_create\<close> asks the allocator for the structure and then for one array list per level. The first
  argument answers the request for the structure, the second one the request for each level. When a
  level is refused, the levels made so far are deleted.
\<close>

fun mt_delete_levels :: "mt_al_t option list \<Rightarrow> unit res" where
  "mt_delete_levels [] = Inr ()"
| "mt_delete_levels (al # als) = bindE (mt_al_delete al) (\<lambda>_. mt_delete_levels als)"

fun mt_create_levels :: "bool list \<Rightarrow> mt_al_t option list \<Rightarrow> mt_al_t option list option res" where
  "mt_create_levels [] made = Inr (Some made)"
| "mt_create_levels (ok # oks) made = (case mt_al_create ok of
     None \<Rightarrow> bindE (mt_delete_levels made) (\<lambda>_. Inr None)
   | Some al \<Rightarrow> mt_create_levels oks (made @ [Some al]))"

definition mt_create :: "bool \<Rightarrow> (nat \<Rightarrow> bool) \<Rightarrow> mt_t option res" where
  "mt_create ok oks = (if \<not> ok then Inr None
     else bindE (mt_create_levels (map oks [0..<unat TREE_LEVELS]) []) (\<lambda>made. case made of
       None \<Rightarrow> Inr None
     | Some als \<Rightarrow> Inr (Some \<lparr>mt_elems = 0, level = als\<rparr>)))"

definition mt_delete :: "mt_t option \<Rightarrow> unit res" where
  "mt_delete mt = (case mt of None \<Rightarrow> Inr () | Some t \<Rightarrow> mt_delete_levels (take (unat TREE_LEVELS) (level t)))"

definition mt_right :: "u32 \<Rightarrow> bool" where
  "mt_right offset \<longleftrightarrow> offset AND 1 \<noteq> 0"

definition mt_left :: "u32 \<Rightarrow> bool" where
  "mt_left offset \<longleftrightarrow> offset AND 1 = 0"

text \<open>The leaf for a tag: the tag, padded with zero bytes.\<close>

definition mt_init_hash :: "byte list option \<Rightarrow> u64 \<Rightarrow> byte list res" where
  "mt_init_hash tag len = (case tag of None \<Rightarrow> Inl AssertFail | Some t \<Rightarrow>
     if \<not> unat len \<le> unat HASH_LENGTH then Inl AssertFail
     else if length t < unat len then Inl OutOfBounds
     else Inr (take (unat len) t @ replicate (unat HASH_LENGTH - unat len) 0))"

text \<open>
  One call of \<open>mt_hash\<close> under \<^verbatim>\<open>MT_ERR_CHK\<close>, with the digest buffer as input and output:
  the result code and the buffer after the call.
\<close>

definition mt_hash_into :: "byte list option \<Rightarrow> byte list option \<Rightarrow> byte list \<Rightarrow> (mt_error \<times> byte list) res" where
  "mt_hash_into left right buf = bindE (mt_hash left right True) (\<lambda>(r, d).
     Inr (r, case d of None \<Rightarrow> buf | Some h \<Rightarrow> h))"

text \<open>The body of the loop of \<open>mt_add\<close> for a right child.\<close>

definition mt_add_right :: "(nat \<Rightarrow> bool) \<Rightarrow> mt_t \<Rightarrow> byte list \<Rightarrow> u32 \<Rightarrow> nat \<Rightarrow> (mt_error \<times> mt_t \<times> byte list) res" where
  "mt_add_right ok mt message_digest q l =
     bindE (lev mt l) (\<lambda>al.
     bindE (mt_al_fetch al (q - 1)) (\<lambda>left.
     bindE (mt_hash_into left (Some message_digest) message_digest) (\<lambda>(r, d).
     if r \<noteq> MT_SUCCESS then Inr (r, mt, d)
     else bindE (lev mt (l + 1)) (\<lambda>up.
       bindE (mt_al_add_or_update (ok (l + 1)) up (Some d) (drop_bit 1 q)) (\<lambda>(r, up').
         Inr (r, set_lev mt (l + 1) up', d))))))"

function mt_add_loop :: "(nat \<Rightarrow> bool) \<Rightarrow> mt_t \<Rightarrow> byte list \<Rightarrow> u32 \<Rightarrow> nat \<Rightarrow>
    (mt_error \<times> mt_t \<times> byte list \<times> u32 \<times> nat) res" where
  "mt_add_loop ok mt message_digest q l =
     (if \<not> (q > 0 \<and> l < unat TREE_LEVELS) then Inr (MT_SUCCESS, mt, message_digest, q, l)
      else bindE (if mt_right q then mt_add_right ok mt message_digest q l
                  else Inr (MT_SUCCESS, mt, message_digest)) (\<lambda>(r, mt', d).
        if r \<noteq> MT_SUCCESS then Inr (r, mt', d, q, l)
        else mt_add_loop ok mt' d (drop_bit 1 q) (l + 1)))"
  by pat_completeness auto
termination
  by (relation "measure (\<lambda>(ok, mt, d, q, l). unat TREE_LEVELS - l)") auto

text \<open>The comparison with the stored root that ends \<open>mt_add\<close>, \<open>mt_update\<close> and \<open>mt_verify\<close>.\<close>

definition mt_root_matches :: "mt_t \<Rightarrow> byte list \<Rightarrow> u32 \<Rightarrow> nat \<Rightarrow> bool res" where
  "mt_root_matches mt message_digest q l = bindE (lev mt l) (\<lambda>al.
     bindE (mt_al_fetch al q) (\<lambda>h. case h of None \<Rightarrow> Inl NullDeref | Some d \<Rightarrow> Inr (message_digest = d)))"

text \<open>The first argument of \<open>mt_add\<close> answers the allocation of each level.\<close>

definition mt_add :: "(nat \<Rightarrow> bool) \<Rightarrow> mt_t option \<Rightarrow> byte list option \<Rightarrow> u64 \<Rightarrow> (mt_error \<times> mt_t option) res" where
  "mt_add ok mt0 tag len = (case mt0 of None \<Rightarrow> Inr (MT_ERR_ILLEGAL_PARAM, mt0) | Some mt \<Rightarrow>
     if tag = None \<or> \<not> unat len \<le> unat HASH_LENGTH then Inr (MT_ERR_ILLEGAL_PARAM, mt0)
     else bindE (mt_init_hash tag len) (\<lambda>message_digest.
     bindE (lev mt 0) (\<lambda>al.
     bindE (mt_al_add (ok 0) al (Some message_digest)) (\<lambda>(r, al').
     let mt1 = set_lev mt 0 al' in
     if r \<noteq> MT_SUCCESS then Inr (r, Some mt1)
     else let mt2 = mt1\<lparr>mt_elems := mt_elems mt1 + 1\<rparr> in
     if mt_elems mt2 = 1 then Inr (MT_SUCCESS, Some mt2)
     else bindE (mt_add_loop ok mt2 message_digest (mt_elems mt2 - 1) 0) (\<lambda>(r, mt3, d, q, l).
       if r \<noteq> MT_SUCCESS then Inr (r, Some mt3)
       else bindE (mt_root_matches mt3 d q l) (\<lambda>same.
         if same then Inr (MT_SUCCESS, Some mt3) else Inl AssertFail))))))"

definition mt_get_size :: "mt_t option \<Rightarrow> u32 res" where
  "mt_get_size mt = (case mt of None \<Rightarrow> Inr (word_of_int (mt_error_code MT_ERR_ILLEGAL_PARAM))
     | Some t \<Rightarrow> bindE (lev t 0) (\<lambda>al. Inr (mt_al_get_size al)))"

definition mt_exists :: "mt_t option \<Rightarrow> u32 \<Rightarrow> int res" where
  "mt_exists mt offset = (case mt of None \<Rightarrow> Inr (mt_error_code MT_ERR_ILLEGAL_PARAM)
     | Some t \<Rightarrow> if offset > MT_AL_MAX_ELEMS then Inr (mt_error_code MT_ERR_ILLEGAL_PARAM)
         else bindE (lev t 0) (\<lambda>al. bindE (mt_al_get al offset) (\<lambda>p. Inr (if p \<noteq> None then 1 else 0))))"

text \<open>Both operands of the conjunction are evaluated, so the next level is read in any case.\<close>

definition hasNextLevelExceptRoot :: "mt_t \<Rightarrow> nat \<Rightarrow> bool res" where
  "hasNextLevelExceptRoot mt cur_lvl = bindE (lev mt (cur_lvl + 1)) (\<lambda>al.
     Inr ((cur_lvl + 1 < unat (TREE_LEVELS - 1)) \<and> mt_al_get_size al > 0))"

fun findRightNeighbor :: "mt_t \<Rightarrow> u32 \<Rightarrow> nat \<Rightarrow> byte list option res" where
  "findRightNeighbor mt offset 0 = bindE (lev mt 0) (\<lambda>al.
     if offset < mt_al_get_size al then mt_al_fetch al offset else Inr None)"
| "findRightNeighbor mt offset (Suc l) = bindE (lev mt (Suc l)) (\<lambda>al.
     if offset < mt_al_get_size al then mt_al_fetch al offset
     else findRightNeighbor mt (push_bit 1 offset) l)"

text \<open>The digest of the parent, in the body of the loops of \<open>mt_verify\<close> and \<open>mt_update\<close>.\<close>

definition mt_path_step :: "mt_t \<Rightarrow> byte list \<Rightarrow> u32 \<Rightarrow> nat \<Rightarrow> (mt_error \<times> byte list) res" where
  "mt_path_step mt message_digest q l =
     (if mt_left q then bindE (findRightNeighbor mt (q + 1) l) (\<lambda>right.
        if right \<noteq> None then mt_hash_into (Some message_digest) right message_digest
        else Inr (MT_SUCCESS, message_digest))
      else bindE (lev mt l) (\<lambda>al. bindE (mt_al_fetch al (q - 1)) (\<lambda>left.
        mt_hash_into left (Some message_digest) message_digest)))"

lemma hasNextLevelExceptRoot_bound: "hasNextLevelExceptRoot mt l = Inr True \<Longrightarrow> l + 1 < 29"
  by (auto simp: hasNextLevelExceptRoot_def bindE_eq_Inr TREE_LEVELS_def)

function mt_verify_loop :: "mt_t \<Rightarrow> byte list \<Rightarrow> u32 \<Rightarrow> nat \<Rightarrow> (mt_error \<times> byte list \<times> u32 \<times> nat) res" where
  "mt_verify_loop mt message_digest q l = bindE (hasNextLevelExceptRoot mt l) (\<lambda>next.
     if \<not> next then Inr (MT_SUCCESS, message_digest, q, l)
     else bindE (mt_path_step mt message_digest q l) (\<lambda>(r, d).
       if r \<noteq> MT_SUCCESS then Inr (r, d, q, l)
       else mt_verify_loop mt d (drop_bit 1 q) (l + 1)))"
  by pat_completeness auto
termination
  by (relation "measure (\<lambda>(mt, d, q, l). 29 - l)") (auto dest: hasNextLevelExceptRoot_bound)

definition mt_verify :: "mt_t option \<Rightarrow> byte list option \<Rightarrow> u64 \<Rightarrow> u32 \<Rightarrow> mt_error res" where
  "mt_verify mt0 tag len offset = (case mt0 of None \<Rightarrow> Inr MT_ERR_ILLEGAL_PARAM | Some mt \<Rightarrow>
     if tag = None \<or> \<not> unat len \<le> unat HASH_LENGTH \<or> \<not> offset < mt_elems mt
     then Inr MT_ERR_ILLEGAL_PARAM
     else bindE (mt_init_hash tag len) (\<lambda>message_digest.
     bindE (mt_verify_loop mt message_digest offset 0) (\<lambda>(r, d, q, l).
     if r \<noteq> MT_SUCCESS then Inr r
     else bindE (mt_root_matches mt d q l) (\<lambda>same.
       Inr (if same then MT_SUCCESS else MT_ERR_ROOT_MISMATCH)))))"

function mt_update_loop :: "mt_t \<Rightarrow> byte list \<Rightarrow> u32 \<Rightarrow> nat \<Rightarrow>
    (mt_error \<times> mt_t \<times> byte list \<times> u32 \<times> nat) res" where
  "mt_update_loop mt message_digest q l = bindE (hasNextLevelExceptRoot mt l) (\<lambda>next.
     if \<not> next then Inr (MT_SUCCESS, mt, message_digest, q, l)
     else bindE (mt_path_step mt message_digest q l) (\<lambda>(r, d).
       if r \<noteq> MT_SUCCESS then Inr (r, mt, d, q, l)
       else bindE (lev mt (l + 1)) (\<lambda>up.
         bindE (mt_al_update_if_exists up (Some d) (drop_bit 1 q)) (\<lambda>(r, up').
           if r \<noteq> MT_SUCCESS then Inr (r, set_lev mt (l + 1) up', d, drop_bit 1 q, l + 1)
           else mt_update_loop (set_lev mt (l + 1) up') d (drop_bit 1 q) (l + 1)))))"
  by pat_completeness auto
termination
  by (relation "measure (\<lambda>(mt, d, q, l). 29 - l)") (auto dest: hasNextLevelExceptRoot_bound)

definition mt_update :: "mt_t option \<Rightarrow> byte list option \<Rightarrow> u64 \<Rightarrow> u32 \<Rightarrow> (mt_error \<times> mt_t option) res" where
  "mt_update mt0 tag len offset = (case mt0 of None \<Rightarrow> Inr (MT_ERR_ILLEGAL_PARAM, mt0) | Some mt \<Rightarrow>
     if tag = None \<or> \<not> unat len \<le> unat HASH_LENGTH \<or> \<not> offset < mt_elems mt
     then Inr (MT_ERR_ILLEGAL_PARAM, mt0)
     else bindE (mt_init_hash tag len) (\<lambda>message_digest.
     bindE (lev mt 0) (\<lambda>al.
     bindE (mt_al_update al (Some message_digest) offset) (\<lambda>(r, al').
     let mt1 = set_lev mt 0 al' in
     if r \<noteq> MT_SUCCESS then Inr (r, Some mt1)
     else bindE (mt_update_loop mt1 message_digest offset 0) (\<lambda>(r, mt2, d, q, l).
       if r \<noteq> MT_SUCCESS then Inr (r, Some mt2)
       else bindE (mt_root_matches mt2 d q l) (\<lambda>same.
         if same then Inr (MT_SUCCESS, Some mt2) else Inl AssertFail))))))"

function mt_get_root_loop :: "mt_t \<Rightarrow> nat \<Rightarrow> nat res" where
  "mt_get_root_loop mt l = bindE (hasNextLevelExceptRoot mt l) (\<lambda>next.
     if next then mt_get_root_loop mt (l + 1) else Inr l)"
  by pat_completeness auto
termination
  by (relation "measure (\<lambda>(mt, l). 29 - l)") (auto dest: hasNextLevelExceptRoot_bound)

text \<open>The second argument says whether the caller passed a buffer; the result is what it receives.\<close>

definition mt_get_root :: "mt_t option \<Rightarrow> bool \<Rightarrow> (mt_error \<times> byte list option) res" where
  "mt_get_root mt0 root = (case mt0 of None \<Rightarrow> Inr (MT_ERR_ILLEGAL_PARAM, None) | Some mt \<Rightarrow>
     if \<not> root then Inr (MT_ERR_ILLEGAL_PARAM, None)
     else bindE (mt_get_root_loop mt 0) (\<lambda>l.
     bindE (lev mt l) (\<lambda>al.
     bindE (mt_al_fetch al 0) (\<lambda>h. case h of None \<Rightarrow> Inl NullDeref
       | Some d \<Rightarrow> Inr (MT_SUCCESS, Some d)))))"

declare mt_add_loop.simps [simp del] mt_verify_loop.simps [simp del] mt_update_loop.simps [simp del]
  mt_get_root_loop.simps [simp del]

section \<open>Representation\<close>

definition level_is :: "mt_t \<Rightarrow> nat \<Rightarrow> byte list list \<Rightarrow> bool" where
  "level_is mt l hs = (case level mt ! l of None \<Rightarrow> False | Some a \<Rightarrow> al_inv a \<and> al_hashes a = hs)"

definition levels_are :: "mt_t \<Rightarrow> (nat \<Rightarrow> byte list list) \<Rightarrow> bool" where
  "levels_are mt f \<longleftrightarrow> length (level mt) = 30 \<and> (\<forall>l<30. level_is mt l (f l))"

text \<open>The tree stands for the list of its leaves.\<close>

definition mt_rep :: "mt_t \<Rightarrow> byte list list \<Rightarrow> bool" where
  "mt_rep mt xs \<longleftrightarrow> unat (mt_elems mt) = length xs \<and> length xs \<le> 2 ^ 26 \<and> list_all hash32 xs
     \<and> levels_are mt (slevel node_hash xs)"

definition pad_tag :: "byte list \<Rightarrow> u64 \<Rightarrow> byte list" where
  "pad_tag tag len = take (unat len) tag @ replicate (32 - unat len) 0"

definition tag_ok :: "byte list \<Rightarrow> u64 \<Rightarrow> bool" where
  "tag_ok tag len \<longleftrightarrow> unat len \<le> 32 \<and> unat len \<le> length tag"

lemma pad_tag_length [simp, len_simps]: "tag_ok tag len \<Longrightarrow> length (pad_tag tag len) = 32"
  by (simp add: pad_tag_def tag_ok_def)

lemma mt_init_hash_ok: "tag_ok tag len \<Longrightarrow> mt_init_hash (Some tag) len = Inr (pad_tag tag len)"
  by (simp add: mt_init_hash_def tag_ok_def pad_tag_def)

lemma unat_TREE_LEVELS [simp]: "unat TREE_LEVELS = 30" "unat (TREE_LEVELS - 1) = 29"
  by (simp_all add: TREE_LEVELS_def)

lemma lev_ok:
  assumes "levels_are mt f" and "l < 30"
  obtains a where "lev mt l = Inr (Some a)" and "al_inv a" and "al_hashes a = f l"
  using assms by (auto simp: levels_are_def level_is_def lev_def split: option.splits)

lemma lev_size:
  assumes "levels_are mt f" and "l < 30"
  shows "\<exists>al. lev mt l = Inr al \<and> unat (mt_al_get_size al) = length (f l)"
  using lev_ok [OF assms] al.size_law by metis

lemma lev_fetch:
  assumes "levels_are mt f" and "l < 30"
  shows "\<exists>al. lev mt l = Inr al \<and> mt_al_fetch al off =
    Inr (if unat off < length (f l) then Some (f l ! unat off) else None)"
  using lev_ok [OF assms] al.fetch_law by metis

lemma levels_are_set:
  assumes "levels_are mt f" and "l < 30" and "al_inv a"
    and "\<And>m. m < 30 \<Longrightarrow> g m = (if m = l then al_hashes a else f m)"
  shows "levels_are (set_lev mt l (Some a)) g"
  using assms by (auto simp: levels_are_def level_is_def set_lev_def nth_list_update)

lemma levels_are_cong: "levels_are mt f \<Longrightarrow> (\<And>l. l < 30 \<Longrightarrow> f l = g l) \<Longrightarrow> levels_are mt g"
  by (simp add: levels_are_def)

lemma set_lev_elems [simp]: "mt_elems (set_lev mt l al) = mt_elems mt"
  by (simp add: set_lev_def)

section \<open>Finding the right neighbour\<close>

lemma findRightNeighbor_eq:
  assumes "levels_are mt f" and "l < 30" and "\<And>m. m \<le> l \<Longrightarrow> f m = slevel node_hash xs m"
    and "unat off * 2 ^ l < 2 ^ 32"
  shows "findRightNeighbor mt off l =
    Inr (if unat off < length (vlevel node_hash xs l) then Some (vlevel node_hash xs l ! unat off) else None)"
  using assms(2-4)
proof (induction l arbitrary: off)
  case 0
  obtain a where a: "lev mt 0 = Inr (Some a)" "al_inv a" "al_hashes a = xs"
    using lev_ok [OF assms(1) 0(1)] 0(2) by auto
  show ?case using a al.size_less [OF a(2)] al.fetch_law [OF a(2)] by simp
next
  case (Suc l)
  obtain a where a: "lev mt (Suc l) = Inr (Some a)" "al_inv a" "al_hashes a = slevel node_hash xs (Suc l)"
    using lev_ok [OF assms(1) Suc(2)] Suc(3) by auto
  have size: "(off < mt_al_get_size (Some a)) = (unat off < length (slevel node_hash xs (Suc l)))"
    using al.size_less [OF a(2)] a(3) by simp
  show ?case
  proof (cases "unat off < length (slevel node_hash xs (Suc l))")
    case True
    then show ?thesis
      using a size al.fetch_law [OF a(2)] slevel_nth [OF True] slevel_le [of node_hash xs "Suc l"]
      by (simp del: slevel.simps vlevel.simps)
  next
    case False
    then have ge: "length (slevel node_hash xs (Suc l)) \<le> unat off" by simp
    have "unat off * 2 \<le> unat off * 2 ^ Suc l" by simp
    then have "unat off * 2 < 2 ^ 32" using Suc(4) by (rule le_less_trans)
    then have sh: "unat (push_bit 1 off) = 2 * unat off" by (simp add: unat_word_ariths)
    have "findRightNeighbor mt (push_bit 1 off) l = Inr (if 2 * unat off < length (vlevel node_hash xs l)
        then Some (vlevel node_hash xs l ! (2 * unat off)) else None)"
      using Suc(1) [of "push_bit 1 off"] Suc(2-4) sh by (simp add: ac_simps)
    then show ?thesis
      using a size False unstored_node [OF ge] by (simp del: slevel.simps vlevel.simps)
  qed
qed

section \<open>One step up the path\<close>

lemma mt_hash_into_ok [simp]:
  "hash32 l \<Longrightarrow> hash32 r \<Longrightarrow> mt_hash_into (Some l) (Some r) buf = Inr (MT_SUCCESS, node_hash l r)"
  by (simp add: mt_hash_into_def)

lemma and_1_odd: "(q AND 1 = 0) = even (unat q)" for q :: u32
proof -
  have "unat (q AND 1) = unat q mod 2" by (simp add: and_one_eq unat_mod)
  then show ?thesis by (metis unat_eq_0 even_iff_mod_2_eq_zero)
qed

lemma path_hash_ok:
  assumes "list_all hash32 xs" and "hash32 x" and "i < length xs"
  shows "hash32 (path_hash node_hash xs i x l)"
proof -
  have "list_all hash32 (xs[i := x])" using assms by (auto simp: list_all_length nth_list_update)
  from sha_tree.vlevel_nth_ok [OF this index_in_vlevel [of i "xs[i := x]" l node_hash]] assms(3)
  show ?thesis by (simp add: vlevel_update index_in_vlevel)
qed

lemma mt_path_step_eq:
  assumes "levels_are mt f" and "l < 29" and "\<And>m. m \<le> l \<Longrightarrow> f m = slevel node_hash xs m"
    and "i < length xs" and "length xs \<le> 2 ^ 26" and "list_all hash32 xs" and "hash32 x"
    and "unat q = i div 2 ^ l"
  shows "mt_path_step mt (path_hash node_hash xs i x l) q l = Inr (MT_SUCCESS, path_hash node_hash xs i x (Suc l))"
proof -
  let ?v = "vlevel node_hash xs l" and ?d = "path_hash node_hash xs i x l"
  have q: "unat q < length ?v" using index_in_vlevel [OF assms(4)] assms(8) by simp
  have d: "hash32 ?d" by (rule path_hash_ok) (use assms in auto)
  show ?thesis
  proof (cases "even (unat q)")
    case True
    have "unat q * 2 ^ l \<le> i" using assms(8) by simp
    moreover have "(2::nat) ^ l \<le> 2 ^ 28" using assms(2) by (intro power_increasing) auto
    ultimately have "(unat q + 1) * 2 ^ l < 2 ^ 32" using assms(4,5) by simp
    moreover have "unat q < 2 ^ 26"
      using assms(4,5,8) div_le_dividend [of i "2 ^ l"] by linarith
    then have "unat (q + 1) = unat q + 1" by (subst unat_add_no_wrap) auto
    ultimately have "findRightNeighbor mt (q + 1) l =
        Inr (if unat q + 1 < length ?v then Some (?v ! (unat q + 1)) else None)"
      using assms(1-3) findRightNeighbor_eq [of mt f l xs "q + 1"] by simp
    moreover have "hash32 (?v ! (unat q + 1))" if "unat q + 1 < length ?v"
      using sha_tree.vlevel_nth_ok [OF assms(6) that] .
    ultimately show ?thesis using True d assms(8)
      by (simp add: mt_path_step_def mt_left_def and_1_odd Let_def)
  next
    case False
    then have pos: "0 < unat q" by (cases "unat q") auto
    then have q1: "unat (q - 1) = unat q - 1" by (metis unat_minus_one unat_0 less_irrefl)
    have "unat q - 1 < length xs div 2 ^ l"
      using q pos vlevel_length_bounds(2) [where H = node_hash and xs = xs and l = l] by linarith
    then have st: "unat q - 1 < length (slevel node_hash xs l)"
      using full_nodes_stored [of xs l node_hash] by linarith
    obtain al where "lev mt l = Inr al"
      "mt_al_fetch al (q - 1) = Inr (Some (?v ! (unat q - 1)))"
      using lev_fetch [OF assms(1), of l "q - 1"] assms(2,3) st q1 slevel_nth [OF st] by auto
    moreover have "hash32 (?v ! (unat q - 1))"
      using q by (intro sha_tree.vlevel_nth_ok [OF assms(6)]) simp
    ultimately show ?thesis using False d assms(8)
      by (simp add: mt_path_step_def mt_left_def and_1_odd Let_def)
  qed
qed

section \<open>The levels above the leaves\<close>

lemma next_level_nonempty: "(slevel H xs (Suc l) \<noteq> []) = (2 \<le> length (vlevel H xs l))"
proof -
  have "(slevel H xs (Suc l) \<noteq> []) = (0 < length (vlevel H xs l) div 2)"
    using length_greater_0_conv [of "slevel H xs (Suc l)"] by (simp only: slevel_length nat.case)
  then show ?thesis by (simp only: div_greater_zero_iff) simp
qed

lemma two_nodes_level: "2 \<le> length (vlevel H xs l) \<Longrightarrow> length xs \<le> 2 ^ 26 \<Longrightarrow> l < 26"
proof (rule ccontr)
  assume "2 \<le> length (vlevel H xs l)" "length xs \<le> 2 ^ 26" "\<not> l < 26"
  then have "(2::nat) ^ 26 \<le> 2 ^ l" by (intro power_increasing) auto
  then have "length xs + 2 ^ l - 1 < 2 * 2 ^ l" using \<open>length xs \<le> 2 ^ 26\<close> by simp
  then have "length (vlevel H xs l) < 2" unfolding vlevel_length by (simp add: less_mult_imp_div_less)
  with \<open>2 \<le> length (vlevel H xs l)\<close> show False by simp
qed

lemma hasNextLevelExceptRoot_eq:
  assumes "levels_are mt f" and "length (f (Suc l)) = length (slevel node_hash xs (Suc l))"
    and "l < 29" and "length xs \<le> 2 ^ 26"
  shows "hasNextLevelExceptRoot mt l = Inr (2 \<le> length (vlevel node_hash xs l))"
proof -
  obtain al where al: "lev mt (Suc l) = Inr al" "unat (mt_al_get_size al) = length (f (Suc l))"
    using lev_size [OF assms(1), of "Suc l"] assms(3) by auto
  have "(mt_al_get_size al > 0) = (0 < unat (mt_al_get_size al))" by (simp add: unat_gt_0 word_gt_0)
  also have "\<dots> = (2 \<le> length (vlevel node_hash xs l))"
    using next_level_nonempty [of node_hash xs l] al(2) assms(2) by (simp del: slevel.simps)
  finally show ?thesis using al(1) two_nodes_level [of node_hash xs l] assms(4)
    by (auto simp: hasNextLevelExceptRoot_def)
qed

text \<open>The level on which the tree ends: one node, which is stored.\<close>

definition is_top :: "byte list list \<Rightarrow> nat \<Rightarrow> bool" where
  "is_top xs l \<longleftrightarrow> l < 29 \<and> length (vlevel node_hash xs l) = 1 \<and> slevel node_hash xs l = vlevel node_hash xs l"

lemma top_step:
  assumes "2 \<le> length (vlevel node_hash xs l) \<or> is_top xs l" and "\<not> is_top xs l" and "length xs \<le> 2 ^ 26"
  shows "2 \<le> length (vlevel node_hash xs (Suc l)) \<or> is_top xs (Suc l)"
proof -
  have two: "2 \<le> length (vlevel node_hash xs l)" using assms by blast
  then have l: "l < 26" by (rule two_nodes_level) (rule assms(3))
  show ?thesis
  proof (cases "length (vlevel node_hash xs (Suc l)) = 1")
    case True
    then have "length (vlevel node_hash xs l) div 2 = 1" using two by simp
    then have "slevel node_hash xs (Suc l) = vlevel node_hash xs (Suc l)" using True by simp
    with True l show ?thesis by (simp add: is_top_def del: slevel.simps vlevel.simps)
  next
    case False
    then show ?thesis using two by simp linarith
  qed
qed

text \<open>Facts about the position on the path that the loops maintain.\<close>

definition on_path :: "byte list list \<Rightarrow> nat \<Rightarrow> u32 \<Rightarrow> nat \<Rightarrow> bool" where
  "on_path xs i q l \<longleftrightarrow> i < length xs \<and> length xs \<le> 2 ^ 26 \<and> list_all hash32 xs \<and> unat q = i div 2 ^ l
     \<and> (2 \<le> length (vlevel node_hash xs l) \<or> is_top xs l)"

lemma on_path_start:
  assumes "i < length xs" and "length xs \<le> 2 ^ 26" and "list_all hash32 xs" and "unat q = i"
  shows "on_path xs i q 0"
proof -
  have "2 \<le> length xs \<or> is_top xs 0"
    using assms(1) by (cases "length xs = 1") (auto simp: is_top_def)
  then show ?thesis using assms by (simp add: on_path_def)
qed

lemma unat_shiftr1: "unat (drop_bit 1 q) = unat q div 2" for q :: "'a::len word"
  by (subst unat_drop_bit_eq) (simp add: drop_bit_eq_div)

lemma on_path_step:
  assumes "on_path xs i q l" and "2 \<le> length (vlevel node_hash xs l)"
  shows "on_path xs i (drop_bit 1 q) (Suc l)" and "l < 26"
proof -
  have "\<not> is_top xs l" using assms(2) by (simp add: is_top_def)
  with assms top_step [of xs l] show "on_path xs i (drop_bit 1 q) (Suc l)"
    unfolding on_path_def by (simp only: unat_shiftr1 div_Suc_level) simp
  show "l < 26" using assms(1) by (intro two_nodes_level [OF assms(2)]) (simp add: on_path_def)
qed

lemma on_path_top:
  assumes "on_path xs i q l" and "\<not> 2 \<le> length (vlevel node_hash xs l)"
  shows "is_top xs l" and "q = 0" and "l < 29"
proof -
  show top: "is_top xs l" using assms by (simp add: on_path_def)
  then show "l < 29" by (simp add: is_top_def)
  have "unat q = 0" using assms(1) top index_in_vlevel [of i xs l node_hash]
    by (simp add: on_path_def is_top_def)
  then show "q = 0" by (simp add: unat_eq_zero)
qed

lemma on_path_next:
  assumes "on_path xs i q l" and "levels_are mt f" and "length (f (Suc l)) = length (slevel node_hash xs (Suc l))"
  shows "hasNextLevelExceptRoot mt l = Inr (2 \<le> length (vlevel node_hash xs l))"
proof (rule hasNextLevelExceptRoot_eq [OF assms(2,3)])
  show "length xs \<le> 2 ^ 26" using assms(1) by (simp add: on_path_def)
  then show "l < 29" using on_path_step(2) [OF assms(1)] on_path_top(3) [OF assms(1)] by force
qed

lemma on_path_hash:
  assumes "on_path xs i q l" and "2 \<le> length (vlevel node_hash xs l)" and "levels_are mt f"
    and "\<And>m. m \<le> l \<Longrightarrow> f m = slevel node_hash xs m" and "hash32 x"
  shows "mt_path_step mt (path_hash node_hash xs i x l) q l =
    Inr (MT_SUCCESS, path_hash node_hash xs i x (Suc l))"
  by (rule mt_path_step_eq [OF assms(3) _ assms(4)])
    (use assms on_path_step(2) [OF assms(1,2)] in \<open>auto simp: on_path_def\<close>)

text \<open>The root, read from the level on which the tree ends.\<close>

lemma top_root:
  assumes "is_top xs l"
  shows "merkle_root node_hash xs = Some (slevel node_hash xs l ! 0)"
    and "length (slevel node_hash xs l) = 1"
  using assms merkle_root_top [of node_hash xs l] by (simp_all add: is_top_def)

lemma top_root_update:
  assumes "is_top xs l" and "i < length xs"
  shows "merkle_root node_hash (xs[i := x]) = Some (path_hash node_hash xs i x l)"
proof -
  have one: "length (vlevel node_hash (xs[i := x]) l) = 1"
    using assms vlevel_length_eq [of "xs[i := x]" xs node_hash l] by (simp add: is_top_def)
  have "i div 2 ^ l = 0" using index_in_vlevel [OF assms(2), of l node_hash] assms(1)
    by (simp add: is_top_def)
  then show ?thesis
    using merkle_root_top [OF one] one assms(2) by (simp add: vlevel_update)
qed

lemma mt_root_matches_top:
  assumes "levels_are mt f" and "is_top xs l" and "f l = slevel node_hash xs l"
  shows "mt_root_matches mt d 0 l = Inr (Some d = merkle_root node_hash xs)"
proof -
  have "l < 30" using assms(2) by (simp add: is_top_def)
  then obtain al where "lev mt l = Inr al" "mt_al_fetch al 0 = Inr (Some (slevel node_hash xs l ! 0))"
    using lev_fetch [OF assms(1), of l 0] top_root(2) [OF assms(2)] assms(3) by auto
  then show ?thesis using top_root(1) [OF assms(2)] by (simp add: mt_root_matches_def)
qed

section \<open>Verification\<close>

lemma mt_verify_loop_ok:
  assumes "levels_are mt (slevel node_hash xs)" and "hash32 x"
  shows "on_path xs i q l \<Longrightarrow> \<exists>L. is_top xs L \<and>
    mt_verify_loop mt (path_hash node_hash xs i x l) q l = Inr (MT_SUCCESS, path_hash node_hash xs i x L, 0, L)"
proof (induction "29 - l" arbitrary: l q rule: less_induct)
  case less
  note nx = on_path_next [OF less(2) assms(1) refl]
  show ?case
  proof (cases "2 \<le> length (vlevel node_hash xs l)")
    case True
    note st = on_path_step [OF less(2) True]
    have "mt_verify_loop mt (path_hash node_hash xs i x l) q l
        = mt_verify_loop mt (path_hash node_hash xs i x (Suc l)) (drop_bit 1 q) (Suc l)"
      using nx True on_path_hash [OF less(2) True assms(1) refl assms(2)]
      by (subst mt_verify_loop.simps) (simp del: path_hash.simps)
    with less(1) [OF _ st(1)] st(2) show ?thesis by (simp del: path_hash.simps)
  next
    case False
    then show ?thesis using nx on_path_top [OF less(2) False]
      by (intro exI [of _ l]) (subst mt_verify_loop.simps, simp)
  qed
qed

lemma mt_rep_bounds:
  assumes "mt_rep mt xs"
  shows "length xs \<le> 2 ^ 26" and "list_all hash32 xs" and "levels_are mt (slevel node_hash xs)"
    and "(off < mt_elems mt) = (unat off < length xs)"
  using assms by (auto simp: mt_rep_def word_less_nat_alt)

lemma mt_verify_eq:
  assumes "mt_rep mt xs" and "unat off < length xs" and "tag_ok tag len"
  shows "mt_verify (Some mt) (Some tag) len off =
    Inr (if merkle_root node_hash (xs[unat off := pad_tag tag len]) = merkle_root node_hash xs
         then MT_SUCCESS else MT_ERR_ROOT_MISMATCH)"
proof -
  note rep = mt_rep_bounds [OF assms(1)]
  have "on_path xs (unat off) off 0" using assms(2) rep by (intro on_path_start) auto
  from mt_verify_loop_ok [OF rep(3) pad_tag_length [OF assms(3)] this] obtain L where top: "is_top xs L"
    and loop: "mt_verify_loop mt (pad_tag tag len) off 0 =
      Inr (MT_SUCCESS, path_hash node_hash xs (unat off) (pad_tag tag len) L, 0, L)"
    by auto
  show ?thesis
    using assms(2,3) loop mt_root_matches_top [OF rep(3) top refl] top_root_update [OF top assms(2)]
    by (simp add: mt_verify_def rep(4) mt_init_hash_ok) (simp add: tag_ok_def)
qed

section \<open>Reading the root\<close>

lemma mt_get_root_loop_ok:
  assumes "levels_are mt (slevel node_hash xs)"
  shows "on_path xs i q l \<Longrightarrow> \<exists>L. is_top xs L \<and> mt_get_root_loop mt l = Inr L"
proof (induction "29 - l" arbitrary: l q rule: less_induct)
  case less
  note nx = on_path_next [OF less(2) assms(1) refl]
  show ?case
  proof (cases "2 \<le> length (vlevel node_hash xs l)")
    case True
    note st = on_path_step [OF less(2) True]
    have "mt_get_root_loop mt l = mt_get_root_loop mt (Suc l)"
      using nx True by (subst mt_get_root_loop.simps) simp
    with less(1) [OF _ st(1)] st(2) show ?thesis by simp
  next
    case False
    then show ?thesis using nx on_path_top [OF less(2) False]
      by (intro exI [of _ l]) (subst mt_get_root_loop.simps, simp)
  qed
qed

lemma mt_get_root_eq:
  assumes "mt_rep mt xs" and "xs \<noteq> []"
  shows "mt_get_root (Some mt) True = Inr (MT_SUCCESS, merkle_root node_hash xs)"
proof -
  note rep = mt_rep_bounds [OF assms(1)]
  have "on_path xs 0 0 0" using assms(2) rep by (intro on_path_start) auto
  from mt_get_root_loop_ok [OF rep(3) this] obtain L where top: "is_top xs L"
    and loop: "mt_get_root_loop mt 0 = Inr L" by auto
  have "L < 30" using top by (simp add: is_top_def)
  then obtain al where "lev mt L = Inr al" "mt_al_fetch al 0 = Inr (Some (slevel node_hash xs L ! 0))"
    using lev_fetch [OF rep(3), of L 0] top_root(2) [OF top] by auto
  then show ?thesis using loop top_root(1) [OF top] by (simp add: mt_get_root_def)
qed

section \<open>Updating a leaf\<close>

definition mixed :: "byte list list \<Rightarrow> byte list list \<Rightarrow> nat \<Rightarrow> nat \<Rightarrow> byte list list" where
  "mixed ys xs l m = (if m \<le> l then slevel node_hash ys m else slevel node_hash xs m)"

lemma slevel_length_eq: "length xs = length ys \<Longrightarrow> length (slevel H xs l) = length (slevel H ys l)"
  by (cases l) (simp_all add: vlevel_length_eq [of xs ys])

lemma path_hash_update: "i < length xs \<Longrightarrow> path_hash H (xs[i := x]) i x l = path_hash H xs i x l"
  using path_hash_self [of i "xs[i := x]" H l] by (simp add: vlevel_update index_in_vlevel)

lemma above_top:
  assumes "is_top ys l" and "l < m" and "length xs = length ys"
  shows "slevel node_hash xs m = []"
proof -
  have one: "length (vlevel node_hash ys (l + k)) = 1" for k
    using assms(1) by (induction k) (auto simp: is_top_def)
  obtain k where "m = Suc (l + k)" using assms(2) less_imp_Suc_add by blast
  then have "length (slevel node_hash ys m) = 0" using one [of k] by simp
  then show ?thesis using slevel_length_eq [OF assms(3), of node_hash m] by simp
qed

lemma mt_update_loop_ok:
  assumes "hash32 x" and "i < length xs" and "ys = xs[i := x]"
  shows "on_path ys i q l \<Longrightarrow> levels_are mt (mixed ys xs l) \<Longrightarrow> \<exists>mt' L. is_top ys L \<and>
    mt_update_loop mt (path_hash node_hash ys i x l) q l
      = Inr (MT_SUCCESS, mt', path_hash node_hash ys i x L, 0, L)
    \<and> levels_are mt' (slevel node_hash ys) \<and> mt_elems mt' = mt_elems mt"
proof (induction "29 - l" arbitrary: l q mt rule: less_induct)
  case less
  have len: "length xs = length ys" by (simp add: assms(3))
  have nx: "hasNextLevelExceptRoot mt l = Inr (2 \<le> length (vlevel node_hash ys l))"
    by (rule on_path_next [OF less(2,3)]) (use slevel_length_eq [OF len, of node_hash "Suc l"] in \<open>simp add: mixed_def del: slevel.simps\<close>)
  show ?case
  proof (cases "2 \<le> length (vlevel node_hash ys l)")
    case True
    let ?d = "path_hash node_hash ys i x (Suc l)"
    note st = on_path_step [OF less(2) True]
    have step: "mt_path_step mt (path_hash node_hash ys i x l) q l = Inr (MT_SUCCESS, ?d)"
      by (rule on_path_hash [OF less(2) True less(3) _ assms(1)]) (simp add: mixed_def)
    have d: "hash32 ?d" by (rule path_hash_ok) (use less(2) assms(1) in \<open>simp_all add: on_path_def\<close>)
    obtain a where a: "lev mt (Suc l) = Inr (Some a)" "al_inv a" "al_hashes a = slevel node_hash xs (Suc l)"
      using lev_ok [OF less(3), of "Suc l"] st(2) by (auto simp: mixed_def)
    obtain a' where a': "mt_al_update_if_exists (Some a) (Some ?d) (drop_bit 1 q) = Inr (MT_SUCCESS, Some a')"
      "al_inv a'" "al_hashes a' = (slevel node_hash xs (Suc l))[unat (drop_bit 1 q) := ?d]"
      using al.update_if_exists_law [OF a(2) d] a(3) by metis
    have "unat (drop_bit 1 q) = i div 2 ^ Suc l" using st(1) by (simp only: on_path_def)
    then have new: "al_hashes a' = slevel node_hash ys (Suc l)"
      using a'(3) slevel_update [OF assms(2), of node_hash x "Suc l"] path_hash_update [OF assms(2)] assms(3)
      by (simp only:)
    have "levels_are (set_lev mt (Suc l) (Some a')) (mixed ys xs (Suc l))"
      by (rule levels_are_set [OF less(3) _ a'(2)])
        (use st(2) in \<open>auto simp: mixed_def new le_Suc_eq simp del: slevel.simps\<close>)
    with less(1) [OF _ st(1) this] st(2) show ?thesis
      using nx True step a(1) a'(1)
      by (subst mt_update_loop.simps) (simp del: path_hash.simps)
  next
    case False
    note top = on_path_top [OF less(2) False]
    have "levels_are mt (slevel node_hash ys)"
      using less(3) above_top [OF top(1)] len by (elim levels_are_cong) (simp add: mixed_def)
    then show ?thesis using nx False top
      by (intro exI [of _ mt] exI [of _ l]) (subst mt_update_loop.simps, simp)
  qed
qed

lemma mt_update_ok:
  assumes "mt_rep mt xs" and "unat off < length xs" and "tag_ok tag len"
  shows "\<exists>mt'. mt_update (Some mt) (Some tag) len off = Inr (MT_SUCCESS, Some mt')
    \<and> mt_rep mt' (xs[unat off := pad_tag tag len])"
proof -
  note rep = mt_rep_bounds [OF assms(1)]
  let ?x = "pad_tag tag len" and ?i = "unat off"
  define ys where "ys = xs[?i := ?x]"
  have x: "hash32 ?x" using assms(3) by simp
  have ok: "list_all hash32 ys" using rep(2) x assms(2) by (auto simp: ys_def list_all_length nth_list_update)
  have path: "on_path ys ?i off 0" using assms(2) rep ok by (intro on_path_start) (auto simp: ys_def)
  obtain a where a: "lev mt 0 = Inr (Some a)" "al_inv a" "al_hashes a = xs"
    using lev_ok [OF rep(3), of 0] by auto
  obtain a' where a': "mt_al_update (Some a) (Some ?x) off = Inr (MT_SUCCESS, Some a')" "al_inv a'"
    "al_hashes a' = ys"
    using al.update_law [OF a(2) _ x, of off] assms(2) a(3) by (auto simp: ys_def)
  have "levels_are (set_lev mt 0 (Some a')) (mixed ys xs 0)"
    by (rule levels_are_set [OF rep(3) _ a'(2)]) (auto simp: mixed_def a'(3))
  from mt_update_loop_ok [OF x assms(2) ys_def path this] obtain mt' L where top: "is_top ys L"
    and loop: "mt_update_loop (set_lev mt 0 (Some a')) ?x off 0
      = Inr (MT_SUCCESS, mt', path_hash node_hash ys ?i ?x L, 0, L)"
    and lv: "levels_are mt' (slevel node_hash ys)" and el: "mt_elems mt' = mt_elems mt"
    by auto
  have "ys[?i := ?x] = ys" by (simp add: ys_def)
  then have root: "merkle_root node_hash ys = Some (path_hash node_hash ys ?i ?x L)"
    using top_root_update [OF top, of ?i ?x] assms(2) by (simp add: ys_def)
  have "mt_rep mt' ys" using assms(1) lv el ok by (simp add: mt_rep_def ys_def)
  then show ?thesis
    using assms(2,3) a(1) a'(1) loop mt_root_matches_top [OF lv top refl] root
    by (simp add: mt_update_def rep(4) mt_init_hash_ok ys_def [symmetric]) (simp add: tag_ok_def)
qed

section \<open>Adding a leaf\<close>

lemma take_snoc_update: "length xs \<le> n + 1 \<Longrightarrow> n \<le> length xs \<Longrightarrow>
  (if n = length xs then xs @ [d] else xs[n := d]) = take n xs @ [d]"
  by (auto simp: upd_conv_take_nth_drop)

lemma path_hash_add:
  fixes xs :: "'h list"
  defines "n \<equiv> length xs"
  shows "odd (n div 2 ^ l) \<Longrightarrow> path_hash H (xs @ [x]) n x (Suc l) =
      H (vlevel H (xs @ [x]) l ! (n div 2 ^ l - 1)) (path_hash H (xs @ [x]) n x l)"
    and "even (n div 2 ^ l) \<Longrightarrow> path_hash H (xs @ [x]) n x (Suc l) = path_hash H (xs @ [x]) n x l"
proof -
  have "length (vlevel H (xs @ [x]) l) = n div 2 ^ l + 1"
    using vlevel_length_bounds(1) [where xs = xs and l = l and H = H] by (simp add: vlevel_append n_def)
  then show "even (n div 2 ^ l) \<Longrightarrow> path_hash H (xs @ [x]) n x (Suc l) = path_hash H (xs @ [x]) n x l"
    by (simp add: Let_def)
qed (simp add: Let_def)

lemma mt_add_right_ok:
  assumes "levels_are mt (mixed (xs @ [x]) xs l)" and "l < 29" and "length xs < 2 ^ 26"
    and "list_all hash32 xs" and "hash32 x" and "unat q = length xs div 2 ^ l" and "odd (unat q)"
  shows "\<exists>mt'. mt_add_right (\<lambda>_. True) mt (path_hash node_hash (xs @ [x]) (length xs) x l) q l
      = Inr (MT_SUCCESS, mt', path_hash node_hash (xs @ [x]) (length xs) x (Suc l))
    \<and> levels_are mt' (mixed (xs @ [x]) xs (Suc l)) \<and> mt_elems mt' = mt_elems mt"
proof -
  let ?ys = "xs @ [x]" and ?n = "length xs"
  let ?d = "path_hash node_hash ?ys ?n x" and ?v = "vlevel node_hash ?ys l"
  have ok: "list_all hash32 ?ys" using assms(4,5) by simp
  have d: "hash32 (?d m)" for m by (rule path_hash_ok) (use ok assms(5) in auto)
  have q1: "unat (q - 1) = unat q - 1" using assms(7) by (metis odd_pos unat_minus_one unat_0 less_irrefl)
  have "length xs div 2 ^ l \<le> length ?ys div 2 ^ l" by (intro div_le_mono) simp
  then have st: "unat q - 1 < length (slevel node_hash ?ys l)"
    using full_nodes_stored [of ?ys l node_hash] assms(6) odd_pos [OF assms(7)] by linarith
  obtain al where al: "lev mt l = Inr al" "mt_al_fetch al (q - 1) = Inr (Some (?v ! (unat q - 1)))"
    using lev_fetch [OF assms(1), of l "q - 1"] assms(2) st q1 slevel_nth [OF st] by (auto simp: mixed_def)
  have left: "hash32 (?v ! (unat q - 1))"
    by (rule sha_tree.vlevel_nth_ok [OF ok]) (use st slevel_le [of node_hash ?ys l] in linarith)
  have hash: "mt_hash_into (Some (?v ! (unat q - 1))) (Some (?d l)) (?d l) = Inr (MT_SUCCESS, ?d (Suc l))"
    using left d [of l] path_hash_add(1) [of xs l node_hash x] assms(6,7) by (simp del: path_hash.simps)
  note od = assms(7) [unfolded assms(6)]
  have app: "slevel node_hash ?ys (Suc l) = take (unat q div 2) (slevel node_hash xs (Suc l)) @ [?d (Suc l)]"
    "unat q div 2 \<le> length (slevel node_hash xs (Suc l))"
    "length (slevel node_hash xs (Suc l)) \<le> unat q div 2 + 1"
    using slevel_append_odd [OF od] unfolding div_Suc_level assms(6) by blast+
  obtain a where a: "lev mt (Suc l) = Inr (Some a)" "al_inv a" "al_hashes a = slevel node_hash xs (Suc l)"
    using lev_ok [OF assms(1), of "Suc l"] assms(2) by (auto simp: mixed_def)
  have off: "unat (drop_bit 1 q) = unat q div 2" by (rule unat_shiftr1)
  have "unat q div 2 < 2 ^ 26"
    using assms(3,6) div_le_dividend [of ?n "2 ^ l"] by linarith
  then obtain a' where a': "mt_al_add_or_update True (Some a) (Some (?d (Suc l))) (drop_bit 1 q)
      = Inr (MT_SUCCESS, Some a')" "al_inv a'" "al_hashes a' = slevel node_hash ?ys (Suc l)"
    using al.add_or_update_law [OF a(2), of "drop_bit 1 q", OF _ _ d [of "Suc l"]]
    unfolding a(3) off take_snoc_update [OF app(3,2)] app(1) using app(2) by blast
  have "levels_are (set_lev mt (Suc l) (Some a')) (mixed ?ys xs (Suc l))"
    by (rule levels_are_set [OF assms(1) _ a'(2)])
      (use assms(2) in \<open>auto simp: mixed_def a'(3) le_Suc_eq simp del: slevel.simps\<close>)
  then show ?thesis using al hash a(1) a'(1)
    by (simp add: mt_add_right_def del: path_hash.simps)
qed

lemma mixed_append_even:
  assumes "even (length xs div 2 ^ l)"
  shows "mixed (xs @ [x]) xs l = mixed (xs @ [x]) xs (Suc l)"
  using slevel_append_even [OF assms, of node_hash x]
  by (auto simp: mixed_def le_Suc_eq fun_eq_iff simp del: slevel.simps)

lemma mixed_append_done:
  assumes "length xs div 2 ^ l = 0"
  shows "mixed (xs @ [x]) xs l m = slevel node_hash (xs @ [x]) m"
proof (cases "m \<le> l")
  case False
  then obtain k where m: "m = Suc k" and "l \<le> k" by (cases m) auto
  then have "length xs div 2 ^ k \<le> length xs div 2 ^ l" by (intro div_le_mono2) (auto intro: power_increasing)
  then have "even (length xs div 2 ^ k)" using assms by simp
  from slevel_append_even [OF this, of node_hash x] False show ?thesis by (simp add: mixed_def m)
qed (simp add: mixed_def)

lemma mt_add_loop_ok:
  assumes "length xs < 2 ^ 26" and "list_all hash32 xs" and "hash32 x" and "ys = xs @ [x]"
  shows "unat q = length xs div 2 ^ l \<Longrightarrow> levels_are mt (mixed ys xs l) \<Longrightarrow>
    0 < unat q \<or> slevel node_hash ys l \<noteq> [] \<and> l < 30 \<Longrightarrow>
    \<exists>mt' L. mt_add_loop (\<lambda>_. True) mt (path_hash node_hash ys (length xs) x l) q l
        = Inr (MT_SUCCESS, mt', path_hash node_hash ys (length xs) x L, 0, L)
      \<and> levels_are mt' (slevel node_hash ys) \<and> mt_elems mt' = mt_elems mt
      \<and> L < 30 \<and> length xs div 2 ^ L = 0 \<and> slevel node_hash ys L \<noteq> []"
proof (induction "30 - l" arbitrary: l q mt rule: less_induct)
  case less
  let ?d = "path_hash node_hash ys (length xs) x"
  show ?case
  proof (cases "unat q = 0")
    case True
    then have "levels_are mt (slevel node_hash ys)"
      using less(2,3) mixed_append_done [of xs l x] assms(4) by (elim levels_are_cong) simp
    moreover have "q = 0" using True by (simp add: unat_eq_zero)
    ultimately show ?thesis using True less(2,4)
      by (intro exI [of _ mt] exI [of _ l]) (subst mt_add_loop.simps, simp)
  next
    case False
    have "2 ^ l \<le> length xs" using False less(2) by (metis div_less not_le)
    then have "(2::nat) ^ l < 2 ^ 26" using assms(1) by linarith
    then have l: "l < 26" using power_less_imp_less_exp [of "2::nat" l 26] by simp
    have gt: "q > 0" using False by (simp add: word_gt_0 unat_eq_zero)
    have q': "unat (drop_bit 1 q) = length xs div 2 ^ Suc l" using less(2) by (simp only: unat_shiftr1 div_Suc_level)
    have "\<exists>mt1. (if mt_right q then mt_add_right (\<lambda>_. True) mt (?d l) q l else Inr (MT_SUCCESS, mt, ?d l))
        = Inr (MT_SUCCESS, mt1, ?d (Suc l)) \<and> levels_are mt1 (mixed ys xs (Suc l))
      \<and> mt_elems mt1 = mt_elems mt"
    proof (cases "odd (unat q)")
      case True
      then have "mt_right q" by (simp add: mt_right_def and_1_odd)
      with mt_add_right_ok [OF less(3) [unfolded assms(4)] _ assms(1-3) less(2) True] l assms(4)
      show ?thesis by (simp del: path_hash.simps)
    next
      case ev: False
      then have "\<not> mt_right q" by (simp add: mt_right_def and_1_odd)
      with ev less(2,3) path_hash_add(2) [of xs l node_hash x] mixed_append_even [of xs l x] assms(4)
      show ?thesis by (simp del: path_hash.simps)
    qed
    then obtain mt1 where mt1: "(if mt_right q then mt_add_right (\<lambda>_. True) mt (?d l) q l
        else Inr (MT_SUCCESS, mt, ?d l)) = Inr (MT_SUCCESS, mt1, ?d (Suc l))"
      "levels_are mt1 (mixed ys xs (Suc l))" "mt_elems mt1 = mt_elems mt" by blast
    have "0 < unat (drop_bit 1 q) \<or> slevel node_hash ys (Suc l) \<noteq> [] \<and> Suc l < 30"
    proof (cases "odd (unat q)")
      case True
      with slevel_append_odd(1) [of xs l node_hash x] less(2) l assms(4) show ?thesis by simp
    next
      case ev: False
      then have "unat q div 2 \<noteq> 0" using False by auto
      then show ?thesis by (simp only: unat_shiftr1) simp
    qed
    from less(1) [OF _ q' mt1(2) this] l show ?thesis
      by (subst mt_add_loop.simps) (simp add: gt mt1 del: path_hash.simps)
  qed
qed

text \<open>\<open>mt_add\<close> after the leaf has been stored and counted: \<open>mt1\<close> is the structure at that point.\<close>

definition mt_add_up :: "(nat \<Rightarrow> bool) \<Rightarrow> mt_t \<Rightarrow> byte list \<Rightarrow> (mt_error \<times> mt_t option) res" where
  "mt_add_up ok mt1 x = (if mt_elems mt1 = 1 then Inr (MT_SUCCESS, Some mt1)
     else bindE (mt_add_loop ok mt1 x (mt_elems mt1 - 1) 0) (\<lambda>(r, mt3, d, q, l).
       if r \<noteq> MT_SUCCESS then Inr (r, Some mt3)
       else bindE (mt_root_matches mt3 d q l) (\<lambda>same.
         if same then Inr (MT_SUCCESS, Some mt3) else Inl AssertFail)))"

lemma mt_add_leaf:
  assumes "mt_rep mt xs" and "length xs < 2 ^ 26" and "tag_ok tag len" and "ok 0"
  obtains mt1 where "mt_add ok (Some mt) (Some tag) len = mt_add_up ok mt1 (pad_tag tag len)"
    and "levels_are mt1 (mixed (xs @ [pad_tag tag len]) xs 0)" and "unat (mt_elems mt1) = length xs + 1"
    and "mt_elems mt1 - 1 = mt_elems mt"
proof -
  note rep = mt_rep_bounds [OF assms(1)]
  let ?x = "pad_tag tag len"
  obtain a where a: "lev mt 0 = Inr (Some a)" "al_inv a" "al_hashes a = xs"
    using lev_ok [OF rep(3), of 0] by auto
  obtain a' where a': "mt_al_add True (Some a) (Some ?x) = Inr (MT_SUCCESS, Some a')" "al_inv a'"
    "al_hashes a' = xs @ [?x]"
    using al.add_law [OF a(2), of ?x] assms(2,3) a(3) by auto
  define mt1 where "mt1 = (set_lev mt 0 (Some a'))\<lparr>mt_elems := mt_elems mt + 1\<rparr>"
  have "levels_are (set_lev mt 0 (Some a')) (mixed (xs @ [?x]) xs 0)"
    by (rule levels_are_set [OF rep(3) _ a'(2)]) (auto simp: mixed_def a'(3))
  then have "levels_are mt1 (mixed (xs @ [?x]) xs 0)" by (simp add: mt1_def levels_are_def level_is_def)
  moreover have "unat (mt_elems mt1) = length xs + 1"
    using assms(1,2) by (simp add: mt1_def mt_rep_def unat_add_no_wrap)
  moreover have "mt_add ok (Some mt) (Some tag) len = mt_add_up ok mt1 ?x"
    using a(1) a'(1) assms(3,4)
    by (simp add: mt_add_def mt_add_up_def mt_init_hash_ok mt1_def Let_def) (simp add: tag_ok_def)
  ultimately show thesis using that [of mt1] by (simp add: mt1_def)
qed

lemma mt_add_up_ok:
  assumes "levels_are mt1 (mixed ys xs 0)" and "ys = xs @ [x]" and "unat (mt_elems mt1) = length xs + 1"
    and "unat (mt_elems mt1 - 1) = length xs"
    and "length xs < 2 ^ 26" and "list_all hash32 xs" and "hash32 x"
  shows "\<exists>mt'. mt_add_up (\<lambda>_. True) mt1 x = Inr (MT_SUCCESS, Some mt') \<and> mt_rep mt' ys"
proof -
  have repI: "mt_rep mt' ys" if "levels_are mt' (slevel node_hash ys)" "mt_elems mt' = mt_elems mt1" for mt'
    using that assms by (simp add: mt_rep_def)
  show ?thesis
  proof (cases "xs = []")
    case True
    then have "mt_elems mt1 = 1" using assms(3) by (simp add: word_unat_eq_iff)
    moreover have "levels_are mt1 (slevel node_hash ys)"
      using assms(1,2) True mixed_append_done [of xs 0 x] by (elim levels_are_cong) simp
    ultimately show ?thesis using repI [of mt1] by (simp add: mt_add_up_def)
  next
    case False
    then have ne: "mt_elems mt1 \<noteq> 1" using assms(3) by auto
    obtain mt' L where loop: "mt_add_loop (\<lambda>_. True) mt1 x (mt_elems mt1 - 1) 0
        = Inr (MT_SUCCESS, mt', path_hash node_hash ys (length xs) x L, 0, L)"
      and lv': "levels_are mt' (slevel node_hash ys)" and el': "mt_elems mt' = mt_elems mt1"
      and L: "L < 30" "length xs div 2 ^ L = 0" "slevel node_hash ys L \<noteq> []"
      using mt_add_loop_ok [OF assms(5-7,2) _ assms(1), of "mt_elems mt1 - 1"] assms(4) False by auto
    have "path_hash node_hash ys (length xs) x L = slevel node_hash ys L ! 0"
      using path_hash_self [of "length xs" ys node_hash L] L slevel_nth [of 0 node_hash ys L] assms(2)
      by (simp del: slevel.simps)
    then have "mt_root_matches mt' (path_hash node_hash ys (length xs) x L) 0 L = Inr True"
      using lev_fetch [OF lv' L(1), of 0] L(3) by (auto simp: mt_root_matches_def)
    then show ?thesis using ne loop repI [OF lv' el'] by (simp add: mt_add_up_def)
  qed
qed

lemma mt_add_ok:
  assumes "mt_rep mt xs" and "length xs < 2 ^ 26" and "tag_ok tag len"
  shows "\<exists>mt'. mt_add (\<lambda>_. True) (Some mt) (Some tag) len = Inr (MT_SUCCESS, Some mt')
    \<and> mt_rep mt' (xs @ [pad_tag tag len])"
proof -
  obtain mt1 where mt1: "mt_add (\<lambda>_. True) (Some mt) (Some tag) len = mt_add_up (\<lambda>_. True) mt1 (pad_tag tag len)"
    "levels_are mt1 (mixed (xs @ [pad_tag tag len]) xs 0)" "unat (mt_elems mt1) = length xs + 1"
    "mt_elems mt1 - 1 = mt_elems mt"
    using mt_add_leaf [OF assms, of "\<lambda>_. True"] by auto
  have "unat (mt_elems mt1 - 1) = length xs" using mt1(4) assms(1) by (simp add: mt_rep_def)
  with mt_add_up_ok [OF mt1(2) refl mt1(3)] mt1(1) assms mt_rep_bounds(2) [OF assms(1)]
  show ?thesis by simp
qed

section \<open>Creating and deleting\<close>

lemma mt_delete_levels_ok: "(\<And>al. al \<in> set als \<Longrightarrow> \<exists>a. al = Some a \<and> al_inv a) \<Longrightarrow> mt_delete_levels als = Inr ()"
proof (induction als)
  case (Cons al als)
  then obtain a where "al = Some a" "al_inv a" by (meson list.set_intros(1))
  with Cons show ?case by (simp add: al_inv_delete)
qed simp

definition al_new :: mt_al_t where
  "al_new = \<lparr>elems = 0, store = Null\<rparr>"

lemma al_new_inv [simp]: "al_inv al_new" "al_hashes al_new = []"
  by (simp_all add: al_new_def al_inv_empty al_hashes_empty)

lemma mt_create_levels_eq:
  "mt_create_levels oks (replicate n (Some al_new)) =
     Inr (if list_all id oks then Some (replicate (n + length oks) (Some al_new)) else None)"
proof (induction oks arbitrary: n)
  case (Cons ok oks)
  have "mt_delete_levels (replicate n (Some al_new)) = Inr ()" by (rule mt_delete_levels_ok) auto
  moreover have "replicate n (Some al_new) @ [Some al_new] = replicate (Suc n) (Some al_new)"
    by (simp add: replicate_append_same)
  ultimately show ?case using Cons [of "Suc n"]
    by (simp add: mt_al_create_def al_new_def [symmetric] del: replicate_Suc)
qed simp

definition mt_new :: mt_t where
  "mt_new = \<lparr>mt_elems = 0, level = replicate 30 (Some al_new)\<rparr>"

lemma mt_create_eq: "mt_create ok oks = Inr (if ok \<and> (\<forall>l<30. oks l) then Some mt_new else None)"
proof -
  have all: "list_all id (map oks [0..<30]) = (\<forall>l<30. oks l)" by (auto simp: list_all_iff)
  have "mt_create_levels (map oks [0..<30]) [] =
      Inr (if \<forall>l<30. oks l then Some (replicate 30 (Some al_new)) else None)"
    using mt_create_levels_eq [of "map oks [0..<30]" 0] unfolding all by simp
  then show ?thesis unfolding mt_create_def unat_TREE_LEVELS mt_new_def
    by (cases "\<forall>l<30. oks l") auto
qed

lemma slevel_Nil: "slevel H [] l = []"
proof (cases l)
  case (Suc k)
  then show ?thesis using slevel_length_bound [of H "[]" l] by simp
qed simp

lemma mt_new_rep: "mt_rep mt_new []"
  by (simp add: mt_rep_def mt_new_def levels_are_def level_is_def slevel_Nil)

lemma mt_delete_ok:
  assumes "mt_rep mt xs"
  shows "mt_delete (Some mt) = Inr ()"
proof -
  note lv = mt_rep_bounds(3) [OF assms]
  have "\<exists>a. al = Some a \<and> al_inv a" if "al \<in> set (level mt)" for al
    using that lv by (auto simp: levels_are_def level_is_def in_set_conv_nth split: option.splits)
  then show ?thesis using lv mt_delete_levels_ok [of "level mt"] by (simp add: mt_delete_def levels_are_def)
qed

section \<open>Refused requests and the capacity\<close>

lemma mt_get_size_eq: "mt_rep mt xs \<Longrightarrow> mt_get_size (Some mt) = Inr (mt_elems mt)"
  using lev_size [OF mt_rep_bounds(3), of mt xs 0]
  by (auto simp: mt_get_size_def mt_rep_def word_unat_eq_iff)

lemma mt_exists_eq:
  assumes "mt_rep mt xs"
  shows "mt_exists (Some mt) off =
    Inr (if off > MT_AL_MAX_ELEMS then -2 else if unat off < length xs then 1 else 0)"
proof -
  obtain a where a: "lev mt 0 = Inr (Some a)" "al_inv a" "al_hashes a = xs"
    using lev_ok [OF mt_rep_bounds(3) [OF assms], of 0] by auto
  have "elems a < MT_AL_MAX_ELEMS" using elems_below_max [OF al_inv_le [OF a(2)]] .
  moreover have "(off < elems a) = (unat off < length xs)"
    using a(3) by (auto simp: word_less_nat_alt)
  ultimately show ?thesis using a(1) by (simp add: mt_exists_def mt_al_get_def)
qed

text \<open>A full tree loses its leaves when one more is added.\<close>

lemma mt_add_full:
  assumes "mt_rep mt xs" and "length xs = 2 ^ 26" and "tag_ok tag len"
  shows "\<exists>mt' a. mt_add ok (Some mt) (Some tag) len = Inr (MT_ERR_OUT_OF_MEMORY, Some mt')
    \<and> level mt' ! 0 = Some (a\<lparr>store := Freed\<rparr>) \<and> unat (elems a) = 2 ^ 26 \<and> mt_elems mt' = mt_elems mt
    \<and> length (level mt') = 30"
proof -
  note lv = mt_rep_bounds(3) [OF assms(1)]
  obtain a where a: "lev mt 0 = Inr (Some a)" "al_inv a" "al_hashes a = xs"
    using lev_ok [OF lv, of 0] by auto
  have n: "unat (elems a) = 2 ^ 26" using a(3) assms(2) al_hashes_length [of a] by simp
  show ?thesis
    using a(1) mt_al_add_full [OF a(2) n] assms(3) lv n
    by (intro exI [of _ "set_lev mt 0 (Some (a\<lparr>store := Freed\<rparr>))"] exI [of _ a])
      (auto simp: mt_add_def mt_init_hash_ok tag_ok_def set_lev_def levels_are_def)
qed

text \<open>
  A tree with one leaf, when the allocator grants the room for the second leaf and refuses the node
  above the two: the leaf stays, the node is missing.
\<close>

lemma mt_add_refused_node:
  assumes "mt_rep mt [x]" and "tag_ok tag len"
  shows "\<exists>mt'. mt_add (\<lambda>l. l = 0) (Some mt) (Some tag) len = Inr (MT_ERR_OUT_OF_MEMORY, Some mt')
    \<and> mt_elems mt' = 2 \<and> levels_are mt' (\<lambda>l. if l = 0 then [x, pad_tag tag len] else [])"
proof -
  let ?y = "pad_tag tag len"
  have ok: "hash32 x" "hash32 ?y" using mt_rep_bounds(2) [OF assms(1)] assms(2) by auto
  obtain mt1 where mt1: "mt_add (\<lambda>l. l = 0) (Some mt) (Some tag) len = mt_add_up (\<lambda>l. l = 0) mt1 ?y"
    "levels_are mt1 (mixed ([x] @ [?y]) [x] 0)" "unat (mt_elems mt1) = length [x] + 1"
    using mt_add_leaf [OF assms(1) _ assms(2), of "\<lambda>l. l = 0"] by auto
  have el: "mt_elems mt1 = 2" using mt1(3) by (simp add: word_unat_eq_iff)
  have top: "slevel node_hash [x] l = []" if "0 < l" for l
    using above_top [of "[x]" 0 l "[x]"] that by (simp add: is_top_def)
  define f where "f = (\<lambda>l::nat. if l = 0 then [x, ?y] else [])"
  have lv: "levels_are mt1 f"
    using mt1(2) by (elim levels_are_cong) (simp add: f_def mixed_def top)
  obtain a0 where a0: "lev mt1 0 = Inr a0" "mt_al_fetch a0 0 = Inr (Some x)"
    using lev_fetch [OF lv, of 0 0] by (auto simp: f_def)
  obtain a where a: "lev mt1 1 = Inr (Some a)" "al_inv a" "al_hashes a = []"
    using lev_ok [OF lv, of 1] by (auto simp: f_def)
  have e0: "elems a = 0" using a(3) al_hashes_length [of a] by (simp add: unat_eq_zero)
  define a' where "a' = a\<lparr>store := Null\<rparr>"
  have refuse: "mt_al_add_or_update False (Some a) (Some d) 0 = Inr (MT_ERR_OUT_OF_MEMORY, Some a')" for d
    by (simp add: mt_al_add_or_update_def mt_al_add_def e0 malloc_def a'_def mt_al_consts)
  have "al_inv a'" "al_hashes a' = []" using e0 by (simp_all add: a'_def al_inv_empty al_hashes_empty)
  then have lv': "levels_are (set_lev mt1 1 (Some a')) f"
    by (intro levels_are_set [OF lv]) (auto simp: f_def)
  have "mt_add_loop (\<lambda>l. l = 0) mt1 ?y 1 0 =
      Inr (MT_ERR_OUT_OF_MEMORY, set_lev mt1 1 (Some a'), node_hash x ?y, 1, 0)"
    using a0 a(1) ok refuse by (subst mt_add_loop.simps)
      (simp add: mt_right_def mt_add_right_def)
  then have "mt_add_up (\<lambda>l. l = 0) mt1 ?y = Inr (MT_ERR_OUT_OF_MEMORY, Some (set_lev mt1 1 (Some a')))"
    by (simp add: mt_add_up_def el)
  then show ?thesis using mt1(1) lv' el by (auto simp: f_def)
qed

section \<open>Sequences of operations\<close>

datatype tree_op = Add "byte list" u64 | Update "byte list" u64 u32

text \<open>What a sequence of operations does to the structure, up to the first error, and to the list of leaves.\<close>

fun mt_run :: "tree_op list \<Rightarrow> mt_t option \<Rightarrow> (mt_error \<times> mt_t option) res" where
  "mt_run [] mt = Inr (MT_SUCCESS, mt)"
| "mt_run (p # ops) mt =
     bindE (case p of Add tag len \<Rightarrow> mt_add (\<lambda>_. True) mt (Some tag) len
                    | Update tag len off \<Rightarrow> mt_update mt (Some tag) len off)
       (\<lambda>(r, mt'). if r \<noteq> MT_SUCCESS then Inr (r, mt') else mt_run ops mt')"

fun leaves_step :: "tree_op \<Rightarrow> byte list list \<Rightarrow> byte list list option" where
  "leaves_step (Add tag len) xs =
     (if length xs < 2 ^ 26 \<and> tag_ok tag len then Some (xs @ [pad_tag tag len]) else None)"
| "leaves_step (Update tag len off) xs =
     (if unat off < length xs \<and> tag_ok tag len then Some (xs[unat off := pad_tag tag len]) else None)"

fun leaves_run :: "tree_op list \<Rightarrow> byte list list \<Rightarrow> byte list list option" where
  "leaves_run [] xs = Some xs"
| "leaves_run (p # ops) xs = (case leaves_step p xs of None \<Rightarrow> None | Some ys \<Rightarrow> leaves_run ops ys)"

lemma mt_run_ok:
  "mt_rep mt xs \<Longrightarrow> leaves_run ops xs = Some ys \<Longrightarrow>
     \<exists>mt'. mt_run ops (Some mt) = Inr (MT_SUCCESS, Some mt') \<and> mt_rep mt' ys"
proof (induction ops arbitrary: mt xs)
  case (Cons p ops)
  then obtain zs where zs: "leaves_step p xs = Some zs" "leaves_run ops zs = Some ys"
    by (auto split: option.splits)
  have "\<exists>mt1. (case p of Add tag len \<Rightarrow> mt_add (\<lambda>_. True) (Some mt) (Some tag) len
      | Update tag len off \<Rightarrow> mt_update (Some mt) (Some tag) len off) = Inr (MT_SUCCESS, Some mt1)
    \<and> mt_rep mt1 zs"
    using zs(1) Cons(2) mt_add_ok mt_update_ok by (cases p) (auto split: if_splits)
  with Cons(1) zs(2) show ?case by fastforce
qed simp

text \<open>Every list of up to \<open>2 ^ 26\<close> hashes is represented by a tree.\<close>

lemma mt_rep_exists: "list_all hash32 xs \<Longrightarrow> length xs \<le> 2 ^ 26 \<Longrightarrow> \<exists>mt. mt_rep mt xs"
proof (induction xs rule: rev_induct)
  case Nil
  show ?case using mt_new_rep by blast
next
  case (snoc x xs)
  then obtain mt where mt: "mt_rep mt xs" by auto
  have "tag_ok x 32" "pad_tag x 32 = x" using snoc(2) by (simp_all add: tag_ok_def pad_tag_def)
  with mt_add_ok [OF mt _, of x 32] snoc(3) show ?case by auto
qed

section \<open>The interface to the store\<close>

text \<open>
  What the key-value store relies on: a list of 32-byte leaves that can be extended and changed, a
  root that depends on all of them, and a check of one leaf against that root. \<open>clash\<close> computes,
  from two lists with the same root, a pair that \<open>broken\<close> recognises as a failure of the hash.
\<close>

locale authenticated_list =
  fixes rep :: "'t \<Rightarrow> byte list list \<Rightarrow> bool" and capacity :: nat
    and usable :: "byte list \<Rightarrow> u64 \<Rightarrow> bool" and leaf :: "byte list \<Rightarrow> u64 \<Rightarrow> byte list"
    and root_of :: "byte list list \<Rightarrow> byte list option"
    and clash :: "byte list list \<Rightarrow> byte list list \<Rightarrow> 'p" and broken :: "'p \<Rightarrow> bool"
    and add :: "'t option \<Rightarrow> byte list option \<Rightarrow> u64 \<Rightarrow> (mt_error \<times> 't option) res"
    and update :: "'t option \<Rightarrow> byte list option \<Rightarrow> u64 \<Rightarrow> u32 \<Rightarrow> (mt_error \<times> 't option) res"
    and verify :: "'t option \<Rightarrow> byte list option \<Rightarrow> u64 \<Rightarrow> u32 \<Rightarrow> mt_error res"
  assumes add_law: "rep t xs \<Longrightarrow> length xs < capacity \<Longrightarrow> usable tag len \<Longrightarrow>
      \<exists>t'. add (Some t) (Some tag) len = Inr (MT_SUCCESS, Some t') \<and> rep t' (xs @ [leaf tag len])"
    and update_law: "rep t xs \<Longrightarrow> unat off < length xs \<Longrightarrow> usable tag len \<Longrightarrow>
      \<exists>t'. update (Some t) (Some tag) len off = Inr (MT_SUCCESS, Some t')
        \<and> rep t' (xs[unat off := leaf tag len])"
    and verify_law: "rep t xs \<Longrightarrow> unat off < length xs \<Longrightarrow> usable tag len \<Longrightarrow>
      verify (Some t) (Some tag) len off =
        Inr (if root_of (xs[unat off := leaf tag len]) = root_of xs then MT_SUCCESS else MT_ERR_ROOT_MISMATCH)"
    and binding: "rep t xs \<Longrightarrow> i < length xs \<Longrightarrow> usable tag len \<Longrightarrow>
      root_of (xs[i := leaf tag len]) = root_of xs \<Longrightarrow> leaf tag len \<noteq> xs ! i \<Longrightarrow>
      broken (clash xs (xs[i := leaf tag len]))"
begin

lemma verify_genuine:
  assumes "rep t xs" and "unat off < length xs" and "usable tag len" and "leaf tag len = xs ! unat off"
  shows "verify (Some t) (Some tag) len off = Inr MT_SUCCESS"
  using verify_law [OF assms(1-3)] assms(4) by simp

lemma verify_sound:
  assumes "rep t xs" and "unat off < length xs" and "usable tag len"
    and "verify (Some t) (Some tag) len off = Inr MT_SUCCESS"
  shows "leaf tag len = xs ! unat off \<or> broken (clash xs (xs[unat off := leaf tag len]))"
  using binding [OF assms(1-3)] verify_law [OF assms(1-3)] assms(4) by (auto split: if_splits)

text \<open>A leaf can be verified after it has been added, and a stale tag is refused after an update.\<close>

lemma verify_after_add:
  assumes "rep t xs" and "length xs < capacity" and "usable tag len" and "unat off = length xs"
  shows "\<exists>t'. add (Some t) (Some tag) len = Inr (MT_SUCCESS, Some t')
    \<and> verify (Some t') (Some tag) len off = Inr MT_SUCCESS"
proof -
  obtain t' where t': "add (Some t) (Some tag) len = Inr (MT_SUCCESS, Some t')" "rep t' (xs @ [leaf tag len])"
    using add_law [OF assms(1-3)] by blast
  with verify_genuine [OF t'(2) _ assms(3), of off] assms(4) show ?thesis by auto
qed

lemma stale_after_update:
  assumes "rep t xs" and "unat off < length xs" and "usable tag len" and "usable old olen"
    and "leaf old olen \<noteq> leaf tag len"
  shows "\<exists>t'. update (Some t) (Some tag) len off = Inr (MT_SUCCESS, Some t')
    \<and> (verify (Some t') (Some old) olen off = Inr MT_ERR_ROOT_MISMATCH
       \<or> broken (clash (xs[unat off := leaf tag len]) (xs[unat off := leaf old olen])))"
proof -
  obtain t' where t': "update (Some t) (Some tag) len off = Inr (MT_SUCCESS, Some t')"
    "rep t' (xs[unat off := leaf tag len])"
    using update_law [OF assms(1-3)] by blast
  have v: "verify (Some t') (Some old) olen off = Inr MT_SUCCESS
      \<or> verify (Some t') (Some old) olen off = Inr MT_ERR_ROOT_MISMATCH"
    using verify_law [OF t'(2) _ assms(4), of off] assms(2) by auto
  from verify_sound [OF t'(2) _ assms(4), of off] v assms(2,5) t'(1) show ?thesis by auto
qed

end

lemma mt_binding:
  assumes "mt_rep mt xs" and "i < length xs" and "tag_ok tag len"
    and "merkle_root node_hash (xs[i := pad_tag tag len]) = merkle_root node_hash xs"
    and "pad_tag tag len \<noteq> xs ! i"
  shows "sha256_collision (tree_collision xs (xs[i := pad_tag tag len]))"
proof (rule tree_binding)
  show ok: "list_all hash32 xs" by (rule mt_rep_bounds(2) [OF assms(1)])
  then show "list_all hash32 (xs[i := pad_tag tag len])"
    using assms(2,3) by (auto simp: list_all_length nth_list_update)
  show "xs \<noteq> xs[i := pad_tag tag len]" using assms(2,5) by (metis nth_list_update_eq)
qed (use assms in auto)

interpretation mtree: authenticated_list mt_rep "2 ^ 26" tag_ok pad_tag "merkle_root node_hash"
  tree_collision sha256_collision "mt_add (\<lambda>_. True)" mt_update mt_verify
  by unfold_locales (use mt_add_ok mt_update_ok mt_verify_eq mt_binding in blast)+

section \<open>A tree with two leaves\<close>

definition al_of :: "byte list list \<Rightarrow> mt_al_t" where
  "al_of hs = \<lparr>elems = of_nat (length hs), store = Block (map Some (concat hs))\<rparr>"

definition leaf_one :: "byte list" where "leaf_one = replicate 32 1"
definition leaf_two :: "byte list" where "leaf_two = replicate 32 2"

definition mt_two :: mt_t where
  "mt_two = \<lparr>mt_elems = 2, level = Some (al_of [leaf_one, leaf_two])
     # Some (al_of [node_hash leaf_one leaf_two]) # replicate 28 (Some al_new)\<rparr>"

lemma leaf_lengths [simp]: "hash32 leaf_one" "hash32 leaf_two"
  by (simp_all add: leaf_one_def leaf_two_def)

lemma al_of_one:
  assumes "hash32 h"
  shows "al_inv (al_of [h])" and "al_hashes (al_of [h]) = [h]"
proof -
  have rd: "bread (Block (map Some h)) 0 32 = Inr h" using assms by (simp add: o_def)
  have slot: "al_slot (al_of [h]) 0 = h" using rd by (simp add: al_slot_def al_of_def del: bread.simps)
  show "al_hashes (al_of [h]) = [h]" using slot by (simp add: al_hashes_def al_of_def)
  show "al_inv (al_of [h])"
    using assms rd slot by (simp add: al_inv_def al_of_def al_slot_ok_def round_next_power_two_def del: bread.simps)
qed

lemma al_of_two:
  assumes "hash32 g" and "hash32 h"
  shows "al_inv (al_of [g, h])" and "al_hashes (al_of [g, h]) = [g, h]"
proof -
  have rd: "bread (Block (map Some (g @ h))) 0 32 = Inr g" "bread (Block (map Some (g @ h))) 32 32 = Inr h"
    using assms by (simp_all add: o_def)
  have slot: "al_slot (al_of [g, h]) 0 = g" "al_slot (al_of [g, h]) (Suc 0) = h"
    using rd by (simp_all add: al_slot_def al_of_def del: bread.simps map_append)
  have up: "[0..<2] = [0, Suc 0]" by (simp add: upt_rec)
  show "al_hashes (al_of [g, h]) = [g, h]" using slot by (simp add: al_hashes_def al_of_def up)
  show "al_inv (al_of [g, h])"
    using assms rd slot
    by (simp add: al_inv_def al_of_def al_slot_ok_def round_next_power_two_def up del: bread.simps map_append)
qed

lemma mt_two_rep: "mt_rep mt_two [leaf_one, leaf_two]"
proof -
  have "slevel node_hash [leaf_one, leaf_two] (Suc (Suc l)) = []" for l
    by (rule above_top [of "[leaf_one, leaf_two]" 1]) (auto simp: is_top_def)
  then have "level_is mt_two l (slevel node_hash [leaf_one, leaf_two] l)" if "l < 30" for l
    using that al_of_one [of "node_hash leaf_one leaf_two"] al_of_two [of leaf_one leaf_two]
    by (cases l rule: nat.exhaust; cases "l - 1") (auto simp: level_is_def mt_two_def nth_Cons')
  then show ?thesis by (simp add: mt_rep_def mt_two_def levels_are_def)
qed

section \<open>Properties\<close>

text \<open>
  C5: \<open>mt_verify\<close> of a tree that stands for the leaves \<open>xs\<close> always returns, and it returns
  \<^verbatim>\<open>MT_SUCCESS\<close> exactly when putting the padded tag at the given offset leaves the root of the
  reference Merkle tree as it is; otherwise it returns \<^verbatim>\<open>MT_ERR_ROOT_MISMATCH\<close>.
\<close>

theorem mt_verify_decides_root:
  assumes "mt_rep mt xs" and "unat off < length xs" and "tag_ok tag len"
  shows "mt_verify (Some mt) (Some tag) len off =
    Inr (if merkle_root node_hash (xs[unat off := pad_tag tag len]) = merkle_root node_hash xs
         then MT_SUCCESS else MT_ERR_ROOT_MISMATCH)"
  by (rule mt_verify_eq [OF assms])

theorem mt_verify_decides_root_witness:
  "mt_rep mt_two [leaf_one, leaf_two]
   \<and> mt_verify (Some mt_two) (Some leaf_two) 32 1 = Inr MT_SUCCESS"
  using mt_verify_decides_root [OF mt_two_rep, of 1 leaf_two 32] mt_two_rep
  by (simp add: tag_ok_def pad_tag_def)

text \<open>
  C4: soundness of verification. When \<open>mt_verify\<close> accepts a tag at an offset, the padded tag is the
  leaf stored at that offset, or \<open>tree_collision\<close> computes two different messages with the same
  SHA-256 hash from the leaves and the tag.
\<close>

theorem mt_verify_sound:
  assumes "mt_rep mt xs" and "unat off < length xs" and "tag_ok tag len"
    and "mt_verify (Some mt) (Some tag) len off = Inr MT_SUCCESS"
  shows "pad_tag tag len = xs ! unat off
    \<or> sha256_collision (tree_collision xs (xs[unat off := pad_tag tag len]))"
  by (rule mtree.verify_sound [OF assms])

theorem mt_verify_sound_witness:
  "mt_verify (Some mt_two) (Some leaf_one) 32 0 = Inr MT_SUCCESS
   \<and> (pad_tag leaf_one 32 = leaf_one
      \<or> sha256_collision (tree_collision [leaf_one, leaf_two] ([leaf_one, leaf_two][0 := pad_tag leaf_one 32])))"
proof -
  have t: "tag_ok leaf_one 32" "pad_tag leaf_one 32 = leaf_one" by (simp_all add: tag_ok_def pad_tag_def)
  have v: "mt_verify (Some mt_two) (Some leaf_one) 32 0 = Inr MT_SUCCESS"
    using mtree.verify_genuine [OF mt_two_rep _ t(1), of 0] t(2) by simp
  from mt_verify_sound [OF mt_two_rep _ t(1) v] v show ?thesis by simp
qed

text \<open>
  C7: below \<open>2 ^ 26\<close> leaves and with an allocator that grants every request, \<open>mt_add\<close> succeeds (its
  closing assertion holds) and the structure then stands for the leaves with the padded tag appended.
\<close>

theorem mt_add_appends:
  assumes "mt_rep mt xs" and "length xs < 2 ^ 26" and "tag_ok tag len"
  shows "\<exists>mt'. mt_add (\<lambda>_. True) (Some mt) (Some tag) len = Inr (MT_SUCCESS, Some mt')
    \<and> mt_rep mt' (xs @ [pad_tag tag len])"
  by (rule mt_add_ok [OF assms])

theorem mt_add_appends_witness:
  "\<exists>mt'. mt_add (\<lambda>_. True) (Some mt_two) (Some [9, 9]) 2 = Inr (MT_SUCCESS, Some mt')
    \<and> mt_rep mt' [leaf_one, leaf_two, [9, 9] @ replicate 30 0]"
  using mt_add_appends [OF mt_two_rep, of "[9, 9]" 2] by (simp add: tag_ok_def pad_tag_def)

text \<open>
  C8: \<open>mt_update\<close> at an existing offset succeeds (its closing assertion holds) and the structure then
  stands for the leaves with the padded tag at that offset.
\<close>

theorem mt_update_replaces:
  assumes "mt_rep mt xs" and "unat off < length xs" and "tag_ok tag len"
  shows "\<exists>mt'. mt_update (Some mt) (Some tag) len off = Inr (MT_SUCCESS, Some mt')
    \<and> mt_rep mt' (xs[unat off := pad_tag tag len])"
  by (rule mt_update_ok [OF assms])

theorem mt_update_replaces_witness:
  "\<exists>mt'. mt_update (Some mt_two) (Some [9, 9]) 2 0 = Inr (MT_SUCCESS, Some mt')
    \<and> mt_rep mt' [[9, 9] @ replicate 30 0, leaf_two]"
  using mt_update_replaces [OF mt_two_rep, of 0 "[9, 9]" 2] by (simp add: tag_ok_def pad_tag_def)

text \<open>
  C10: \<open>mt_get_root\<close> of a non-empty tree returns the root of the reference Merkle tree over its leaves.
\<close>

theorem mt_get_root_is_merkle_root:
  assumes "mt_rep mt xs" and "xs \<noteq> []"
  shows "mt_get_root (Some mt) True = Inr (MT_SUCCESS, merkle_root node_hash xs)"
  by (rule mt_get_root_eq [OF assms])

theorem mt_get_root_is_merkle_root_witness:
  "mt_get_root (Some mt_two) True = Inr (MT_SUCCESS, Some (node_hash leaf_one leaf_two))"
  using mt_get_root_is_merkle_root [OF mt_two_rep] merkle_root_pair_up [of node_hash "[leaf_one, leaf_two]"]
  by simp

text \<open>
  C6: any sequence of additions and updates that is valid for the list of leaves, run on a freshly
  created tree, meets no error, assertion or memory fault; the tree then has the root of the
  reference tree over the resulting leaves, and deleting it frees every block once.
\<close>

theorem mt_run_refines:
  assumes "leaves_run ops [] = Some xs" and "xs \<noteq> []"
  shows "\<exists>mt mt'. mt_create True (\<lambda>_. True) = Inr (Some mt)
    \<and> mt_run ops (Some mt) = Inr (MT_SUCCESS, Some mt') \<and> mt_rep mt' xs
    \<and> mt_get_root (Some mt') True = Inr (MT_SUCCESS, merkle_root node_hash xs)
    \<and> mt_delete (Some mt') = Inr ()"
proof -
  obtain mt' where "mt_run ops (Some mt_new) = Inr (MT_SUCCESS, Some mt')" "mt_rep mt' xs"
    using mt_run_ok [OF mt_new_rep assms(1)] by blast
  then show ?thesis using mt_get_root_eq [OF _ assms(2)] mt_delete_ok by (auto simp: mt_create_eq)
qed

theorem mt_run_refines_witness:
  "\<exists>mt'. mt_run [Add [1] 1, Add [2] 1, Update [3] 1 0, Add [4] 1] (Some mt_new) = Inr (MT_SUCCESS, Some mt')
    \<and> mt_rep mt' [3 # replicate 31 0, 2 # replicate 31 0, 4 # replicate 31 0]"
  using mt_run_refines [of "[Add [1] 1, Add [2] 1, Update [3] 1 0, Add [4] 1]"
      "[3 # replicate 31 0, 2 # replicate 31 0, 4 # replicate 31 0]"]
  by (auto simp: tag_ok_def pad_tag_def mt_create_eq)

text \<open>
  C9: after an update, the tag that was replaced is refused with \<^verbatim>\<open>MT_ERR_ROOT_MISMATCH\<close>, unless
  \<open>tree_collision\<close> computes a SHA-256 collision from the two lists of leaves.
\<close>

theorem mt_update_revokes:
  assumes "mt_rep mt xs" and "unat off < length xs" and "tag_ok tag len" and "tag_ok old olen"
    and "pad_tag old olen \<noteq> pad_tag tag len"
  shows "\<exists>mt'. mt_update (Some mt) (Some tag) len off = Inr (MT_SUCCESS, Some mt')
    \<and> (mt_verify (Some mt') (Some old) olen off = Inr MT_ERR_ROOT_MISMATCH
       \<or> sha256_collision (tree_collision (xs[unat off := pad_tag tag len]) (xs[unat off := pad_tag old olen])))"
  by (rule mtree.stale_after_update [OF assms])

theorem mt_update_revokes_witness:
  "\<exists>mt'. mt_update (Some mt_two) (Some [9]) 1 0 = Inr (MT_SUCCESS, Some mt')
    \<and> (mt_verify (Some mt') (Some leaf_one) 32 0 = Inr MT_ERR_ROOT_MISMATCH
       \<or> sha256_collision (tree_collision [9 # replicate 31 0, leaf_two] [leaf_one, leaf_two]))"
proof -
  have "hd leaf_one \<noteq> 9" by (simp add: leaf_one_def)
  then have "leaf_one \<noteq> 9 # replicate 31 0" by (metis list.sel(1))
  then show ?thesis using mt_update_revokes [OF mt_two_rep, of 0 "[9]" 1 leaf_one 32]
    by (simp add: tag_ok_def pad_tag_def)
qed

text \<open>
  C21: \<open>mt_verify\<close> on a represented tree never faults, whatever offset and length it is given, as long
  as a tag it accepts is as long as it says; it reports an illegal parameter exactly for a missing
  tag, a length above 32 or an offset that is not below the number of leaves.
\<close>

theorem mt_verify_total:
  assumes "mt_rep mt xs" and "\<And>t. tag = Some t \<Longrightarrow> unat len \<le> 32 \<Longrightarrow> unat len \<le> length t"
  shows "\<exists>e. mt_verify (Some mt) tag len off = Inr e
    \<and> (e = MT_ERR_ILLEGAL_PARAM \<longleftrightarrow> tag = None \<or> unat len > 32 \<or> unat off \<ge> length xs)"
proof (cases "tag = None \<or> unat len > 32 \<or> unat off \<ge> length xs")
  case True
  then show ?thesis by (auto simp: mt_verify_def mt_rep_bounds(4) [OF assms(1)])
next
  case False
  then obtain t where t: "tag = Some t" by auto
  then have "tag_ok t len" using assms(2) False by (simp add: tag_ok_def)
  from mt_verify_eq [OF assms(1) _ this, of off] False t show ?thesis by auto
qed

theorem mt_verify_total_witness:
  "\<exists>e. mt_verify (Some mt_two) (Some [5]) 1 7 = Inr e \<and> e = MT_ERR_ILLEGAL_PARAM"
  using mt_verify_total [OF mt_two_rep, of "Some [5]" 1 7] by simp

text \<open>
  C22: adding to a tree of \<open>2 ^ 26\<close> leaves reports exhausted memory whatever the allocator would grant,
  and loses all leaves: updating the first of them afterwards is a use after free, and deleting the
  tree frees a block twice.
\<close>

theorem mt_add_at_capacity:
  assumes "mt_rep mt xs" and "length xs = 2 ^ 26" and "tag_ok tag len"
  shows "\<exists>mt'. mt_add ok (Some mt) (Some tag) len = Inr (MT_ERR_OUT_OF_MEMORY, Some mt')
    \<and> mt_update (Some mt') (Some tag) len 0 = Inl UseAfterFree
    \<and> mt_delete (Some mt') = Inl DoubleFree"
proof -
  obtain mt' a where mt': "mt_add ok (Some mt) (Some tag) len = Inr (MT_ERR_OUT_OF_MEMORY, Some mt')"
    and a: "level mt' ! 0 = Some (a\<lparr>store := Freed\<rparr>)" "unat (elems a) = 2 ^ 26"
    and n: "mt_elems mt' = mt_elems mt" "length (level mt') = 30"
    using mt_add_full [OF assms] by blast
  have e: "elems a = 2 ^ 26" using a(2) by (simp add: word_unat_eq_iff)
  have pos: "0 < mt_elems mt'" using n(1) assms(1,2) by (auto simp: mt_rep_def word_less_nat_alt)
  have "lev mt' 0 = Inr (Some (a\<lparr>store := Freed\<rparr>))" using a(1) by (simp add: lev_def)
  then have "mt_update (Some mt') (Some tag) len 0 = Inl UseAfterFree"
    using pos assms(3) e
    by (simp add: mt_update_def mt_init_hash_ok mt_al_update_def mt_al_consts) (simp add: tag_ok_def)
  moreover obtain ls where "level mt' = Some (a\<lparr>store := Freed\<rparr>) # ls"
    using a(1) n(2) by (cases "level mt'") auto
  then have "mt_delete (Some mt') = Inl DoubleFree" by (simp add: mt_delete_def mt_al_delete_def)
  ultimately show ?thesis using mt' by blast
qed

theorem mt_add_at_capacity_witness:
  "\<exists>mt mt'. mt_rep mt (replicate (2 ^ 26) leaf_one)
    \<and> mt_add (\<lambda>_. True) (Some mt) (Some [1]) 1 = Inr (MT_ERR_OUT_OF_MEMORY, Some mt')
    \<and> mt_delete (Some mt') = Inl DoubleFree"
proof -
  obtain mt where mt: "mt_rep mt (replicate (2 ^ 26) leaf_one)"
    using mt_rep_exists [of "replicate (2 ^ 26) leaf_one"] by (auto simp: list_all_iff)
  from mt_add_at_capacity [OF mt length_replicate, of "[1]" 1 "\<lambda>_. True"] mt
  show ?thesis by (auto simp: tag_ok_def)
qed



text \<open>
  \<open>mt_exists\<close> returns 1 for the offset of a leaf and 0 for an offset up to \<open>2 ^ 29\<close> without one;
  beyond that it returns the error code -2, which a caller that tests the result as a truth value
  takes for yes.
\<close>

theorem mt_exists_spec:
  assumes "mt_rep mt xs"
  shows "mt_exists (Some mt) off =
    Inr (if unat off > 2 ^ 29 then -2 else if unat off < length xs then 1 else 0)"
  using mt_exists_eq [OF assms, of off] by (simp add: mt_al_consts word_less_nat_alt)

theorem mt_exists_spec_witness:
  "mt_exists (Some mt_two) 1 = Inr 1 \<and> mt_exists (Some mt_two) 2 = Inr 0
   \<and> mt_exists (Some mt_two) 536870913 = Inr (-2)"
  using mt_exists_spec [OF mt_two_rep, of 1] mt_exists_spec [OF mt_two_rep, of 2]
    mt_exists_spec [OF mt_two_rep, of 536870913] by simp
end
