(* ===== verification/Aes128.thy ===== *)
theory Aes128
  imports Kv_Prelude
begin

text \<open>
  AES-128 as \<^verbatim>\<open>src/src/merkle/TI_aes_128.c\<close> implements it: one function that encrypts or decrypts a
  block in place, computes the round keys on the way and leaves the last one in the key buffer. The
  state and the key are lists of 16 bytes. The lemmas relate it to the cipher of FIPS 197 (key
  expansion first, then the rounds in the order of the standard) and show that decryption inverts
  encryption and gives the key back.
\<close>

section \<open>The code\<close>

definition sbox :: "byte list" where
  "sbox =
    [0x63, 0x7c, 0x77, 0x7b, 0xf2, 0x6b, 0x6f, 0xc5, 0x30, 0x01, 0x67, 0x2b, 0xfe, 0xd7, 0xab, 0x76,
     0xca, 0x82, 0xc9, 0x7d, 0xfa, 0x59, 0x47, 0xf0, 0xad, 0xd4, 0xa2, 0xaf, 0x9c, 0xa4, 0x72, 0xc0,
     0xb7, 0xfd, 0x93, 0x26, 0x36, 0x3f, 0xf7, 0xcc, 0x34, 0xa5, 0xe5, 0xf1, 0x71, 0xd8, 0x31, 0x15,
     0x04, 0xc7, 0x23, 0xc3, 0x18, 0x96, 0x05, 0x9a, 0x07, 0x12, 0x80, 0xe2, 0xeb, 0x27, 0xb2, 0x75,
     0x09, 0x83, 0x2c, 0x1a, 0x1b, 0x6e, 0x5a, 0xa0, 0x52, 0x3b, 0xd6, 0xb3, 0x29, 0xe3, 0x2f, 0x84,
     0x53, 0xd1, 0x00, 0xed, 0x20, 0xfc, 0xb1, 0x5b, 0x6a, 0xcb, 0xbe, 0x39, 0x4a, 0x4c, 0x58, 0xcf,
     0xd0, 0xef, 0xaa, 0xfb, 0x43, 0x4d, 0x33, 0x85, 0x45, 0xf9, 0x02, 0x7f, 0x50, 0x3c, 0x9f, 0xa8,
     0x51, 0xa3, 0x40, 0x8f, 0x92, 0x9d, 0x38, 0xf5, 0xbc, 0xb6, 0xda, 0x21, 0x10, 0xff, 0xf3, 0xd2,
     0xcd, 0x0c, 0x13, 0xec, 0x5f, 0x97, 0x44, 0x17, 0xc4, 0xa7, 0x7e, 0x3d, 0x64, 0x5d, 0x19, 0x73,
     0x60, 0x81, 0x4f, 0xdc, 0x22, 0x2a, 0x90, 0x88, 0x46, 0xee, 0xb8, 0x14, 0xde, 0x5e, 0x0b, 0xdb,
     0xe0, 0x32, 0x3a, 0x0a, 0x49, 0x06, 0x24, 0x5c, 0xc2, 0xd3, 0xac, 0x62, 0x91, 0x95, 0xe4, 0x79,
     0xe7, 0xc8, 0x37, 0x6d, 0x8d, 0xd5, 0x4e, 0xa9, 0x6c, 0x56, 0xf4, 0xea, 0x65, 0x7a, 0xae, 0x08,
     0xba, 0x78, 0x25, 0x2e, 0x1c, 0xa6, 0xb4, 0xc6, 0xe8, 0xdd, 0x74, 0x1f, 0x4b, 0xbd, 0x8b, 0x8a,
     0x70, 0x3e, 0xb5, 0x66, 0x48, 0x03, 0xf6, 0x0e, 0x61, 0x35, 0x57, 0xb9, 0x86, 0xc1, 0x1d, 0x9e,
     0xe1, 0xf8, 0x98, 0x11, 0x69, 0xd9, 0x8e, 0x94, 0x9b, 0x1e, 0x87, 0xe9, 0xce, 0x55, 0x28, 0xdf,
     0x8c, 0xa1, 0x89, 0x0d, 0xbf, 0xe6, 0x42, 0x68, 0x41, 0x99, 0x2d, 0x0f, 0xb0, 0x54, 0xbb, 0x16]"

definition rsbox :: "byte list" where
  "rsbox =
    [0x52, 0x09, 0x6a, 0xd5, 0x30, 0x36, 0xa5, 0x38, 0xbf, 0x40, 0xa3, 0x9e, 0x81, 0xf3, 0xd7, 0xfb,
     0x7c, 0xe3, 0x39, 0x82, 0x9b, 0x2f, 0xff, 0x87, 0x34, 0x8e, 0x43, 0x44, 0xc4, 0xde, 0xe9, 0xcb,
     0x54, 0x7b, 0x94, 0x32, 0xa6, 0xc2, 0x23, 0x3d, 0xee, 0x4c, 0x95, 0x0b, 0x42, 0xfa, 0xc3, 0x4e,
     0x08, 0x2e, 0xa1, 0x66, 0x28, 0xd9, 0x24, 0xb2, 0x76, 0x5b, 0xa2, 0x49, 0x6d, 0x8b, 0xd1, 0x25,
     0x72, 0xf8, 0xf6, 0x64, 0x86, 0x68, 0x98, 0x16, 0xd4, 0xa4, 0x5c, 0xcc, 0x5d, 0x65, 0xb6, 0x92,
     0x6c, 0x70, 0x48, 0x50, 0xfd, 0xed, 0xb9, 0xda, 0x5e, 0x15, 0x46, 0x57, 0xa7, 0x8d, 0x9d, 0x84,
     0x90, 0xd8, 0xab, 0x00, 0x8c, 0xbc, 0xd3, 0x0a, 0xf7, 0xe4, 0x58, 0x05, 0xb8, 0xb3, 0x45, 0x06,
     0xd0, 0x2c, 0x1e, 0x8f, 0xca, 0x3f, 0x0f, 0x02, 0xc1, 0xaf, 0xbd, 0x03, 0x01, 0x13, 0x8a, 0x6b,
     0x3a, 0x91, 0x11, 0x41, 0x4f, 0x67, 0xdc, 0xea, 0x97, 0xf2, 0xcf, 0xce, 0xf0, 0xb4, 0xe6, 0x73,
     0x96, 0xac, 0x74, 0x22, 0xe7, 0xad, 0x35, 0x85, 0xe2, 0xf9, 0x37, 0xe8, 0x1c, 0x75, 0xdf, 0x6e,
     0x47, 0xf1, 0x1a, 0x71, 0x1d, 0x29, 0xc5, 0x89, 0x6f, 0xb7, 0x62, 0x0e, 0xaa, 0x18, 0xbe, 0x1b,
     0xfc, 0x56, 0x3e, 0x4b, 0xc6, 0xd2, 0x79, 0x20, 0x9a, 0xdb, 0xc0, 0xfe, 0x78, 0xcd, 0x5a, 0xf4,
     0x1f, 0xdd, 0xa8, 0x33, 0x88, 0x07, 0xc7, 0x31, 0xb1, 0x12, 0x10, 0x59, 0x27, 0x80, 0xec, 0x5f,
     0x60, 0x51, 0x7f, 0xa9, 0x19, 0xb5, 0x4a, 0x0d, 0x2d, 0xe5, 0x7a, 0x9f, 0x93, 0xc9, 0x9c, 0xef,
     0xa0, 0xe0, 0x3b, 0x4d, 0xae, 0x2a, 0xf5, 0xb0, 0xc8, 0xeb, 0xbb, 0x3c, 0x83, 0x53, 0x99, 0x61,
     0x17, 0x2b, 0x04, 0x7e, 0xba, 0x77, 0xd6, 0x26, 0xe1, 0x69, 0x14, 0x63, 0x55, 0x21, 0x0c, 0x7d]"

definition Rcon :: "byte list" where
  "Rcon = [0x01, 0x02, 0x04, 0x08, 0x10, 0x20, 0x40, 0x80, 0x1b, 0x36]"

definition galois_mul2 :: "byte \<Rightarrow> byte" where
  "galois_mul2 value =
     (if drop_bit 7 value \<noteq> 0 then push_bit 1 value XOR 0x1b else push_bit 1 value)"

definition sub :: "byte \<Rightarrow> byte" where
  "sub b = sbox ! unat b"

definition rsub :: "byte \<Rightarrow> byte" where
  "rsub b = rsbox ! unat b"

text \<open>The step from one round key to the next and back, in place.\<close>

definition key_head :: "byte \<Rightarrow> byte list \<Rightarrow> byte list" where
  "key_head rcon key =
     (let key = key[0 := sub (key ! 13) XOR key ! 0 XOR rcon];
          key = key[1 := sub (key ! 14) XOR key ! 1];
          key = key[2 := sub (key ! 15) XOR key ! 2]
      in key[3 := sub (key ! 12) XOR key ! 3])"

definition key_schedule :: "nat \<Rightarrow> byte list \<Rightarrow> byte list" where
  "key_schedule round key =
     fold (\<lambda>i key. key[i := key ! i XOR key ! (i - 4)]) [4..<16] (key_head (Rcon ! round) key)"

definition inv_key_schedule :: "nat \<Rightarrow> byte list \<Rightarrow> byte list" where
  "inv_key_schedule round key =
     key_head (Rcon ! (9 - round)) (fold (\<lambda>i key. key[i := key ! i XOR key ! (i - 4)]) (rev [4..<16]) key)"

definition add_round_key :: "byte list \<Rightarrow> byte list \<Rightarrow> byte list" where
  "add_round_key state key = map2 (\<lambda>s k. s XOR k) state key"

definition shift_rows :: "byte list \<Rightarrow> byte list" where
  "shift_rows state =
     (let buf1 = state ! 1;
          state = state[1 := state ! 5];
          state = state[5 := state ! 9];
          state = state[9 := state ! 13];
          state = state[13 := buf1];
          buf1 = state ! 2;
          buf2 = state ! 6;
          state = state[2 := state ! 10];
          state = state[6 := state ! 14];
          state = state[10 := buf1];
          state = state[14 := buf2];
          buf1 = state ! 15;
          state = state[15 := state ! 11];
          state = state[11 := state ! 7];
          state = state[7 := state ! 3]
      in state[3 := buf1])"

definition inv_shift_rows :: "byte list \<Rightarrow> byte list" where
  "inv_shift_rows state =
     (let buf1 = state ! 13;
          state = state[13 := state ! 9];
          state = state[9 := state ! 5];
          state = state[5 := state ! 1];
          state = state[1 := buf1];
          buf1 = state ! 10;
          buf2 = state ! 14;
          state = state[10 := state ! 2];
          state = state[14 := state ! 6];
          state = state[2 := buf1];
          state = state[6 := buf2];
          buf1 = state ! 3;
          state = state[3 := state ! 7];
          state = state[7 := state ! 11];
          state = state[11 := state ! 15]
      in state[15 := buf1])"

definition mix_precompute :: "nat \<Rightarrow> byte list \<Rightarrow> byte list" where
  "mix_precompute buf4 state =
     (let buf1 = galois_mul2 (galois_mul2 (state ! buf4 XOR state ! (buf4 + 2)));
          buf2 = galois_mul2 (galois_mul2 (state ! (buf4 + 1) XOR state ! (buf4 + 3)));
          state = state[buf4 := state ! buf4 XOR buf1];
          state = state[buf4 + 1 := state ! (buf4 + 1) XOR buf2];
          state = state[buf4 + 2 := state ! (buf4 + 2) XOR buf1]
      in state[buf4 + 3 := state ! (buf4 + 3) XOR buf2])"

definition mix_column :: "nat \<Rightarrow> byte list \<Rightarrow> byte list" where
  "mix_column buf4 state =
     (let buf1 = state ! buf4 XOR state ! (buf4 + 1) XOR state ! (buf4 + 2) XOR state ! (buf4 + 3);
          buf2 = state ! buf4;
          buf3 = galois_mul2 (state ! buf4 XOR state ! (buf4 + 1));
          state = state[buf4 := state ! buf4 XOR buf3 XOR buf1];
          buf3 = galois_mul2 (state ! (buf4 + 1) XOR state ! (buf4 + 2));
          state = state[buf4 + 1 := state ! (buf4 + 1) XOR buf3 XOR buf1];
          buf3 = galois_mul2 (state ! (buf4 + 2) XOR state ! (buf4 + 3));
          state = state[buf4 + 2 := state ! (buf4 + 2) XOR buf3 XOR buf1];
          buf3 = galois_mul2 (state ! (buf4 + 3) XOR buf2)
      in state[buf4 + 3 := state ! (buf4 + 3) XOR buf3 XOR buf1])"

definition mix_columns :: "bool \<Rightarrow> byte list \<Rightarrow> byte list" where
  "mix_columns dir state = fold (\<lambda>i state.
     mix_column (4 * i) (if dir then mix_precompute (4 * i) state else state)) [0..<4] state"

text \<open>One pass of the main loop, on the state and the key.\<close>

definition aes_round :: "bool \<Rightarrow> nat \<Rightarrow> byte list \<times> byte list \<Rightarrow> byte list \<times> byte list" where
  "aes_round dir round = (\<lambda>(state, key).
     let key = (if dir then inv_key_schedule round key else key);
         state = (if dir then state else shift_rows (map sub (add_round_key state key)));
         state = (if (round > 0 \<and> dir) \<or> (round < 9 \<and> \<not> dir) then mix_columns dir state else state)
     in if dir then (add_round_key (map rsub (inv_shift_rows state)) key, key)
        else (state, key_schedule round key))"

definition aes_enc_dec :: "byte list \<Rightarrow> byte list \<Rightarrow> byte \<Rightarrow> byte list \<times> byte list" where
  "aes_enc_dec state key dir =
     (let key = (if dir \<noteq> 0 then fold key_schedule [0..<10] key else key);
          state = (if dir \<noteq> 0 then add_round_key state key else state);
          (state, key) = fold (aes_round (dir \<noteq> 0)) [0..<10] (state, key)
      in (if dir = 0 then add_round_key state key else state, key))"

section \<open>The cipher of FIPS 197\<close>

text \<open>The state is a list in the order of the input bytes: row \<open>r\<close> of column \<open>c\<close> is at \<open>r + 4 * c\<close>.\<close>

definition fips_xtime :: "byte \<Rightarrow> byte" where
  "fips_xtime b = push_bit 1 b XOR (if bit b 7 then 0x1b else 0)"

definition fips_ShiftRows :: "byte list \<Rightarrow> byte list" where
  "fips_ShiftRows s = map (\<lambda>i. s ! (i mod 4 + 4 * ((i div 4 + i mod 4) mod 4))) [0..<16]"

definition fips_MixColumns :: "byte list \<Rightarrow> byte list" where
  "fips_MixColumns s = map (\<lambda>i. let c = 4 * (i div 4); r = i mod 4; col = (\<lambda>k. s ! (c + (r + k) mod 4))
     in fips_xtime (col 0) XOR (fips_xtime (col 1) XOR col 1) XOR col 2 XOR col 3) [0..<16]"

definition xor_list :: "byte list \<Rightarrow> byte list \<Rightarrow> byte list" where
  "xor_list xs ys = map2 (\<lambda>x y. x XOR y) xs ys"

function fips_w :: "byte list \<Rightarrow> nat \<Rightarrow> byte list" where
  "fips_w key i =
     (if i < 4 then take 4 (drop (4 * i) key)
      else let temp = fips_w key (i - 1)
           in xor_list (fips_w key (i - 4))
                (if i mod 4 = 0 then xor_list (map sub (rotate1 temp)) [Rcon ! (i div 4 - 1), 0, 0, 0]
                 else temp))"
  by pat_completeness auto
termination
  by (relation "measure snd") auto

declare fips_w.simps [simp del]

definition fips_round_key :: "byte list \<Rightarrow> nat \<Rightarrow> byte list" where
  "fips_round_key key r = concat (map (fips_w key) [4 * r..<4 * r + 4])"

definition fips_Cipher :: "byte list \<Rightarrow> byte list \<Rightarrow> byte list" where
  "fips_Cipher key s =
     (let s = xor_list s (fips_round_key key 0);
          s = fold (\<lambda>r s. xor_list (fips_MixColumns (fips_ShiftRows (map sub s))) (fips_round_key key r)) [1..<10] s
      in xor_list (fips_ShiftRows (map sub s)) (fips_round_key key 10))"

section \<open>Byte arithmetic\<close>

lemma drop_bit_7: "(drop_bit 7 v \<noteq> 0) = bit v 7" for v :: byte
proof -
  have "bit (drop_bit 7 v) n = bit (of_bool (bit v 7) :: byte) n" if "n < LENGTH(8)" for n
    using bit_imp_le_length [of v "7 + n"] by (cases n) (auto simp: bit_drop_bit_eq bit_simps)
  then have "drop_bit 7 v = of_bool (bit v 7)" by (rule bit_word_eqI)
  then show ?thesis by simp
qed

lemma galois_mul2_xtime: "galois_mul2 v = fips_xtime v"
  by (simp add: galois_mul2_def fips_xtime_def drop_bit_7)

lemma galois_mul2_xor: "galois_mul2 (a XOR b) = galois_mul2 a XOR galois_mul2 b"
  by (simp add: galois_mul2_xtime fips_xtime_def push_bit_xor bit_xor_iff xor.assoc xor.left_commute)

lemma xor_cancel: "a XOR (a XOR b) = b" for a b :: byte
  by (simp add: xor.assoc [symmetric])

lemmas xor_norm = xor.assoc xor.commute xor.left_commute xor_cancel galois_mul2_xor

lemma rsbox_sbox_all: "list_all (\<lambda>x. rsbox ! unat (sbox ! x) = word_of_nat x) [0..<256]"
  by code_simp

lemma rsub_sub [simp]: "rsub (sub b) = b"
proof -
  have "unat b < 256" using unsigned_less [of b] by simp
  then have "rsbox ! unat (sbox ! unat b) = word_of_nat (unat b)"
    using rsbox_sbox_all by (simp add: list_all_iff)
  then show ?thesis by (simp add: rsub_def sub_def)
qed

text \<open>Both tables are permutations of the bytes, so the inverse holds in both directions.\<close>

lemma sub_rsub [simp]: "sub (rsub b) = b"
proof -
  have "inj sub" by (rule inj_on_inverseI [where g = rsub]) simp
  then have "surj sub" by (rule finite_UNIV_inj_surj [OF finite])
  then obtain c where "b = sub c" by (rule surjE)
  then show ?thesis by simp
qed

section \<open>The four transformations on a state of 16 bytes\<close>

lemma list16:
  assumes "length xs = 16"
  obtains a b c d e f g h i j k l m n p q where "xs = [a, b, c, d, e, f, g, h, i, j, k, l, m, n, p, q]"
  using assms by (auto simp: numeral_eq_Suc length_Suc_conv)

lemma upt16: "[0..<16] = [0, 1, 2, 3, 4, 5, 6, 7, 8, 9, 10, 11, 12, 13, 14, 15]"
  by code_simp

lemma shift_rows_fips: "length s = 16 \<Longrightarrow> shift_rows s = fips_ShiftRows s"
  by (erule list16) (simp add: shift_rows_def fips_ShiftRows_def upt16)

lemma inv_shift_shift: "length s = 16 \<Longrightarrow> inv_shift_rows (shift_rows s) = s"
  by (erule list16) (simp add: shift_rows_def inv_shift_rows_def)

lemma shift_inv_shift: "length s = 16 \<Longrightarrow> shift_rows (inv_shift_rows s) = s"
  by (erule list16) (simp add: shift_rows_def inv_shift_rows_def)


lemma shift_rows_length [simp]: "length (shift_rows s) = length s"
  by (simp add: shift_rows_def Let_def)

lemma inv_shift_rows_length [simp]: "length (inv_shift_rows s) = length s"
  by (simp add: inv_shift_rows_def Let_def)

text \<open>A column, mixed and with the precomputation of the decryption.\<close>

fun mix_col :: "byte list \<Rightarrow> byte list" where
  "mix_col [a, b, c, d] = (let t = a XOR b XOR c XOR d in
     [a XOR galois_mul2 (a XOR b) XOR t, b XOR galois_mul2 (b XOR c) XOR t,
      c XOR galois_mul2 (c XOR d) XOR t, d XOR galois_mul2 (d XOR a) XOR t])"
| "mix_col xs = xs"

fun pre_col :: "byte list \<Rightarrow> byte list" where
  "pre_col [a, b, c, d] = (let u = galois_mul2 (galois_mul2 (a XOR c)); v = galois_mul2 (galois_mul2 (b XOR d)) in
     [a XOR u, b XOR v, c XOR u, d XOR v])"
| "pre_col xs = xs"

lemma nth_list_update_4:
  assumes "length p = n"
  shows "(p @ [a, b, c, d] @ q) ! n = a" "(p @ [a, b, c, d] @ q) ! (n + 1) = b"
    "(p @ [a, b, c, d] @ q) ! (n + 2) = c" "(p @ [a, b, c, d] @ q) ! (n + 3) = d"
    "(p @ [a, b, c, d] @ q)[n := x] = p @ [x, b, c, d] @ q"
    "(p @ [a, b, c, d] @ q)[n + 1 := x] = p @ [a, x, c, d] @ q"
    "(p @ [a, b, c, d] @ q)[n + 2 := x] = p @ [a, b, x, d] @ q"
    "(p @ [a, b, c, d] @ q)[n + 3 := x] = p @ [a, b, c, x] @ q"
  using assms by (simp_all add: nth_append list_update_append numeral_eq_Suc)

lemma mix_column_append:
  assumes "length p = n"
  shows "mix_column n (p @ [a, b, c, d] @ q) = p @ mix_col [a, b, c, d] @ q"
  unfolding mix_column_def Let_def mix_col.simps nth_list_update_4 [OF assms] ..

lemma mix_precompute_append:
  assumes "length p = n"
  shows "mix_precompute n (p @ [a, b, c, d] @ q) = p @ pre_col [a, b, c, d] @ q"
  unfolding mix_precompute_def Let_def pre_col.simps nth_list_update_4 [OF assms] ..

definition mix_dir :: "bool \<Rightarrow> byte list \<Rightarrow> byte list" where
  "mix_dir dir col = mix_col (if dir then pre_col col else col)"

lemma list4:
  assumes "length xs = 4"
  obtains a b c d where "xs = [a, b, c, d]"
  using assms by (auto simp: numeral_eq_Suc length_Suc_conv)

lemma mix_dir_length [simp]: "length col = 4 \<Longrightarrow> length (mix_dir dir col) = 4"
  by (erule list4) (simp add: mix_dir_def Let_def)

lemma mix_dir_append:
  assumes "length p = n" and "length col = 4"
  shows "mix_column n (if dir then mix_precompute n (p @ col @ q) else p @ col @ q) = p @ mix_dir dir col @ q"
  using assms(2)
proof (rule list4)
  fix a b c d assume col: "col = [a, b, c, d]"
  obtain e f g h where pre: "pre_col [a, b, c, d] = [e, f, g, h]" by (simp add: Let_def)
  show ?thesis unfolding col mix_dir_def
    using mix_column_append [OF assms(1)] mix_precompute_append [OF assms(1)] pre
    by (cases dir) (simp_all only: if_True if_False)
qed

lemma mix_columns_cols:
  assumes "length c0 = 4" and "length c1 = 4" and "length c2 = 4" and "length c3 = 4"
  shows "mix_columns dir (c0 @ c1 @ c2 @ c3) = mix_dir dir c0 @ mix_dir dir c1 @ mix_dir dir c2 @ mix_dir dir c3"
proof -
  define m where "m = (\<lambda>n s. mix_column n (if dir then mix_precompute n s else s))"
  have step: "m n (p @ col @ q) = p @ mix_dir dir col @ q" if "length p = n" "length col = 4" for n p col q
    unfolding m_def using that by (rule mix_dir_append)
  have "[0..<4] = [0, 1, 2, 3]" by code_simp
  then have "mix_columns dir (c0 @ c1 @ c2 @ c3) = m 12 (m 8 (m 4 (m 0 (c0 @ c1 @ c2 @ c3))))"
    by (simp add: mix_columns_def m_def)
  also have "m 0 (c0 @ c1 @ c2 @ c3) = mix_dir dir c0 @ c1 @ c2 @ c3"
    using step [of "[]" 0 c0 "c1 @ c2 @ c3"] assms by simp
  also have "m 4 \<dots> = mix_dir dir c0 @ mix_dir dir c1 @ c2 @ c3"
    using step [of "mix_dir dir c0" 4 c1 "c2 @ c3"] assms by simp
  also have "m 8 \<dots> = mix_dir dir c0 @ mix_dir dir c1 @ mix_dir dir c2 @ c3"
    using step [of "mix_dir dir c0 @ mix_dir dir c1" 8 c2 c3] assms by simp
  also have "m 12 \<dots> = mix_dir dir c0 @ mix_dir dir c1 @ mix_dir dir c2 @ mix_dir dir c3"
    using step [of "mix_dir dir c0 @ mix_dir dir c1 @ mix_dir dir c2" 12 c3 "[]"] assms by simp
  finally show ?thesis .
qed

lemma columns_of:
  assumes "length s = 16"
  obtains c0 c1 c2 c3 where "s = c0 @ c1 @ c2 @ c3" and "length c0 = 4" and "length c1 = 4"
    and "length c2 = 4" and "length c3 = 4"
proof (rule list16 [OF assms])
  fix a b c d e f g h i j k l m n p q
  assume "s = [a, b, c, d, e, f, g, h, i, j, k, l, m, n, p, q]"
  then show thesis using that [of "[a, b, c, d]" "[e, f, g, h]" "[i, j, k, l]" "[m, n, p, q]"] by simp
qed

lemma mix_columns_length [simp]: "length s = 16 \<Longrightarrow> length (mix_columns dir s) = 16"
  by (erule columns_of) (simp add: mix_columns_cols)

lemma mix_dir_inverse:
  assumes "length col = 4"
  shows "mix_dir True (mix_dir False col) = col" and "mix_dir False (mix_dir True col) = col"
  using assms by (auto elim!: list4 simp: mix_dir_def Let_def xor_norm)

lemma inv_mix_mix: "length s = 16 \<Longrightarrow> mix_columns True (mix_columns False s) = s"
  by (erule columns_of) (simp add: mix_columns_cols mix_dir_inverse)

lemma mix_inv_mix: "length s = 16 \<Longrightarrow> mix_columns False (mix_columns True s) = s"
  by (erule columns_of) (simp add: mix_columns_cols mix_dir_inverse)

lemma mix_columns_fips: "length s = 16 \<Longrightarrow> mix_columns False s = fips_MixColumns s"
proof (rule list16)
  fix a b c d e f g h i j k l m n p q
  assume s: "s = [a, b, c, d, e, f, g, h, i, j, k, l, m, n, p, q]"
  show ?thesis unfolding s
    using mix_columns_cols [of "[a, b, c, d]" "[e, f, g, h]" "[i, j, k, l]" "[m, n, p, q]" False]
    by (simp add: mix_dir_def Let_def fips_MixColumns_def upt16 galois_mul2_xtime [symmetric] xor_norm)
qed

section \<open>The key schedule\<close>

lemma upt4_16: "[4..<16] = [4, 5, 6, 7, 8, 9, 10, 11, 12, 13, 14, 15]"
  by code_simp

lemma key_schedule_length [simp]: "length key = 16 \<Longrightarrow> length (key_schedule r key) = 16"
  by (simp add: key_schedule_def key_head_def upt4_16 Let_def)

lemma inv_key_schedule_length [simp]: "length key = 16 \<Longrightarrow> length (inv_key_schedule r key) = 16"
  by (simp add: inv_key_schedule_def key_head_def upt4_16 Let_def)

lemma inv_key_schedule_step:
  "length key = 16 \<Longrightarrow> r < 10 \<Longrightarrow> inv_key_schedule (9 - r) (key_schedule r key) = key"
  by (erule list16) (simp add: key_schedule_def inv_key_schedule_def key_head_def upt4_16 xor_norm)

lemma key_schedule_words:
  assumes "length w0 = 4" and "length w1 = 4" and "length w2 = 4" and "length w3 = 4"
  shows "key_schedule r (w0 @ w1 @ w2 @ w3) =
    (let v0 = xor_list w0 (xor_list (map sub (rotate1 w3)) [Rcon ! r, 0, 0, 0]);
         v1 = xor_list w1 v0; v2 = xor_list w2 v1
     in v0 @ v1 @ v2 @ xor_list w3 v2)"
  using assms
  by (auto elim!: list4 simp: key_schedule_def key_head_def upt4_16 xor_list_def xor_norm)

lemma xor_list_length [simp]: "length (xor_list xs ys) = min (length xs) (length ys)"
  by (simp add: xor_list_def)

lemma fips_w_length: "length key = 16 \<Longrightarrow> length (fips_w key i) = 4"
proof (induction i rule: less_induct)
  case (less i)
  then show ?case by (subst fips_w.simps) (simp add: Let_def)
qed

lemma fips_w_rec:
  assumes "4 \<le> i"
  shows "fips_w key i = xor_list (fips_w key (i - 4))
    (if i mod 4 = 0 then xor_list (map sub (rotate1 (fips_w key (i - 1)))) [Rcon ! (i div 4 - 1), 0, 0, 0]
     else fips_w key (i - 1))"
  using assms by (subst fips_w.simps) (simp only: Let_def not_less [symmetric] if_False)

lemma fips_w_Suc:
  "fips_w key (4 * r + 4) = xor_list (fips_w key (4 * r))
     (xor_list (map sub (rotate1 (fips_w key (4 * r + 3)))) [Rcon ! r, 0, 0, 0])"
  "fips_w key (4 * r + 5) = xor_list (fips_w key (4 * r + 1)) (fips_w key (4 * r + 4))"
  "fips_w key (4 * r + 6) = xor_list (fips_w key (4 * r + 2)) (fips_w key (4 * r + 5))"
  "fips_w key (4 * r + 7) = xor_list (fips_w key (4 * r + 3)) (fips_w key (4 * r + 6))"
proof -
  have m: "(4 * r + 4) mod 4 = 0" "(4 * r + 5) mod 4 = 1" "(4 * r + 6) mod 4 = 2" "(4 * r + 7) mod 4 = 3"
    by presburger+
  have d: "(4 * r + 4) div 4 - 1 = r" by simp
  show "fips_w key (4 * r + 4) = xor_list (fips_w key (4 * r))
     (xor_list (map sub (rotate1 (fips_w key (4 * r + 3)))) [Rcon ! r, 0, 0, 0])"
    using fips_w_rec [of "4 * r + 4" key] unfolding m d by (simp add: add.commute)
  show "fips_w key (4 * r + 5) = xor_list (fips_w key (4 * r + 1)) (fips_w key (4 * r + 4))"
    using fips_w_rec [of "4 * r + 5" key] unfolding m by (simp add: add.commute)
  show "fips_w key (4 * r + 6) = xor_list (fips_w key (4 * r + 2)) (fips_w key (4 * r + 5))"
    using fips_w_rec [of "4 * r + 6" key] unfolding m by (simp add: add.commute)
  show "fips_w key (4 * r + 7) = xor_list (fips_w key (4 * r + 3)) (fips_w key (4 * r + 6))"
    using fips_w_rec [of "4 * r + 7" key] unfolding m by (simp add: add.commute)
qed

lemma fips_round_key_words:
  "fips_round_key key r = fips_w key (4 * r) @ fips_w key (4 * r + 1) @ fips_w key (4 * r + 2) @ fips_w key (4 * r + 3)"
proof -
  have "[4 * r..<4 * r + 4] = [4 * r, 4 * r + 1, 4 * r + 2, 4 * r + 3]"
    by (simp add: upt_conv_Cons numeral_eq_Suc)
  then show ?thesis by (simp add: fips_round_key_def)
qed

lemma fips_w_first: "i < 4 \<Longrightarrow> fips_w key i = take 4 (drop (4 * i) key)"
  by (subst fips_w.simps) simp

lemma fips_round_key_0: "length key = 16 \<Longrightarrow> fips_round_key key 0 = key"
  by (erule list16) (simp add: fips_round_key_words fips_w_first)

lemma fips_round_key_Suc:
  assumes "length key = 16"
  shows "fips_round_key key (Suc r) = key_schedule r (fips_round_key key r)"
  unfolding fips_round_key_words
  using key_schedule_words [of "fips_w key (4 * r)" "fips_w key (4 * r + 1)" "fips_w key (4 * r + 2)"
      "fips_w key (4 * r + 3)" r] fips_w_Suc [of key r] fips_w_length [OF assms]
  by (simp add: Let_def ac_simps)

lemma fips_round_key_length [simp]: "length key = 16 \<Longrightarrow> length (fips_round_key key r) = 16"
  by (simp add: fips_round_key_words fips_w_length)

section \<open>Encryption\<close>

definition enc_round :: "nat \<Rightarrow> byte list \<Rightarrow> byte list \<Rightarrow> byte list" where
  "enc_round r key s = (if r < 9 then mix_columns False else id) (shift_rows (map sub (add_round_key s key)))"

definition dec_round :: "nat \<Rightarrow> byte list \<Rightarrow> byte list \<Rightarrow> byte list" where
  "dec_round r key s = add_round_key (map rsub (inv_shift_rows ((if r < 9 then mix_columns True else id) s))) key"

lemma add_round_key_length [simp]: "length (add_round_key s key) = min (length s) (length key)"
  by (simp add: add_round_key_def)

lemma add_round_key_twice: "length s = length key \<Longrightarrow> add_round_key (add_round_key s key) key = s"
  by (rule nth_equalityI) (simp_all add: add_round_key_def xor.assoc)

lemma enc_round_length [simp]: "length s = 16 \<Longrightarrow> length key = 16 \<Longrightarrow> length (enc_round r key s) = 16"
  by (simp add: enc_round_def)

lemma dec_round_length [simp]: "length s = 16 \<Longrightarrow> length key = 16 \<Longrightarrow> length (dec_round r key s) = 16"
  by (simp add: dec_round_def)

lemma map_rsub_sub [simp]: "map rsub (map sub xs) = xs" "map sub (map rsub xs) = xs"
  by (simp_all add: o_def)

lemma dec_enc_round:
  assumes "length s = 16" and "length key = 16"
  shows "dec_round r key (enc_round r key s) = s"
  using assms add_round_key_twice [of s key]
  by (simp add: dec_round_def enc_round_def inv_mix_mix inv_shift_shift del: map_map)

lemma enc_dec_round:
  assumes "length s = 16" and "length key = 16"
  shows "enc_round r key (dec_round r key s) = s"
  using assms by (simp add: dec_round_def enc_round_def add_round_key_twice mix_inv_mix shift_inv_shift del: map_map)

lemma aes_round_enc: "aes_round False r (s, key) = (enc_round r key s, key_schedule r key)"
  by (simp add: aes_round_def enc_round_def Let_def)

lemma aes_round_dec:
  assumes "r < 10" and "length key = 16"
  shows "aes_round True (9 - r) (s, key_schedule r key) = (dec_round r key s, key)"
  using assms inv_key_schedule_step [of key r] by (auto simp: aes_round_def dec_round_def Let_def)


definition enc_rounds :: "byte list \<Rightarrow> nat \<Rightarrow> byte list \<Rightarrow> byte list" where
  "enc_rounds key n = fold (\<lambda>r. enc_round r (fips_round_key key r)) [0..<n]"

definition dec_rounds :: "byte list \<Rightarrow> nat \<Rightarrow> byte list \<Rightarrow> byte list" where
  "dec_rounds key n = fold (\<lambda>r. dec_round r (fips_round_key key r)) (rev [0..<n])"

lemma enc_rounds_Suc: "enc_rounds key (Suc n) s = enc_round n (fips_round_key key n) (enc_rounds key n s)"
  by (simp add: enc_rounds_def)

lemma dec_rounds_Suc: "dec_rounds key (Suc n) s = dec_rounds key n (dec_round n (fips_round_key key n) s)"
  by (simp add: dec_rounds_def)

lemma rounds_length [simp]:
  assumes "length s = 16" and "length key = 16"
  shows "length (enc_rounds key n s) = 16" and "length (dec_rounds key n s) = 16"
proof -
  show "length (enc_rounds key n s) = 16"
    using assms by (induction n) (simp_all add: enc_rounds_Suc, simp add: enc_rounds_def)
  show "length (dec_rounds key n s) = 16"
    using assms by (induction n arbitrary: s) (simp_all add: dec_rounds_Suc, simp add: dec_rounds_def)
qed

lemma dec_enc_rounds:
  assumes "length s = 16" and "length key = 16"
  shows "dec_rounds key n (enc_rounds key n s) = s"
  using assms
  by (induction n) (simp_all add: dec_rounds_Suc enc_rounds_Suc dec_enc_round, simp add: enc_rounds_def dec_rounds_def)

lemma enc_dec_rounds:
  assumes "length s = 16" and "length key = 16"
  shows "enc_rounds key n (dec_rounds key n s) = s"
  using assms
proof (induction n arbitrary: s)
  case (Suc n)
  then show ?case by (simp add: dec_rounds_Suc enc_rounds_Suc enc_dec_round)
qed (simp add: enc_rounds_def dec_rounds_def)

lemma aes_rounds_enc:
  assumes "length key = 16"
  shows "fold (aes_round False) [0..<n] (s, key) = (enc_rounds key n s, fips_round_key key n)"
  using assms by (induction n)
    (simp_all add: aes_round_enc fips_round_key_Suc enc_rounds_Suc, simp add: enc_rounds_def fips_round_key_0)

lemma key_schedules:
  assumes "length key = 16"
  shows "fold key_schedule [0..<n] key = fips_round_key key n"
  using assms by (induction n) (simp_all add: fips_round_key_Suc fips_round_key_0)

lemma aes_rounds_dec:
  assumes "length key = 16" and "n \<le> 10"
  shows "fold (aes_round True) [10 - n..<10] (s, fips_round_key key n) = (dec_rounds key n s, key)"
  using assms(2)
proof (induction n arbitrary: s)
  case 0
  then show ?case using assms(1) by (simp add: dec_rounds_def fips_round_key_0)
next
  case (Suc n)
  have "[10 - Suc n..<10] = (9 - n) # [10 - n..<10]"
    using Suc(2) upt_conv_Cons [of "9 - n" 10] by (simp add: Suc_diff_le [symmetric])
  moreover have "aes_round True (9 - n) (s, fips_round_key key (Suc n))
      = (dec_round n (fips_round_key key n) s, fips_round_key key n)"
    unfolding fips_round_key_Suc [OF assms(1)] by (rule aes_round_dec) (use Suc(2) assms(1) in auto)
  ultimately show ?case using Suc by (simp add: dec_rounds_Suc)
qed

lemma aes_enc_eq:
  assumes "length key = 16"
  shows "aes_enc_dec s key 0 =
    (add_round_key (enc_rounds key 10 s) (fips_round_key key 10), fips_round_key key 10)"
  using aes_rounds_enc [OF assms, of 10 s] by (simp add: aes_enc_dec_def)

lemma aes_dec_eq:
  assumes "length key = 16" and "dir \<noteq> 0"
  shows "aes_enc_dec s key dir = (dec_rounds key 10 (add_round_key s (fips_round_key key 10)), key)"
  using aes_rounds_dec [OF assms(1), of 10] key_schedules [OF assms(1), of 10] assms(2)
  by (simp add: aes_enc_dec_def)

lemma aes_dec_enc:
  assumes "length s = 16" and "length key = 16" and "dir \<noteq> 0"
  shows "aes_enc_dec (fst (aes_enc_dec s key 0)) key dir = (s, key)"
  using assms by (simp add: aes_enc_eq aes_dec_eq add_round_key_twice dec_enc_rounds)

lemma aes_enc_dec_cancel:
  assumes "length s = 16" and "length key = 16" and "dir \<noteq> 0"
  shows "fst (aes_enc_dec (fst (aes_enc_dec s key dir)) key 0) = s"
  using assms by (simp add: aes_enc_eq aes_dec_eq add_round_key_twice enc_dec_rounds)

section \<open>Equivalence with the standard\<close>

lemma add_round_key_xor_list: "add_round_key = xor_list"
  by (simp add: fun_eq_iff add_round_key_def xor_list_def)

lemma fips_rounds:
  assumes "length s = 16" and "length key = 16" and "n \<le> 9"
  shows "xor_list (enc_rounds key n s) (fips_round_key key n) =
    fold (\<lambda>r s. xor_list (fips_MixColumns (fips_ShiftRows (map sub s))) (fips_round_key key r)) [1..<Suc n]
      (xor_list s (fips_round_key key 0))"
  using assms(3)
proof (induction n)
  case (Suc n)
  let ?t = "xor_list (enc_rounds key n s) (fips_round_key key n)"
  have t: "length ?t = 16" using assms(1,2) by simp
  have "enc_rounds key (Suc n) s = mix_columns False (shift_rows (map sub ?t))"
    using Suc(2) by (simp add: enc_rounds_Suc enc_round_def add_round_key_xor_list)
  also have "\<dots> = fips_MixColumns (fips_ShiftRows (map sub ?t))"
    using t mix_columns_fips shift_rows_fips by (metis length_map shift_rows_length)
  finally have "xor_list (enc_rounds key (Suc n) s) (fips_round_key key (Suc n))
      = xor_list (fips_MixColumns (fips_ShiftRows (map sub ?t))) (fips_round_key key (Suc n))" by simp
  also have "?t = fold (\<lambda>r s. xor_list (fips_MixColumns (fips_ShiftRows (map sub s))) (fips_round_key key r))
      [1..<Suc n] (xor_list s (fips_round_key key 0))" using Suc by simp
  finally show ?case by (subst upt_Suc_append) simp_all
qed (simp add: enc_rounds_def)

lemma aes_enc_fips:
  assumes "length s = 16" and "length key = 16"
  shows "aes_enc_dec s key 0 = (fips_Cipher key s, fips_round_key key 10)"
proof -
  have "enc_rounds key 10 s = shift_rows (map sub (xor_list (enc_rounds key 9 s) (fips_round_key key 9)))"
    using enc_rounds_Suc [of key 9 s] by (simp add: enc_round_def add_round_key_xor_list)
  also have "\<dots> = fips_ShiftRows (map sub (xor_list (enc_rounds key 9 s) (fips_round_key key 9)))"
    by (rule shift_rows_fips) (simp add: assms)
  finally show ?thesis
    using fips_rounds [OF assms, of 9] assms(2)
    by (simp add: aes_enc_eq fips_Cipher_def add_round_key_xor_list)
qed

lemma fips_Cipher_length [simp]: "length s = 16 \<Longrightarrow> length key = 16 \<Longrightarrow> length (fips_Cipher key s) = 16"
  using aes_enc_fips [of s key] aes_enc_eq [of key s] by (metis add_round_key_length fips_round_key_length
    min.idem prod.inject rounds_length(1))


section \<open>Properties\<close>

text \<open>
  C13: encryption computes the cipher of FIPS 197 for every block and key of 16 bytes, and leaves the
  last round key in the key buffer.
\<close>

theorem aes_enc_is_fips197:
  assumes "length state = 16" and "length key = 16"
  shows "aes_enc_dec state key 0 = (fips_Cipher key state, fips_round_key key 10)"
  by (rule aes_enc_fips [OF assms])

theorem aes_enc_is_fips197_witness:
  "aes_enc_dec (replicate 16 3) (replicate 16 5) 0
     = (fips_Cipher (replicate 16 5) (replicate 16 3), fips_round_key (replicate 16 5) 10)"
  using aes_enc_is_fips197 [of "replicate 16 3" "replicate 16 5"] by simp

text \<open>
  C14: decryption inverts encryption and encryption inverts decryption, for every block and key of 16
  bytes; decryption leaves the key it was given in the key buffer.
\<close>

theorem aes_enc_dec_inverse:
  assumes "length state = 16" and "length key = 16" and "dir \<noteq> 0"
  shows "aes_enc_dec (fst (aes_enc_dec state key 0)) key dir = (state, key)
    \<and> fst (aes_enc_dec (fst (aes_enc_dec state key dir)) key 0) = state"
  using aes_dec_enc [OF assms] aes_enc_dec_cancel [OF assms] by blast

theorem aes_enc_dec_inverse_witness:
  "aes_enc_dec (fst (aes_enc_dec (replicate 16 3) (replicate 16 5) 0)) (replicate 16 5) 1
     = (replicate 16 3, replicate 16 5)"
  using aes_enc_dec_inverse [of "replicate 16 3" "replicate 16 5" 1] by simp

end
