(* ===== verification/Aes_Cmac.thy ===== *)
theory Aes_Cmac
  imports Aes128 "HOL-Library.Signed_Division"
begin

text \<open>
  AES-CMAC and AES-CBC as \<^verbatim>\<open>src/src/merkle/aes-cbc-cmac.c\<close> implements them on top of the block
  cipher. Lengths are C integers, so division and remainder round towards zero; input and output are
  arrays of the caller, and an access outside of them is a fault. The lemmas show that the message
  authentication code is the one of RFC 4493, and that decryption of an encrypted message gives the
  message, padded with zeros to whole blocks.
\<close>

section \<open>The code\<close>

definition BLOCK_SIZE :: int where "BLOCK_SIZE = 16"
definition LAST_INDEX :: int where "LAST_INDEX = 15"

definition INT_MAX :: int where "INT_MAX = 2147483647"

definition const_Rb :: "byte list" where
  "const_Rb = [0, 0, 0, 0, 0, 0, 0, 0, 0, 0, 0, 0, 0, 0, 0, 0x87]"

definition const_Zero :: "byte list" where
  "const_Zero = [0, 0, 0, 0, 0, 0, 0, 0, 0, 0, 0, 0, 0, 0, 0, 0]"

definition AES_128_ENC :: "byte list \<Rightarrow> byte list \<Rightarrow> byte list" where
  "AES_128_ENC key msg = fst (aes_enc_dec msg key 0)"

definition AES_128_DEC :: "byte list \<Rightarrow> byte list \<Rightarrow> byte list" where
  "AES_128_DEC key msg = fst (aes_enc_dec msg key 1)"

definition xor_128 :: "byte list \<Rightarrow> byte list \<Rightarrow> byte list" where
  "xor_128 a b = map (\<lambda>i. a ! i XOR b ! i) [0..<16]"

text \<open>The last block of a message, at an offset of the input, filled up with zero bytes.\<close>

definition padding_AES :: "byte list \<Rightarrow> int \<Rightarrow> int \<Rightarrow> byte list res" where
  "padding_AES input off len0 = (let len = len0 smod BLOCK_SIZE in
     if len = 0 then arr_read input off 16
     else bindE (arr_read input off (nat len)) (\<lambda>lastb.
       Inr (map (\<lambda>j. if int j < len then lastb ! j else 0) [0..<16])))"

text \<open>The loop of \<open>AES_CBC_ENC\<close>: pass \<open>i\<close> of \<open>n\<close>, the chaining block, and the output written so far.\<close>

function cbc_enc_loop :: "byte list \<Rightarrow> byte list \<Rightarrow> byte list \<Rightarrow> int \<Rightarrow> int \<Rightarrow> byte list \<Rightarrow> byte list \<Rightarrow> int \<Rightarrow> int \<Rightarrow>
    byte list res" where
  "cbc_enc_loop key input M_last n i X output pos outputLength =
     (if \<not> (i < n \<and> outputLength > 0) then Inr output
      else bindE (if i = n - 1 then Inr M_last else arr_read input (BLOCK_SIZE * i) 16) (\<lambda>text.
        let outLen = (if BLOCK_SIZE < outputLength then BLOCK_SIZE else outputLength);
            X' = AES_128_ENC key (xor_128 X text)
        in bindE (arr_write output pos (take (nat outLen) X')) (\<lambda>output'.
          cbc_enc_loop key input M_last n (i + 1) X' output' (pos + outLen) (outputLength - outLen))))"
  by pat_completeness auto
termination
  by (relation "measure (\<lambda>(key, input, M_last, n, i, X, output, pos, outputLength). nat (n - i))") auto

definition AES_CBC_ENC :: "byte list \<Rightarrow> byte list \<Rightarrow> byte list \<Rightarrow> int \<Rightarrow> byte list \<Rightarrow> int \<Rightarrow>
    (int \<times> byte list) res" where
  "AES_CBC_ENC IV key input inputLength output outputLength =
     (if inputLength \<le> 0 then Inr (0, output)
      else if inputLength + LAST_INDEX > INT_MAX then Inl SignedOverflow
      else let n = (inputLength + LAST_INDEX) sdiv BLOCK_SIZE in
        bindE (padding_AES input (BLOCK_SIZE * (n - 1)) inputLength) (\<lambda>M_last.
        bindE (cbc_enc_loop key input M_last n 0 IV output 0 outputLength) (\<lambda>output'.
          Inr (n * BLOCK_SIZE, output'))))"

function cbc_dec_loop :: "byte list \<Rightarrow> byte list \<Rightarrow> int \<Rightarrow> int \<Rightarrow> byte list \<Rightarrow> byte list \<Rightarrow> int \<Rightarrow> int \<Rightarrow>
    byte list res" where
  "cbc_dec_loop key input n i Z output pos outputLength =
     (if \<not> (i < n \<and> outputLength > 0) then Inr output
      else bindE (arr_read input (BLOCK_SIZE * i) 16) (\<lambda>cipher.
        let text = xor_128 Z (AES_128_DEC key cipher)
        in bindE (arr_write output pos text) (\<lambda>output'.
          cbc_dec_loop key input n (i + 1) cipher output' (pos + BLOCK_SIZE) (outputLength - BLOCK_SIZE))))"
  by pat_completeness auto
termination
  by (relation "measure (\<lambda>(key, input, n, i, Z, output, pos, outputLength). nat (n - i))") auto

definition AES_CBC_DEC :: "byte list \<Rightarrow> byte list \<Rightarrow> byte list \<Rightarrow> int \<Rightarrow> byte list \<Rightarrow> int \<Rightarrow>
    (int \<times> byte list) res" where
  "AES_CBC_DEC IV key input inputLength0 output outputLength =
     (if inputLength0 \<le> 0 then Inr (0, output)
      else let inputLength = (inputLength0 sdiv BLOCK_SIZE) * BLOCK_SIZE in
        if inputLength + LAST_INDEX > INT_MAX then Inl SignedOverflow
        else let n = (inputLength + LAST_INDEX) sdiv BLOCK_SIZE in
        bindE (cbc_dec_loop key input n 0 IV output 0 outputLength) (\<lambda>output'.
          Inr (n * BLOCK_SIZE, output')))"

text \<open>The shift runs from the last byte to the first; \<open>overflow\<close> is the bit carried over.\<close>

definition leftshift_onebit :: "byte list \<Rightarrow> byte list" where
  "leftshift_onebit input = fst (foldr (\<lambda>b (output, overflow).
     ((push_bit 1 b OR overflow) # output, if b AND 0x80 \<noteq> 0 then 1 else 0)) input ([], 0 :: byte))"

definition generate_subkey :: "byte list \<Rightarrow> byte list \<times> byte list" where
  "generate_subkey key =
     (let L = AES_128_ENC key const_Zero;
          K1 = (if L ! 0 AND 0x80 = 0 then leftshift_onebit L
                else let tmp = leftshift_onebit L in xor_128 tmp const_Rb);
          K2 = (if K1 ! 0 AND 0x80 = 0 then leftshift_onebit K1
                else let tmp = leftshift_onebit K1 in xor_128 tmp const_Rb)
      in (K1, K2))"

definition padding :: "byte list \<Rightarrow> int \<Rightarrow> int \<Rightarrow> byte list res" where
  "padding input off len = bindE (if 0 < len then arr_read input off (nat len) else Inr []) (\<lambda>lastb.
     Inr (map (\<lambda>j. if int j < len then lastb ! j else if int j = len then 0x80 else 0) [0..<16]))"

text \<open>The loop of \<open>AES_CMAC\<close>: the passes that are left, the index of the next block, the chaining block.\<close>

fun cmac_loop :: "byte list \<Rightarrow> byte list \<Rightarrow> nat \<Rightarrow> nat \<Rightarrow> byte list \<Rightarrow> byte list res" where
  "cmac_loop key input 0 i X = Inr X"
| "cmac_loop key input (Suc k) i X = bindE (arr_read input (BLOCK_SIZE * int i) 16) (\<lambda>M.
     cmac_loop key input k (Suc i) (AES_128_ENC key (xor_128 X M)))"

definition AES_CMAC :: "byte list \<Rightarrow> byte list \<Rightarrow> int \<Rightarrow> byte list res" where
  "AES_CMAC key input len =
     (if len + LAST_INDEX > INT_MAX then Inl SignedOverflow
      else let (K1, K2) = generate_subkey key;
          n0 = (len + LAST_INDEX) sdiv BLOCK_SIZE;
          n = (if n0 = 0 then 1 else n0);
          flag = (if n0 = 0 then False else len smod BLOCK_SIZE = 0)
      in bindE (if flag then bindE (arr_read input (BLOCK_SIZE * (n - 1)) 16) (\<lambda>M. Inr (xor_128 M K1))
                else bindE (padding input (BLOCK_SIZE * (n - 1)) (len smod BLOCK_SIZE)) (\<lambda>padded.
                  Inr (xor_128 padded K2))) (\<lambda>M_last.
         bindE (cmac_loop key input (nat (n - 1)) 0 (replicate 16 0)) (\<lambda>X.
           Inr (AES_128_ENC key (xor_128 X M_last)))))"

text \<open>The result of \<^verbatim>\<open>memcmp\<close> is only known to be zero or not zero.\<close>

definition AES_CMAC_CHECK :: "byte list \<Rightarrow> byte list \<Rightarrow> int \<Rightarrow> byte list \<Rightarrow> bool res" where
  "AES_CMAC_CHECK key input len mac = bindE (AES_CMAC key input len) (\<lambda>T.
     bindE (arr_read mac 0 16) (\<lambda>m. Inr (m \<noteq> T)))"

declare cbc_enc_loop.simps [simp del] cbc_dec_loop.simps [simp del]

section \<open>RFC 4493\<close>

definition be_value :: "byte list \<Rightarrow> nat" where
  "be_value bs = foldl (\<lambda>acc b. 256 * acc + unat b) 0 bs"

text \<open>Doubling in the field of \<open>2 ^ 128\<close> elements, on numbers.\<close>

definition rfc_double :: "nat \<Rightarrow> nat" where
  "rfc_double n = (if n < 2 ^ 127 then 2 * n else ((2 * n) mod 2 ^ 128) XOR 0x87)"

text \<open>The message authentication code, given the cipher and the two subkeys.\<close>

definition rfc_cmac :: "(byte list \<Rightarrow> byte list) \<Rightarrow> byte list \<Rightarrow> byte list \<Rightarrow> byte list \<Rightarrow> byte list" where
  "rfc_cmac E K1 K2 M =
     (let k = (length M - 1) div 16;
          M_n = drop (16 * k) M;
          M_last = (if length M_n = 16 then xor_list M_n K1
                    else xor_list (M_n @ 0x80 # replicate (15 - length M_n) 0) K2)
      in foldl (\<lambda>X B. E (xor_list X B)) (replicate 16 0) (chunks 16 (take (16 * k) M) @ [M_last]))"

section \<open>Blocks\<close>

lemma xor_128_xor_list:
  assumes "length a = 16" and "length b = 16"
  shows "xor_128 a b = xor_list a b"
  by (rule nth_equalityI) (use assms in \<open>auto simp: xor_128_def xor_list_def\<close>)

lemma xor_128_length [simp]: "length (xor_128 a b) = 16"
  by (simp add: xor_128_def)

lemma AES_128_ENC_length [simp]:
  "length msg = 16 \<Longrightarrow> length key = 16 \<Longrightarrow> length (AES_128_ENC key msg) = 16"
  by (simp add: AES_128_ENC_def aes_enc_fips)

lemma AES_128_ENC_fips: "length msg = 16 \<Longrightarrow> length key = 16 \<Longrightarrow> AES_128_ENC key msg = fips_Cipher key msg"
  by (simp add: AES_128_ENC_def aes_enc_fips)

lemma AES_128_DEC_ENC: "length msg = 16 \<Longrightarrow> length key = 16 \<Longrightarrow> AES_128_DEC key (AES_128_ENC key msg) = msg"
  by (simp add: AES_128_DEC_def AES_128_ENC_def aes_dec_enc)

lemma const_lengths [simp]: "length const_Rb = 16" "length const_Zero = 16"
  by (simp_all add: const_Rb_def const_Zero_def)

lemma sdiv_smod_nat: "int a sdiv int b = int (a div b)" "int a smod int b = int (a mod b)"
  by (simp_all add: signed_divide_int_def signed_modulo_int_def zdiv_int zmod_int sgn_if)

lemma sdiv_16: "(int a + LAST_INDEX) sdiv BLOCK_SIZE = int ((a + 15) div 16)"
  "int a smod BLOCK_SIZE = int (a mod 16)" "int a sdiv BLOCK_SIZE = int (a div 16)"
  using sdiv_smod_nat [of "a + 15" 16] sdiv_smod_nat [of a 16] by (simp_all add: LAST_INDEX_def BLOCK_SIZE_def)

lemma arr_read_block:
  "16 * i + n \<le> length xs \<Longrightarrow> arr_read xs (BLOCK_SIZE * int i) n = Inr (take n (drop (16 * i) xs))"
  using arr_read_ok [of "16 * i" n xs] by (simp add: BLOCK_SIZE_def)

section \<open>The subkeys\<close>

lemma be_value_Cons: "be_value (b # bs) = unat b * 256 ^ length bs + be_value bs"
proof -
  have "foldl (\<lambda>acc b. 256 * acc + unat b) a bs = a * 256 ^ length bs + foldl (\<lambda>acc b. 256 * acc + unat b) 0 bs"
    for a and bs :: "byte list"
  proof (induction bs arbitrary: a)
    case (Cons c bs)
    from Cons [of "256 * a + unat c"] Cons [of "unat c"] show ?case by (simp add: algebra_simps)
  qed simp
  from this [of "unat b" bs] show ?thesis by (simp add: be_value_def)
qed

lemma be_value_less: "be_value bs < 256 ^ length bs"
proof (induction bs)
  case (Cons b bs)
  have "unat b + 1 \<le> 256" using unat_byte_less [of b] by simp
  then have "(unat b + 1) * 256 ^ length bs \<le> 256 * 256 ^ length bs" by (rule mult_right_mono) simp
  moreover have "be_value (b # bs) < (unat b + 1) * 256 ^ length bs" using Cons by (simp add: be_value_Cons)
  ultimately have "be_value (b # bs) < 256 * 256 ^ length bs" by linarith
  then show ?case by simp
qed (simp add: be_value_def)

lemma byte_double_or: "unat (push_bit 1 b OR (if c then 1 else 0)) = (2 * unat b) mod 256 + (if c then 1 else 0)"
  for b :: byte
proof -
  have d: "unat (push_bit 1 b) = 2 * unat b mod 256" by (simp add: unat_word_ariths mult.commute)
  have "push_bit 1 b OR 1 = push_bit 1 b + 1"
    by (rule disjunctive_add_eq_or [symmetric]) (simp add: and_one_eq mod_2_eq_odd)
  moreover have "2 * unat b mod 256 + 1 < 256"
  proof -
    have "2 * unat b mod 256 < 256" "even (2 * unat b mod 256)" by (simp_all add: dvd_mod)
    then show ?thesis by (metis Suc_eq_plus1 Suc_lessI even_Suc even_numeral)
  qed
  ultimately show ?thesis using d by (cases c) (auto simp: unat_add_no_wrap)
qed

lemma double_split:
  fixes P h r c v w :: nat
  assumes "2 * u = 256 * h + r" and "2 * v = c * P + w" and "r + c < 256" and "w < P"
  shows "2 * (u * P + v) = 256 * P * h + ((r + c) * P + w)" and "(r + c) * P + w < 256 * P"
proof -
  have "2 * (u * P + v) = (2 * u) * P + 2 * v" by (simp add: algebra_simps)
  then show "2 * (u * P + v) = 256 * P * h + ((r + c) * P + w)"
    unfolding assms(1,2) by (simp add: algebra_simps)
  have "(r + c + 1) * P \<le> 256 * P" using assms(3) by (intro mult_right_mono) auto
  moreover have "(r + c) * P + w < (r + c + 1) * P" using assms(4) by simp
  ultimately show "(r + c) * P + w < 256 * P" by linarith
qed

definition shl_step :: "byte \<Rightarrow> byte list \<times> byte \<Rightarrow> byte list \<times> byte" where
  "shl_step = (\<lambda>b (output, overflow). ((push_bit 1 b OR overflow) # output, if b AND 0x80 \<noteq> 0 then 1 else 0))"

lemma shl_value:
  "\<exists>out c. foldr shl_step bs ([], 0) = (out, if c then 1 else 0) \<and> length out = length bs
     \<and> 2 * be_value bs = (if c then 1 else 0) * 256 ^ length bs + be_value out"
proof (induction bs)
  case Nil
  show ?case by (intro exI [of _ "[]"] exI [of _ False]) (simp add: be_value_def)
next
  case (Cons b bs)
  then obtain out c where IH: "foldr shl_step bs ([], 0) = (out, if c then 1 else 0)" "length out = length bs"
    "2 * be_value bs = (if c then 1 else 0) * 256 ^ length bs + be_value out" by blast
  let ?h = "128 \<le> unat b" and ?r = "2 * unat b mod 256"
  have u: "2 * unat b = 256 * (if ?h then 1 else 0) + ?r"
  proof -
    have "2 * unat b div 256 = (if ?h then 1 else 0)"
    proof (cases ?h)
      case True
      then show ?thesis using unat_byte_less [of b] by (simp add: div_nat_eqI)
    qed simp
    then show ?thesis using mult_div_mod_eq [of 256 "2 * unat b"] by simp
  qed
  have e: "unat (push_bit 1 b OR (if c then 1 else 0)) = ?r + (if c then 1 else 0)" by (rule byte_double_or)
  then have lt: "?r + (if c then 1 else 0) < 256" using unat_byte_less by metis
  have w: "be_value out < 256 ^ length bs" using be_value_less [of out] IH(2) by simp
  note d = double_split [OF u IH(3) lt w]
  let ?o = "(push_bit 1 b OR (if c then 1 else 0)) # out"
  show ?case
  proof (intro exI conjI)
    show "foldr shl_step (b # bs) ([], 0) = (?o, if ?h then 1 else 0)"
      using IH(1) byte_msb [of b] by (simp add: shl_step_def not_less)
    show "length ?o = length (b # bs)" using IH(2) by simp
    show "2 * be_value (b # bs) = (if ?h then 1 else 0) * 256 ^ length (b # bs) + be_value ?o"
      unfolding be_value_Cons e IH(2) using d(1) by (simp only: length_Cons power_Suc mult.commute)
  qed
qed

lemma leftshift_value:
  shows "length (leftshift_onebit bs) = length bs"
    and "be_value (leftshift_onebit bs) = 2 * be_value bs mod 256 ^ length bs"
proof -
  obtain out c where o: "foldr shl_step bs ([], 0) = (out, if c then 1 else 0)" "length out = length bs"
    "2 * be_value bs = (if c then 1 else 0) * 256 ^ length bs + be_value out"
    using shl_value by blast
  have l: "leftshift_onebit bs = out" using o(1) by (simp add: leftshift_onebit_def shl_step_def)
  then show "length (leftshift_onebit bs) = length bs" using o(2) by simp
  have "be_value out < 256 ^ length bs" using be_value_less [of out] o(2) by simp
  then show "be_value (leftshift_onebit bs) = 2 * be_value bs mod 256 ^ length bs"
    using o(3) l by (cases c) simp_all
qed

text \<open>Adding the constant changes the last byte only.\<close>

lemma be_value_append: "be_value (xs @ ys) = be_value xs * 256 ^ length ys + be_value ys"
  by (induction xs) (simp_all add: be_value_Cons, simp_all add: be_value_def algebra_simps power_add)

lemma xor_low_byte:
  fixes n u k :: nat
  assumes "u < 256" and "k < 256"
  shows "(256 * n + u) XOR k = 256 * n + (u XOR k)"
proof -
  let ?a = "(256 * n + u) XOR k"
  have "drop_bit 8 ?a = n" unfolding drop_bit_xor using assms by (simp add: drop_bit_eq_div)
  moreover have "take_bit 8 ?a = u XOR k" unfolding take_bit_xor using assms by (simp add: take_bit_eq_mod)
  moreover have "?a = push_bit 8 (drop_bit 8 ?a) + take_bit 8 ?a" by (rule bits_ident [symmetric])
  ultimately show ?thesis by (simp add: push_bit_eq_mult mult.commute)
qed

lemma be_value_xor_Rb:
  assumes "length bs = 16"
  shows "be_value (xor_128 bs const_Rb) = be_value bs XOR 0x87"
proof -
  obtain xs x where bs: "bs = xs @ [x]" using assms by (cases bs rule: rev_cases) auto
  then have xs: "length xs = 15" using assms by simp
  have "xor_128 bs const_Rb = xs @ [x XOR 0x87]"
  proof (rule nth_equalityI)
    fix i assume "i < length (xor_128 bs const_Rb)"
    then have i: "i < 16" by simp
    have z: "const_Rb ! i = (if i = 15 then 0x87 else 0)"
      using i by (auto simp: const_Rb_def nth_Cons' numeral_eq_Suc)
    show "xor_128 bs const_Rb ! i = (xs @ [x XOR 0x87]) ! i"
      using i xs by (auto simp: xor_128_def z bs nth_append)
  qed (simp add: xs)
  moreover have "unat (x XOR 0x87) = unat x XOR 0x87" by (simp add: unsigned_xor_eq)
  ultimately show ?thesis
    using bs xor_low_byte [of "unat x" "0x87" "be_value xs"] unat_byte_less [of x]
    by (simp add: be_value_append) (simp add: be_value_def mult.commute)
qed

lemma msb_value:
  assumes "length bs = 16"
  shows "(bs ! 0 AND 0x80 = 0) = (be_value bs < 2 ^ 127)"
proof -
  obtain b cs where bs: "bs = b # cs" "length cs = 15" using assms by (cases bs) auto
  have c: "be_value cs < 256 ^ 15" using be_value_less [of cs] bs(2) by simp
  have v: "be_value bs = unat b * 256 ^ 15 + be_value cs" by (simp add: bs be_value_Cons)
  have "unat b * 256 ^ 15 + be_value cs < 128 * 256 ^ 15 \<longleftrightarrow> unat b < 128"
  proof
    assume "unat b < 128"
    then have "(unat b + 1) * 256 ^ 15 \<le> 128 * 256 ^ 15" by (intro mult_right_mono) auto
    then show "unat b * 256 ^ 15 + be_value cs < 128 * 256 ^ 15" using c by simp
  next
    assume "unat b * 256 ^ 15 + be_value cs < 128 * 256 ^ 15"
    then have "unat b * 256 ^ 15 < 128 * 256 ^ 15" by (rule le_less_trans [OF le_add1])
    then show "unat b < 128" by simp
  qed
  then show ?thesis using byte_msb [of b] v bs(1) by simp
qed

definition next_subkey :: "byte list \<Rightarrow> byte list" where
  "next_subkey L = (if L ! 0 AND 0x80 = 0 then leftshift_onebit L else xor_128 (leftshift_onebit L) const_Rb)"

lemma subkey_step:
  assumes "length L = 16"
  shows "be_value (next_subkey L) = rfc_double (be_value L)" and "length (next_subkey L) = 16"
proof -
  note s = leftshift_value [of L]
  have "(256::nat) ^ 16 = 2 ^ 128" by simp
  then have v: "be_value (leftshift_onebit L) = 2 * be_value L mod 2 ^ 128" using s(2) assms by simp
  have "2 * be_value L mod 2 ^ 128 = 2 * be_value L" if "be_value L < 2 ^ 127" using that by simp
  then show "be_value (next_subkey L) = rfc_double (be_value L)"
    using v msb_value [OF assms] be_value_xor_Rb [of "leftshift_onebit L"] s(1) assms
    by (simp add: rfc_double_def next_subkey_def)
qed (use assms leftshift_value(1) [of L] in \<open>simp add: next_subkey_def\<close>)

lemma generate_subkey_rfc:
  assumes "length key = 16" and "generate_subkey key = (K1, K2)"
  shows "length K1 = 16" and "length K2 = 16"
    and "be_value K1 = rfc_double (be_value (fips_Cipher key (replicate 16 0)))"
    and "be_value K2 = rfc_double (be_value K1)"
proof -
  let ?L = "AES_128_ENC key const_Zero"
  have z: "const_Zero = replicate 16 0" by (simp add: const_Zero_def numeral_eq_Suc)
  have L: "length ?L = 16" "?L = fips_Cipher key (replicate 16 0)"
    using assms(1) z by (simp_all add: AES_128_ENC_fips)
  have k: "K1 = next_subkey ?L" "K2 = next_subkey K1"
    using assms(2) by (auto simp: generate_subkey_def Let_def next_subkey_def)
  show K1: "length K1 = 16" unfolding k(1) by (rule subkey_step(2) [OF L(1)])
  show "length K2 = 16" "be_value K2 = rfc_double (be_value K1)"
    unfolding k(2) by (rule subkey_step [OF K1])+
  show "be_value K1 = rfc_double (be_value (fips_Cipher key (replicate 16 0)))"
    unfolding L(2) [symmetric] k(1) by (rule subkey_step(1) [OF L(1)])
qed

section \<open>The message authentication code\<close>

lemma padding_eq:
  assumes "m < 16" and "16 * k + m \<le> length input"
  shows "padding input (BLOCK_SIZE * int k) (int m) =
    Inr (take m (drop (16 * k) input) @ 0x80 # replicate (15 - m) 0)"
proof -
  have "map (\<lambda>j. if int j < int m then take m (drop (16 * k) input) ! j else if int j = int m then 0x80 else 0) [0..<16]
      = take m (drop (16 * k) input) @ 0x80 # replicate (15 - m) 0"
    by (rule nth_equalityI) (use assms in \<open>auto simp: nth_append nth_Cons'\<close>)
  then show ?thesis
    using assms arr_read_block [of k m input] by (cases "m = 0") (simp_all add: padding_def)
qed

lemma take_16_Suc:
  "16 * Suc k \<le> length xs \<Longrightarrow> take (16 * Suc k) xs = take 16 xs @ take (16 * k) (drop 16 xs)"
  by (simp add: take_add)

lemma cmac_loop_eq:
  assumes "length key = 16"
  shows "16 * (i + k) \<le> length input \<Longrightarrow> length X = 16 \<Longrightarrow> cmac_loop key input k i X =
    Inr (foldl (\<lambda>X B. AES_128_ENC key (xor_list X B)) X (chunks 16 (take (16 * k) (drop (16 * i) input))))"
proof (induction k arbitrary: i X)
  case (Suc k)
  let ?B = "take 16 (drop (16 * i) input)"
  have B: "length ?B = 16" using Suc(2) by simp
  have "take (16 * Suc k) (drop (16 * i) input) = ?B @ take (16 * k) (drop (16 * Suc i) input)"
    using Suc(2) take_16_Suc [of k "drop (16 * i) input"] by (simp add: add.commute)
  then have "chunks 16 (take (16 * Suc k) (drop (16 * i) input)) = ?B # chunks 16 (take (16 * k) (drop (16 * Suc i) input))"
    using chunks_block [OF _ B] by simp
  moreover have "arr_read input (BLOCK_SIZE * int i) 16 = Inr ?B"
    using Suc(2) by (intro arr_read_block) simp
  moreover have "xor_128 X ?B = xor_list X ?B" using Suc(3) B by (rule xor_128_xor_list)
  moreover have "length (AES_128_ENC key (xor_list X ?B)) = 16" using Suc(3) B assms by simp
  ultimately show ?case using Suc(1) [of "Suc i" "AES_128_ENC key (xor_list X ?B)"] Suc(2) by simp
qed simp

lemma last_block_index:
  fixes len :: nat
  assumes "0 < len"
  shows "(len + 15) div 16 = (len - 1) div 16 + 1" and "16 * ((len - 1) div 16) < len"
    and "len - 16 * ((len - 1) div 16) \<le> 16"
    and "(len - 16 * ((len - 1) div 16) = 16) = (len mod 16 = 0)"
    and "len mod 16 \<noteq> 0 \<Longrightarrow> len - 16 * ((len - 1) div 16) = len mod 16"
proof -
  obtain m where m: "len = Suc m" using assms by (cases len) auto
  define q r where "q = m div 16" and "r = m mod 16"
  have mm: "m = 16 * q + r" "r < 16" by (simp_all add: q_def r_def)
  have "(len + 15) div 16 = (m + 16) div 16" using m by simp
  then show "(len + 15) div 16 = (len - 1) div 16 + 1" using m by simp
  have k: "(len - 1) div 16 = q" using m by (simp add: q_def)
  show "16 * ((len - 1) div 16) < len" "len - 16 * ((len - 1) div 16) \<le> 16"
    unfolding k using m mm by auto
  have "len mod 16 = (r + 1) mod 16" using m mm by (metis Suc_eq_plus1 add.assoc mod_mult_self4)
  then have lm: "len mod 16 = (if r = 15 then 0 else r + 1)" using mm(2) by (auto simp: mod_less)
  have d: "len - 16 * ((len - 1) div 16) = r + 1" unfolding k using m mm by simp
  show "(len - 16 * ((len - 1) div 16) = 16) = (len mod 16 = 0)" unfolding d lm by auto
  show "len mod 16 \<noteq> 0 \<Longrightarrow> len - 16 * ((len - 1) div 16) = len mod 16" unfolding d lm by auto
qed

text \<open>The last block of the message under the subkeys, as the code and as the standard computes it.\<close>

lemma cmac_last_block:
  assumes "n \<le> length input" and "length K1 = 16" and "length K2 = 16" and "k = (n - 1) div 16"
    and "M_n = drop (16 * k) (take n input)"
  shows "(if n \<noteq> 0 \<and> n mod 16 = 0 then bindE (arr_read input (BLOCK_SIZE * int k) 16) (\<lambda>M. Inr (xor_128 M K1))
      else bindE (padding input (BLOCK_SIZE * int k) (int (n mod 16))) (\<lambda>padded. Inr (xor_128 padded K2)))
    = Inr (if length M_n = 16 then xor_list M_n K1
           else xor_list (M_n @ 0x80 # replicate (15 - length M_n) 0) K2)"
proof -
  have len: "length M_n = n - 16 * k" using assms(1,5) by simp
  have M: "M_n = take (n - 16 * k) (drop (16 * k) input)" by (simp add: assms(5) drop_take)
  show ?thesis
  proof (cases "n = 0")
    case True
    then have "k = 0" "M_n = []" using assms(4,5) by auto
    then show ?thesis using True padding_eq [of 0 0 input] assms(3) by (simp add: xor_128_xor_list)
  next
    case False
    note i = last_block_index [of n, folded assms(4)]
    show ?thesis
    proof (cases "n mod 16 = 0")
      case True
      then have l16: "length M_n = 16" using i(4) False len by simp
      then have "arr_read input (BLOCK_SIZE * int k) 16 = Inr M_n"
        using M assms(1) len False i(2) by (subst arr_read_block) auto
      then show ?thesis using True False l16 assms(2) by (simp add: xor_128_xor_list)
    next
      case nz: False
      then have l: "length M_n = n mod 16" using i(5) False len by simp
      then have "padding input (BLOCK_SIZE * int k) (int (n mod 16))
          = Inr (M_n @ 0x80 # replicate (15 - length M_n) 0)"
        using M assms(1) len False i(2) by (subst padding_eq) auto
      moreover have "length M_n < 16" using l by simp
      ultimately show ?thesis using nz assms(3) by (simp add: xor_128_xor_list)
    qed
  qed
qed

lemma foldl_enc_length:
  "length key = 16 \<Longrightarrow> length X = 16 \<Longrightarrow> list_all (\<lambda>B. length B = 16) Bs \<Longrightarrow>
     length (foldl (\<lambda>X B. AES_128_ENC key (xor_list X B)) X Bs) = 16"
  by (induction Bs arbitrary: X) auto

lemma AES_CMAC_eq:
  assumes "length key = 16" and "n \<le> length input" and "int n + 15 \<le> INT_MAX"
    and "generate_subkey key = (K1, K2)"
  shows "AES_CMAC key input (int n) = Inr (rfc_cmac (AES_128_ENC key) K1 K2 (take n input))"
proof -
  define k where "k = (n - 1) div 16"
  define M_n where "M_n = drop (16 * k) (take n input)"
  define M_last where "M_last = (if length M_n = 16 then xor_list M_n K1
    else xor_list (M_n @ 0x80 # replicate (15 - length M_n) 0) K2)"
  note K = generate_subkey_rfc(1,2) [OF assms(1,4)]
  have nlen: "length (take n input) = n" using assms(2) by simp
  have nk: "(if (n + 15) div 16 = 0 then 1 else (n + 15) div 16) = k + 1"
    using last_block_index(1) [of n] by (cases "n = 0") (simp_all add: k_def)
  have flag: "(if (n + 15) div 16 = 0 then False else n mod 16 = 0) = (n \<noteq> 0 \<and> n mod 16 = 0)"
    by (cases "n = 0") auto
  have "16 * k \<le> n" by (cases "n = 0") (use last_block_index(2) [of n] in \<open>simp_all add: k_def\<close>)
  then have le: "16 * (0 + k) \<le> length input" and tk: "take (16 * k) input = take (16 * k) (take n input)"
    using assms(2) by (auto simp: min_def)
  have "length M_n \<le> 16"
    using last_block_index(3) [of n] assms(2) by (cases "n = 0") (simp_all add: M_n_def k_def)
  then have "length M_last = 16" using K by (auto simp: M_last_def)
  moreover define X where "X = foldl (\<lambda>X B. AES_128_ENC key (xor_list X B)) (replicate 16 0)
    (chunks 16 (take (16 * k) (take n input)))"
  have loop: "cmac_loop key input k 0 (replicate 16 0) = Inr X"
    using cmac_loop_eq [OF assms(1) le, of "replicate 16 0"] tk by (simp add: X_def)
  have "length X = 16"
    unfolding X_def by (rule foldl_enc_length) (auto simp: assms(1) list_all_iff length_chunks_elem)
  ultimately have "AES_128_ENC key (xor_128 X M_last) = AES_128_ENC key (xor_list X M_last)"
    by (simp add: xor_128_xor_list)
  also have "\<dots> = rfc_cmac (AES_128_ENC key) K1 K2 (take n input)"
    unfolding rfc_cmac_def Let_def nlen k_def [symmetric] M_n_def [symmetric] M_last_def [symmetric]
      foldl_append X_def [symmetric] by simp
  finally have "AES_128_ENC key (xor_128 X M_last) = rfc_cmac (AES_128_ENC key) K1 K2 (take n input)" .
  then have mac: "bindE (cmac_loop key input k 0 (replicate 16 0)) (\<lambda>X. Inr (AES_128_ENC key (xor_128 X M_last)))
      = Inr (rfc_cmac (AES_128_ENC key) K1 K2 (take n input))" by (simp only: loop bindE_Inr)
  have i1: "(if int ((n + 15) div 16) = 0 then 1 else int ((n + 15) div 16)) = int k + 1"
    using nk by (cases "(n + 15) div 16 = 0") simp_all
  have i2: "(if int ((n + 15) div 16) = 0 then False else int (n mod 16) = 0) = (n \<noteq> 0 \<and> n mod 16 = 0)"
    using flag by (simp only: of_nat_eq_0_iff)
  have i3: "int k + 1 - 1 = int k" "nat (int k) = k" by simp_all
  have i4: "\<not> int n + LAST_INDEX > INT_MAX" using assms(3) by (simp add: LAST_INDEX_def)
  show ?thesis
    unfolding AES_CMAC_def assms(4) sdiv_16 Let_def prod.case i1 i2 i3
      cmac_last_block [OF assms(2) K k_def M_n_def, folded M_last_def] bindE_Inr mac if_not_P [OF i4] ..
qed
section \<open>Cipher block chaining\<close>

fun cbc_enc :: "byte list \<Rightarrow> byte list \<Rightarrow> byte list list \<Rightarrow> byte list list" where
  "cbc_enc key X [] = []"
| "cbc_enc key X (B # Bs) = (let C = AES_128_ENC key (xor_128 X B) in C # cbc_enc key C Bs)"

fun cbc_dec :: "byte list \<Rightarrow> byte list \<Rightarrow> byte list list \<Rightarrow> byte list list" where
  "cbc_dec key Z [] = []"
| "cbc_dec key Z (C # Cs) = xor_128 Z (AES_128_DEC key C) # cbc_dec key C Cs"

abbreviation blocks16 :: "byte list list \<Rightarrow> bool" where
  "blocks16 Bs \<equiv> list_all (\<lambda>B. length B = 16) Bs"

lemma xor_128_cancel: "length B = 16 \<Longrightarrow> xor_128 X (xor_128 X B) = B"
  by (rule nth_equalityI) (simp_all add: xor_128_def xor_cancel)

lemma cbc_enc_shape:
  "length key = 16 \<Longrightarrow> length (cbc_enc key X Bs) = length Bs \<and> blocks16 (cbc_enc key X Bs)"
  by (induction Bs arbitrary: X) (simp_all add: Let_def)

lemma cbc_dec_enc: "length key = 16 \<Longrightarrow> blocks16 Bs \<Longrightarrow> cbc_dec key X (cbc_enc key X Bs) = Bs"
  by (induction Bs arbitrary: X) (simp_all add: Let_def AES_128_DEC_ENC xor_128_cancel)

lemma upt_step: "i < n \<Longrightarrow> [i..<n] = i # [Suc i..<n]"
  by (rule upt_conv_Cons)

text \<open>One block written behind what has been written so far.\<close>

lemma write_block:
  assumes "length C = 16" and "i < n" and "16 * n \<le> length buf"
  shows "arr_write buf (int (16 * i)) C = Inr (take (16 * i) buf @ C @ drop (16 * Suc i) buf)"
    and "length (take (16 * i) buf @ C @ drop (16 * Suc i) buf) = length buf"
    and "take (16 * Suc i) (take (16 * i) buf @ C @ drop (16 * Suc i) buf) = take (16 * i) buf @ C"
    and "drop (16 * n) (take (16 * i) buf @ C @ drop (16 * Suc i) buf) = drop (16 * n) buf"
proof -
  have le: "16 * i + 16 \<le> 16 * n" using assms(2) by simp
  show "arr_write buf (int (16 * i)) C = Inr (take (16 * i) buf @ C @ drop (16 * Suc i) buf)"
    using arr_write_ok [of "16 * i" C buf] assms le by (simp add: add.commute)
  show "length (take (16 * i) buf @ C @ drop (16 * Suc i) buf) = length buf"
    using assms le by simp
  show "take (16 * Suc i) (take (16 * i) buf @ C @ drop (16 * Suc i) buf) = take (16 * i) buf @ C"
    using assms le by simp
  show "drop (16 * n) (take (16 * i) buf @ C @ drop (16 * Suc i) buf) = drop (16 * n) buf"
    using assms le by simp
qed

lemma cbc_enc_loop_eq:
  assumes "length key = 16" and "16 * n \<le> length input + 16" and "length M_last = 16"
  shows "i \<le> n \<Longrightarrow> 16 * n \<le> length buf \<Longrightarrow> int (16 * (n - i)) \<le> room \<Longrightarrow>
    cbc_enc_loop key input M_last (int n) (int i) X buf (int (16 * i)) room =
      Inr (take (16 * i) buf
        @ concat (cbc_enc key X (map (\<lambda>j. if j = n - 1 then M_last else take 16 (drop (16 * j) input)) [i..<n]))
        @ drop (16 * n) buf)"
proof (induction "n - i" arbitrary: i X buf room)
  case 0
  then have "i = n" by simp
  then show ?case by (subst cbc_enc_loop.simps) simp
next
  case (Suc k)
  then have i: "i < n" by simp
  define B where "B = (if i = n - 1 then M_last else take 16 (drop (16 * i) input))"
  have rd: "(if int i = int n - 1 then Inr M_last else arr_read input (BLOCK_SIZE * int i) 16) = Inr B"
  proof (cases "i = n - 1")
    case True
    then have "int i = int n - 1" using i by simp
    then show ?thesis using True by (simp add: B_def)
  next
    case False
    then have "16 * i + 16 \<le> length input" and "int i \<noteq> int n - 1" using i assms(2) by auto
    then show ?thesis using arr_read_block [of i 16 input] False by (simp add: B_def)
  qed
  let ?C = "AES_128_ENC key (xor_128 X B)"
  have C: "length ?C = 16" using assms(1) by simp
  note w = write_block [OF C i Suc(4)]
  have ol: "(if BLOCK_SIZE < room then BLOCK_SIZE else room) = 16" "0 < room"
    using Suc(5) i by (auto simp: BLOCK_SIZE_def)
  let ?out = "take (16 * i) buf @ ?C @ drop (16 * Suc i) buf"
  have "cbc_enc_loop key input M_last (int n) (int i) X buf (int (16 * i)) room =
      cbc_enc_loop key input M_last (int n) (int (Suc i)) ?C ?out (int (16 * Suc i)) (room - 16)"
    using i ol rd w(1) C by (subst cbc_enc_loop.simps) (simp add: Let_def add.commute)
  also have "\<dots> = Inr (take (16 * Suc i) ?out
        @ concat (cbc_enc key ?C (map (\<lambda>j. if j = n - 1 then M_last else take 16 (drop (16 * j) input)) [Suc i..<n]))
        @ drop (16 * n) ?out)"
    by (rule Suc(1)) (use Suc(2-5) i w(2) in auto)
  finally show ?case unfolding w(3,4) upt_step [OF i] by (simp add: Let_def B_def)
qed

lemma cbc_dec_loop_eq:
  assumes "length key = 16" and "16 * n \<le> length input"
  shows "i \<le> n \<Longrightarrow> 16 * n \<le> length buf \<Longrightarrow> int (16 * (n - i)) \<le> room \<Longrightarrow>
    cbc_dec_loop key input (int n) (int i) Z buf (int (16 * i)) room =
      Inr (take (16 * i) buf
        @ concat (cbc_dec key Z (map (\<lambda>j. take 16 (drop (16 * j) input)) [i..<n]))
        @ drop (16 * n) buf)"
proof (induction "n - i" arbitrary: i Z buf room)
  case 0
  then have "i = n" by simp
  then show ?case by (subst cbc_dec_loop.simps) simp
next
  case (Suc k)
  then have i: "i < n" by simp
  define C where "C = take 16 (drop (16 * i) input)"
  have rd: "arr_read input (BLOCK_SIZE * int i) 16 = Inr C"
    using i assms(2) arr_read_block [of i 16 input] by (simp add: C_def)
  let ?T = "xor_128 Z (AES_128_DEC key C)"
  note w = write_block [OF xor_128_length [of Z "AES_128_DEC key C"] i Suc(4)]
  let ?out = "take (16 * i) buf @ ?T @ drop (16 * Suc i) buf"
  have "0 < room" using Suc(5) i by auto
  then have "cbc_dec_loop key input (int n) (int i) Z buf (int (16 * i)) room =
      cbc_dec_loop key input (int n) (int (Suc i)) C ?out (int (16 * Suc i)) (room - 16)"
    using i rd w(1) by (subst cbc_dec_loop.simps) (simp add: Let_def BLOCK_SIZE_def add.commute)
  also have "\<dots> = Inr (take (16 * Suc i) ?out
        @ concat (cbc_dec key C (map (\<lambda>j. take 16 (drop (16 * j) input)) [Suc i..<n]))
        @ drop (16 * n) ?out)"
    by (rule Suc(1)) (use Suc(2-5) i w(2) in auto)
  finally show ?case unfolding w(3,4) upt_step [OF i] by (simp add: C_def)
qed

lemma blocks_of_concat:
  "blocks16 Cs \<Longrightarrow> map (\<lambda>j. take 16 (drop (16 * j) (concat Cs))) [0..<length Cs] = Cs"
proof (induction Cs)
  case (Cons C Cs)
  have "[0..<length (C # Cs)] = 0 # map Suc [0..<length Cs]"
    by (metis length_Cons map_Suc_upt upt_conv_Cons zero_less_Suc)
  then show ?case using Cons by (simp add: o_def del: upt_Suc)
qed simp


lemma concat_blocks_of:
  "length P = 16 * n \<Longrightarrow> concat (map (\<lambda>j. take 16 (drop (16 * j) P)) [0..<n]) = P"
proof (induction n arbitrary: P)
  case (Suc n)
  have "[0..<Suc n] = 0 # map Suc [0..<n]" by (metis map_Suc_upt upt_conv_Cons zero_less_Suc)
  moreover have "concat (map (\<lambda>j. take 16 (drop (16 * j) (drop 16 P))) [0..<n]) = drop 16 P"
    by (rule Suc(1)) (use Suc(2) in simp)
  ultimately show ?case by (simp add: o_def add.commute del: upt_Suc)
qed simp

definition zero_padded :: "nat \<Rightarrow> byte list \<Rightarrow> byte list" where
  "zero_padded n M = M @ replicate (16 * n - length M) 0"

definition message_blocks :: "nat \<Rightarrow> byte list \<Rightarrow> byte list list" where
  "message_blocks n M = map (\<lambda>j. take 16 (drop (16 * j) (zero_padded n M))) [0..<n]"

lemma message_blocks_shape:
  assumes "length M \<le> 16 * n"
  shows "blocks16 (message_blocks n M)" and "length (message_blocks n M) = n"
    and "concat (message_blocks n M) = zero_padded n M"
  using assms concat_blocks_of [of "zero_padded n M" n]
  by (auto simp: message_blocks_def zero_padded_def list_all_iff)

lemma padding_AES_eq:
  assumes "0 < len" and "len \<le> length input" and "k = (len - 1) div 16"
  shows "padding_AES input (BLOCK_SIZE * int k) (int len) =
    Inr (drop (16 * k) (take len input) @ replicate (16 * (k + 1) - len) 0)"
proof (cases "len mod 16 = 0")
  case True
  note i = last_block_index [OF assms(1), folded assms(3)]
  have "len - 16 * k = 16" using True i(4) by simp
  moreover from this have "16 * (k + 1) - len = 0" "16 * k + 16 = len" by auto
  ultimately show ?thesis using True assms(2) arr_read_block [of k 16 input]
    by (simp add: padding_AES_def sdiv_16 drop_take)
next
  case False
  note i = last_block_index [OF assms(1), folded assms(3)]
  define m where "m = len mod 16"
  have m: "len - 16 * k = m" "m < 16" "m \<noteq> 0" using False i(5) by (simp_all add: m_def)
  then have e: "16 * (k + 1) - len = 16 - m" "16 * k + m = len" using i(2) by auto
  have "map (\<lambda>j. if int j < int m then take m (drop (16 * k) input) ! j else 0) [0..<16]
      = take m (drop (16 * k) input) @ replicate (16 - m) 0"
    by (rule nth_equalityI) (use m e(2) assms(2) in \<open>auto simp: nth_append\<close>)
  then show ?thesis using m(1,3) e arr_read_block [of k m input] assms(2)
    by (simp add: padding_AES_def sdiv_16 m_def [symmetric] drop_take Let_def)
qed

lemma enc_blocks_eq:
  assumes "0 < len" and "len \<le> length input" and "k = (len - 1) div 16"
    and "M_last = drop (16 * k) (take len input) @ replicate (16 * (k + 1) - len) 0"
  shows "map (\<lambda>j. if j = Suc k - 1 then M_last else take 16 (drop (16 * j) input)) [0..<Suc k]
    = message_blocks (Suc k) (take len input)"
proof -
  note i = last_block_index [OF assms(1), folded assms(3)]
  have len: "length (take len input) = len" using assms(2) by simp
  have "(if j = Suc k - 1 then M_last else take 16 (drop (16 * j) input))
      = take 16 (drop (16 * j) (zero_padded (Suc k) (take len input)))" if "j < Suc k" for j
  proof (cases "j = k")
    case True
    then show ?thesis using i(2,3) len assms(4) by (simp add: zero_padded_def)
  next
    case False
    then have "16 * j + 16 \<le> len" using that i(2) by simp
    moreover have "take 16 (drop (16 * j) (take len input @ zs)) = take 16 (drop (16 * j) input)"
      if "16 * j + 16 \<le> len" for zs using that len by (simp add: drop_take min_absorb1)
    ultimately show ?thesis using False unfolding zero_padded_def by (simp only: if_False diff_Suc_1)
  qed
  then show ?thesis unfolding message_blocks_def
    by (intro map_cong refl) (simp only: atLeastLessThan_iff set_upt)
qed

lemma AES_CBC_ENC_eq:
  assumes "length key = 16" and "0 < len" and "len \<le> length input" and "int len + 15 \<le> INT_MAX"
    and "n = (len + 15) div 16" and "length buf = 16 * n"
  shows "AES_CBC_ENC IV key input (int len) buf (int (16 * n)) =
    Inr (int (16 * n), concat (cbc_enc key IV (message_blocks n (take len input))))"
proof -
  define k where "k = (len - 1) div 16"
  note i = last_block_index [OF assms(2), folded k_def]
  have n: "n = Suc k" using i(1) assms(5) by simp
  define M_last where "M_last = drop (16 * k) (take len input) @ replicate (16 * (k + 1) - len) 0"
  have pad: "padding_AES input (BLOCK_SIZE * (int n - 1)) (int len) = Inr M_last"
    using padding_AES_eq [OF assms(2,3) k_def] n by (simp add: M_last_def)
  have M: "length M_last = 16" using i(2,3) assms(3) by (simp add: M_last_def)
  have "16 * n \<le> length input + 16" using n i(2) assms(3) by simp
  from cbc_enc_loop_eq [OF assms(1) this M, of 0 buf "int (16 * n)" IV]
  have "cbc_enc_loop key input M_last (int n) 0 IV buf 0 (int (16 * n)) =
      Inr (concat (cbc_enc key IV (message_blocks n (take len input))))"
    using assms(6) enc_blocks_eq [OF assms(2,3) k_def M_last_def] n by simp
  moreover have "\<not> int len \<le> 0" "\<not> int len + LAST_INDEX > INT_MAX" using assms(2,4) by (simp_all add: LAST_INDEX_def)
  moreover have "int n * BLOCK_SIZE = int (16 * n)" by (simp add: BLOCK_SIZE_def)
  ultimately show ?thesis using pad
    by (simp only: AES_CBC_ENC_def sdiv_16 assms(5) [symmetric] Let_def if_False bindE_Inr)
qed

lemma AES_CBC_DEC_eq:
  assumes "length key = 16" and "0 < n" and "16 * int n + 15 \<le> INT_MAX" and "blocks16 Cs" and "length Cs = n"
    and "length buf = 16 * n"
  shows "AES_CBC_DEC IV key (concat Cs) (int (16 * n)) buf (int (16 * n)) =
    Inr (int (16 * n), concat (cbc_dec key IV Cs))"
proof -
  have len: "length (concat Cs) = 16 * n"
    using assms(4,5) by (induction Cs arbitrary: n) auto
  have "int (16 * n) sdiv BLOCK_SIZE * BLOCK_SIZE = int (16 * n)"
    by (simp only: sdiv_16) (simp add: BLOCK_SIZE_def)
  moreover have "(int (16 * n) + LAST_INDEX) sdiv BLOCK_SIZE = int n"
    unfolding sdiv_16 by simp
  moreover have "cbc_dec_loop key (concat Cs) (int n) 0 IV buf 0 (int (16 * n)) = Inr (concat (cbc_dec key IV Cs))"
    using cbc_dec_loop_eq [OF assms(1), of n "concat Cs" 0 buf "int (16 * n)" IV] len assms(6)
      blocks_of_concat [OF assms(4)] assms(5) by simp
  ultimately show ?thesis using assms(2,3)
    by (simp only: AES_CBC_DEC_def Let_def) (simp add: LAST_INDEX_def BLOCK_SIZE_def)
qed

section \<open>Properties\<close>



text \<open>
  C15: decrypting what \<open>AES_CBC_ENC\<close> made of a message gives the message back, filled up with zero
  bytes to whole blocks, for every message that is not empty and every key and start block of 16 bytes.
\<close>

theorem AES_CBC_roundtrip:
  assumes "length key = 16" and "0 < len" and "len \<le> length input" and "int len + 30 \<le> INT_MAX"
    and "n = (len + 15) div 16" and "length buf = 16 * n" and "length buf' = 16 * n"
  shows "\<exists>ct. AES_CBC_ENC IV key input (int len) buf (int (16 * n)) = Inr (int (16 * n), ct)
    \<and> AES_CBC_DEC IV key ct (int (16 * n)) buf' (int (16 * n))
       = Inr (int (16 * n), take len input @ replicate (16 * n - len) 0)"
proof -
  define Cs where "Cs = cbc_enc key IV (message_blocks n (take len input))"
  have le: "len \<le> 16 * n" "16 * n \<le> len + 15"
    using assms(5) div_mult_mod_eq [of "len + 15" 16] mod_less_divisor [of 16 "len + 15"] by linarith+
  note mb = message_blocks_shape [of "take len input" n]
  have Cs: "blocks16 Cs" "length Cs = n"
    using cbc_enc_shape [OF assms(1), of IV] mb(2) le(1) by (simp_all add: Cs_def)
  have "AES_CBC_ENC IV key input (int len) buf (int (16 * n)) = Inr (int (16 * n), concat Cs)"
    unfolding Cs_def by (rule AES_CBC_ENC_eq) (use assms in auto)
  moreover have "0 < n" using le(1) assms(2) by (cases n) auto
  then have "AES_CBC_DEC IV key (concat Cs) (int (16 * n)) buf' (int (16 * n))
      = Inr (int (16 * n), concat (cbc_dec key IV Cs))"
    using le(2) assms(4) by (intro AES_CBC_DEC_eq [OF assms(1) _ _ Cs assms(7)]) auto
  moreover have "concat (cbc_dec key IV Cs) = take len input @ replicate (16 * n - len) 0"
    using cbc_dec_enc [OF assms(1) mb(1)] mb(3) le(1) assms(3) by (simp add: Cs_def zero_padded_def)
  ultimately show ?thesis by auto
qed

theorem AES_CBC_roundtrip_witness:
  "\<exists>ct. AES_CBC_ENC (replicate 16 9) (replicate 16 7) [1, 2, 3] 3 (replicate 16 0) 16 = Inr (16, ct)
    \<and> AES_CBC_DEC (replicate 16 9) (replicate 16 7) ct 16 (replicate 16 0) 16
       = Inr (16, [1, 2, 3] @ replicate 13 0)"
  using AES_CBC_roundtrip [of "replicate 16 7" 3 "[1, 2, 3]" 1 "replicate 16 0" "replicate 16 0" "replicate 16 9"]
  by (simp add: INT_MAX_def)

text \<open>
  C38: \<open>AES_CBC_DEC\<close> does not respect the size of its output: with an output of 1 to 15 bytes it writes
  a whole block and runs over the end, while \<open>AES_CBC_ENC\<close> cuts its last block.
\<close>

theorem AES_CBC_DEC_overruns:
  assumes "16 \<le> length input" and "0 < m" and "m < 16" and "length buf = m"
  shows "AES_CBC_DEC IV key input 16 buf (int m) = Inl OutOfBounds"
proof -
  have "16 sdiv BLOCK_SIZE * BLOCK_SIZE = 16" "(16 + LAST_INDEX) sdiv BLOCK_SIZE = 1"
    using sdiv_16 [of 16] by (simp_all add: BLOCK_SIZE_def)
  moreover have "cbc_dec_loop key input 1 0 IV buf 0 (int m) = Inl OutOfBounds"
    using assms arr_read_block [of 0 16 input] by (subst cbc_dec_loop.simps) (simp add: arr_write_def)
  ultimately show ?thesis
    by (simp only: AES_CBC_DEC_def Let_def) (simp add: LAST_INDEX_def INT_MAX_def)
qed

theorem AES_CBC_DEC_overruns_witness:
  "AES_CBC_DEC (replicate 16 1) (replicate 16 2) (replicate 16 3) 16 [0, 0, 0] 3 = Inl OutOfBounds"
  using AES_CBC_DEC_overruns [of "replicate 16 3" 3 "[0, 0, 0]" "replicate 16 1" "replicate 16 2"] by simp
end
