(* ===== verification/Mc_Base64.thy ===== *)
theory Mc_Base64
  imports Kv_Prelude
begin

text \<open>
  Base64 encoding and decoding, \<^verbatim>\<open>src/memcached/base64.c\<close>, used by the meta commands for binary keys.
  A call returns the number of bytes and what it wrote to the output; sizes are 64-bit words and the
  size checks are computed with wrap-around as in the code. The lemmas show that decoding inverts
  encoding and that neither writes more than the output has room for.
\<close>

section \<open>The code\<close>

definition base64_table :: "byte list" where
  "base64_table = map of_char ''ABCDEFGHIJKLMNOPQRSTUVWXYZabcdefghijklmnopqrstuvwxyz0123456789+/''"

definition dtable :: "byte list" where
  "dtable =
    [128, 128, 128, 128, 128, 128, 128, 128, 128, 128, 128, 128, 128, 128, 128, 128, 128, 128, 128, 128,
     128, 128, 128, 128, 128, 128, 128, 128, 128, 128, 128, 128, 128, 128, 128, 128, 128, 128, 128, 128,
     128, 128, 128, 62, 128, 128, 128, 63, 52, 53, 54, 55, 56, 57, 58, 59, 60, 61, 128, 128,
     128, 0, 128, 128, 128, 0, 1, 2, 3, 4, 5, 6, 7, 8, 9, 10, 11, 12, 13, 14,
     15, 16, 17, 18, 19, 20, 21, 22, 23, 24, 25, 128, 128, 128, 128, 128, 128, 26, 27, 28,
     29, 30, 31, 32, 33, 34, 35, 36, 37, 38, 39, 40, 41, 42, 43, 44, 45, 46, 47, 48,
     49, 50, 51, 128, 128, 128, 128, 128, 128, 128, 128, 128, 128, 128, 128, 128, 128, 128, 128, 128,
     128, 128, 128, 128, 128, 128, 128, 128, 128, 128, 128, 128, 128, 128, 128, 128, 128, 128, 128, 128,
     128, 128, 128, 128, 128, 128, 128, 128, 128, 128, 128, 128, 128, 128, 128, 128, 128, 128, 128, 128,
     128, 128, 128, 128, 128, 128, 128, 128, 128, 128, 128, 128, 128, 128, 128, 128, 128, 128, 128, 128,
     128, 128, 128, 128, 128, 128, 128, 128, 128, 128, 128, 128, 128, 128, 128, 128, 128, 128, 128, 128,
     128, 128, 128, 128, 128, 128, 128, 128, 128, 128, 128, 128, 128, 128, 128, 128, 128, 128, 128, 128,
     128, 128, 128, 128, 128, 128, 128, 128, 128, 128, 128, 128, 128, 128, 128, 128]"

definition b64 :: "byte \<Rightarrow> byte" where
  "b64 i = base64_table ! unat i"

definition eq_sign :: byte where "eq_sign = 0x3d"

text \<open>The loop over blocks of three bytes and the last, shorter block.\<close>

fun encode_loop :: "byte list \<Rightarrow> byte list" where
  "encode_loop (a # b # c # rest) =
     b64 (drop_bit 2 a) # b64 (push_bit 4 (a AND 0x03) OR drop_bit 4 b)
     # b64 (push_bit 2 (b AND 0x0f) OR drop_bit 6 c) # b64 (c AND 0x3f) # encode_loop rest"
| "encode_loop [a, b] =
     [b64 (drop_bit 2 a), b64 (push_bit 4 (a AND 0x03) OR drop_bit 4 b),
      b64 (push_bit 2 (b AND 0x0f)), eq_sign]"
| "encode_loop [a] = [b64 (drop_bit 2 a), b64 (push_bit 4 (a AND 0x03)), eq_sign, eq_sign]"
| "encode_loop [] = []"

text \<open>The result is the length and the bytes written, the closing zero byte included.\<close>

definition base64_encode :: "byte list \<Rightarrow> u64 \<Rightarrow> bool \<Rightarrow> u64 \<Rightarrow> (u64 \<times> byte list) res" where
  "base64_encode src len out out_len =
     (let olen = len * 4 div 3 + 4;
          olen = olen + olen div 72;
          olen = olen + 1
      in if olen < len then Inr (0, [])
         else if olen > out_len then Inr (0, [])
         else if \<not> out then Inr (0, [])
         else bindE (arr_read src 0 (unat len)) (\<lambda>ins.
           let written = encode_loop ins in Inr (word_of_nat (length written), written @ [0])))"

text \<open>
  The second pass of the decoder: the bytes of the current block, the number of \<^verbatim>\<open>=\<close> seen, and the
  output up to the write position. \<open>None\<close> is the return for invalid padding.
\<close>

fun decode_loop :: "byte list \<Rightarrow> byte list \<Rightarrow> nat \<Rightarrow> byte list \<Rightarrow> byte list option" where
  "decode_loop [] blk pad out = Some out"
| "decode_loop (s # src) blk pad out =
     (let tmp = dtable ! unat s in
      if tmp = 0x80 then decode_loop src blk pad out
      else let pad = (if s = eq_sign then pad + 1 else pad);
               blk = blk @ [tmp]
        in if length blk = 4 then
             let out = out @ [push_bit 2 (blk ! 0) OR drop_bit 4 (blk ! 1),
                              push_bit 4 (blk ! 1) OR drop_bit 2 (blk ! 2),
                              push_bit 6 (blk ! 2) OR blk ! 3]
             in if pad \<noteq> 0 then
                  (if pad = 1 then Some (take (length out - 1) out)
                   else if pad = 2 then Some (take (length out - 2) out)
                   else None)
                else decode_loop src [] pad out
           else decode_loop src blk pad out)"

definition base64_decode :: "byte list \<Rightarrow> u64 \<Rightarrow> bool \<Rightarrow> u64 \<Rightarrow> (u64 \<times> byte list) res" where
  "base64_decode src len out out_len =
     bindE (arr_read src 0 (unat len)) (\<lambda>ins.
       let count = length (filter (\<lambda>s. dtable ! unat s \<noteq> 0x80) ins) in
       if count = 0 \<or> count mod 4 \<noteq> 0 then Inr (0, [])
       else let olen = count div 4 * 3 in
         if olen > unat out_len then Inr (0, [])
         else if \<not> out then Inr (0, [])
         else case decode_loop ins [] 0 [] of
             None \<Rightarrow> Inr (0, [])
           | Some written \<Rightarrow> Inr (word_of_nat (length written), written))"

section \<open>Blocks\<close>

lemma dtable_b64_all:
  "list_all (\<lambda>i. dtable ! unat (base64_table ! i) = word_of_nat i \<and> base64_table ! i \<noteq> 0x3d) [0..<64]"
  by code_simp

lemma dtable_b64:
  assumes "unat i < 64"
  shows "dtable ! unat (b64 i) = i" and "b64 i \<noteq> eq_sign" and "i \<noteq> 0x80"
proof -
  have "dtable ! unat (base64_table ! unat i) = word_of_nat (unat i)" "base64_table ! unat i \<noteq> 0x3d"
    using dtable_b64_all assms by (auto simp: list_all_iff)
  then show "dtable ! unat (b64 i) = i" "b64 i \<noteq> eq_sign" by (simp_all add: b64_def eq_sign_def)
  show "i \<noteq> 0x80" using assms by auto
qed

lemma dtable_eq_sign [simp]: "dtable ! unat eq_sign = 0" "eq_sign \<noteq> 0x80"
  by (simp_all add: eq_sign_def dtable_def)

lemma sextet_join:
  fixes a b c :: byte
  shows "push_bit 2 (drop_bit 2 a) OR drop_bit 4 (push_bit 4 (a AND 0x03) OR drop_bit 4 b) = a"
    and "push_bit 4 (push_bit 4 (a AND 0x03) OR drop_bit 4 b) OR drop_bit 2 (push_bit 2 (b AND 0x0f) OR drop_bit 6 c) = b"
    and "push_bit 6 (push_bit 2 (b AND 0x0f) OR drop_bit 6 c) OR (c AND 0x3f) = c"
    and "push_bit 4 (push_bit 4 (a AND 0x03) OR drop_bit 4 b) OR drop_bit 2 (push_bit 2 (b AND 0x0f)) = b"
    and "push_bit 2 (drop_bit 2 a) OR drop_bit 4 (push_bit 4 (a AND 0x03)) = a"
  subgoal by (rule byte_eqI) (simp_all add: bit_simps)
  subgoal by (rule byte_eqI) (simp_all add: bit_simps)
  subgoal by (rule byte_eqI) (simp_all add: bit_simps)
  subgoal by (rule byte_eqI) (simp_all add: bit_simps)
  subgoal by (rule byte_eqI) (simp_all add: bit_simps)
  done

lemma unat_less_64: "unat w < 64" if "\<not> bit w 6" "\<not> bit w 7" for w :: byte
proof -
  have "w = w AND 0x3f" by (rule byte_eqI) (use that in \<open>simp_all add: bit_simps\<close>)
  then have "w \<le> 0x3f" by (metis word_and_le1)
  then show ?thesis by (simp add: word_le_nat_alt)
qed

lemma sextet_bounds:
  fixes a b c :: byte
  shows "unat (drop_bit 2 a) < 64" and "unat (push_bit 4 (a AND 0x03) OR drop_bit 4 b) < 64"
    and "unat (push_bit 2 (b AND 0x0f) OR drop_bit 6 c) < 64" and "unat (c AND 0x3f) < 64"
    and "unat (push_bit 4 (a AND 0x03)) < 64" and "unat (push_bit 2 (b AND 0x0f)) < 64"
  subgoal by (rule unat_less_64) (auto simp: bit_simps dest: bit_imp_le_length)
  subgoal by (rule unat_less_64) (auto simp: bit_simps dest: bit_imp_le_length)
  subgoal by (rule unat_less_64) (auto simp: bit_simps dest: bit_imp_le_length)
  subgoal by (rule unat_less_64) (auto simp: bit_simps dest: bit_imp_le_length)
  subgoal by (rule unat_less_64) (auto simp: bit_simps dest: bit_imp_le_length)
  subgoal by (rule unat_less_64) (auto simp: bit_simps dest: bit_imp_le_length)
  done

section \<open>Decoding inverts encoding\<close>

lemma length_encode_loop: "length (encode_loop xs) = 4 * ((length xs + 2) div 3)"
proof (induction xs rule: encode_loop.induct)
  case (1 a b c rest)
  have "(length (a # b # c # rest) + 2) div 3 = Suc ((length rest + 2) div 3)" by simp
  then show ?case using 1 by simp
qed simp_all

lemmas b64_sextet = dtable_b64 [OF sextet_bounds(1)] dtable_b64 [OF sextet_bounds(2)] dtable_b64 [OF sextet_bounds(3)]
  dtable_b64 [OF sextet_bounds(4)] dtable_b64 [OF sextet_bounds(5)] dtable_b64 [OF sextet_bounds(6)]

lemma decode_encode_loop: "decode_loop (encode_loop xs) [] 0 out = Some (out @ xs)"
proof (induction xs arbitrary: out rule: encode_loop.induct)
  case (1 a b c rest)
  show ?case by (simp add: b64_sextet Let_def 1 sextet_join del: drop_bit_or push_bit_or push_bit_and drop_bit_and)
next
  case (2 a b)
  show ?case by (simp add: b64_sextet Let_def sextet_join del: drop_bit_or push_bit_or push_bit_and drop_bit_and)
next
  case (3 a)
  show ?case by (simp add: b64_sextet Let_def sextet_join del: drop_bit_or push_bit_or push_bit_and drop_bit_and)
qed simp

lemma encode_loop_valid: "\<forall>s \<in> set (encode_loop xs). dtable ! unat s \<noteq> 0x80"
  by (induction xs rule: encode_loop.induct) (simp_all add: b64_sextet del: push_bit_and)

text \<open>The overflow test of the encoder rejects every length for which its size computation wraps.\<close>

lemma encode_size:
  fixes len :: u64
  defines "olen1 \<equiv> len * 4 div 3 + 4"
  defines "olen \<equiv> olen1 + olen1 div 72 + 1"
  assumes "\<not> olen < len"
  shows "4 * ((unat len + 2) div 3) + 1 \<le> unat olen"
proof -
  define L M where "L = unat len" and "M = L * 4 mod 2 ^ 64"
  have L: "L < 2 ^ 64" using unat_u64_less [of len] by (simp add: L_def)
  have M: "M < 2 ^ 64" by (simp add: M_def)
  have "unat (len * 4 div 3) = M div 3" by (simp add: unat_div_distrib unat_word_ariths L_def M_def)
  then have X: "unat olen1 = M div 3 + 4" using M by (simp add: olen1_def unat_word_ariths)
  then have Q: "unat (olen1 div 72) = (M div 3 + 4) div 72" by (simp add: unat_div_distrib)
  have O: "unat olen = M div 3 + 4 + (M div 3 + 4) div 72 + 1"
    using M by (simp add: olen_def unat_word_ariths X Q)
  have ge: "L \<le> unat olen" using assms(3) by (simp add: L_def word_less_nat_alt)
  have "L < 2 ^ 62"
  proof (rule ccontr)
    assume "\<not> L < 2 ^ 62"
    moreover have "L * 4 = M + 2 ^ 64 * (L * 4 div 2 ^ 64)" unfolding M_def by (rule mod_mult_div_eq [symmetric])
    ultimately have "L * 4 \<ge> M + 2 ^ 64" using M by (cases "L * 4 div 2 ^ 64") auto
    then show False using ge O M L by (cases "L < 2 ^ 63") auto
  qed
  then have "M = L * 4" by (simp add: M_def)
  then show ?thesis using O by (simp add: L_def)
qed

lemma base64_encode_cases:
  assumes "base64_encode src len out out_len = Inr (n, w)"
  obtains "n = 0" "w = []"
  | ins where "arr_read src 0 (unat len) = Inr ins" "n = word_of_nat (length (encode_loop ins))"
      "w = encode_loop ins @ [0]" "4 * ((unat len + 2) div 3) + 1 \<le> unat out_len"
proof (cases "n = 0 \<and> w = []")
  case False
  then show ?thesis using assms that(2) encode_size [of len] unfolding base64_encode_def Let_def
    by (auto simp: bindE_eq_Inr word_le_nat_alt word_less_nat_alt split: if_splits)
qed (use that in auto)

text \<open>C35: the encoder writes only inside the output buffer, for every length: the bytes it writes, the
  closing zero byte included, are at most \<open>out_len\<close>, and the length it returns leaves that byte out.\<close>

theorem base64_encode_fits:
  assumes "base64_encode src len out out_len = Inr (n, w)"
  shows "length w \<le> unat out_len \<and> (w = [] \<longrightarrow> n = 0) \<and> (w \<noteq> [] \<longrightarrow> unat n = length w - 1)"
  using assms
proof (cases rule: base64_encode_cases)
  case (2 ins)
  then have len: "length (encode_loop ins) = 4 * ((unat len + 2) div 3)"
    by (simp add: length_encode_loop arr_read_length)
  then have "length (encode_loop ins) < 2 ^ 64" using 2(4) unat_u64_less [of out_len] by simp
  then have "unat n = length (encode_loop ins)" unfolding 2(2) by (intro unat_of_nat_eq) simp
  then show ?thesis using 2(3,4) len by simp
qed simp

theorem base64_encode_fits_witness:
  "base64_encode [0x66, 0x6f] 2 True 8 = Inr (4, [0x5a, 0x6d, 0x38, 0x3d, 0]) \<and> (5::nat) \<le> 8"
proof -
  have run: "base64_encode [0x66, 0x6f] 2 True 8 = Inr (4, [0x5a, 0x6d, 0x38, 0x3d, 0])" by code_simp
  show ?thesis using base64_encode_fits [OF run] run by simp
qed

text \<open>C39: decoding what the encoder wrote gives back the input, when the decoder's buffer has room for the
  last block of three bytes.\<close>

theorem base64_roundtrip:
  assumes "base64_encode src (word_of_nat (length src)) True out_len = Inr (n, enc)" and "n \<noteq> 0"
    and "length src < 2 ^ 64" and "length src + 2 \<le> unat room"
  shows "base64_decode enc n True room = Inr (word_of_nat (length src), src)"
  using assms(1)
proof (cases rule: base64_encode_cases)
  case (2 ins)
  have "arr_read src 0 (length src) = Inr ins" using 2(1) assms(3) by (simp add: unat_of_nat_eq)
  then have ins: "ins = src" by (simp add: arr_read_def split: if_splits)
  have len: "length (encode_loop src) = 4 * ((length src + 2) div 3)" by (rule length_encode_loop)
  then have "length (encode_loop src) < 2 ^ 64"
    using 2(4) assms(3) unat_u64_less [of out_len] by (simp add: unat_of_nat_eq)
  then have n: "unat n = length (encode_loop src)" unfolding 2(2) ins by (intro unat_of_nat_eq) simp
  have read: "arr_read enc 0 (unat n) = Inr (encode_loop src)" by (simp add: n 2(3) ins arr_read_def)
  have all: "filter (\<lambda>s. dtable ! unat s \<noteq> 0x80) (encode_loop src) = encode_loop src"
    using encode_loop_valid by (simp add: filter_id_conv)
  have "encode_loop src \<noteq> []" using assms(2) 2(2) ins by auto
  moreover have "(length src + 2) div 3 * 3 \<le> unat room" using assms(4) by linarith
  ultimately show ?thesis
    by (simp add: base64_decode_def read all len decode_encode_loop [of src "[]", simplified] Let_def)
qed (use assms(2) in simp)

theorem base64_roundtrip_witness:
  "base64_decode [0x5a, 0x6d, 0x38, 0x3d, 0] 4 True 4 = Inr (2, [0x66, 0x6f])"
proof -
  have "base64_encode [0x66, 0x6f] (word_of_nat (length [0x66, 0x6f :: byte])) True 8
      = Inr (4, [0x5a, 0x6d, 0x38, 0x3d, 0])" by code_simp
  from base64_roundtrip [OF this, of 4] show ?thesis by simp
qed

end
