(* ===== verification/Mc_Hash.thy ===== *)
theory Mc_Hash
  imports Kv_Prelude
begin

text \<open>
  The hash functions of the item table: \<^verbatim>\<open>src/memcached/jenkins_hash.c\<close>, \<^verbatim>\<open>src/memcached/murmur3_hash.c\<close>
  and their selection in \<^verbatim>\<open>src/memcached/hash.c\<close>. A key is a pointer into a byte-addressed memory and a
  length, because the code reads the key in units that depend on the alignment of the pointer, on the
  byte order of the machine and on a build option. The lemmas show that all these paths compute one
  function of the bytes of the key, though the aligned path reads bytes behind its end.
\<close>

type_synonym memory = "nat \<Rightarrow> byte"
type_synonym abc = "u32 \<times> u32 \<times> u32"

section \<open>Loads\<close>

definition load16_le :: "memory \<Rightarrow> nat \<Rightarrow> u16" where
  "load16_le mem p = ucast (mem p) + push_bit 8 (ucast (mem (p + 1)))"

definition load32_le :: "memory \<Rightarrow> nat \<Rightarrow> u32" where
  "load32_le mem p = ucast (mem p) + push_bit 8 (ucast (mem (p + 1)))
     + push_bit 16 (ucast (mem (p + 2))) + push_bit 24 (ucast (mem (p + 3)))"

definition load32_be :: "memory \<Rightarrow> nat \<Rightarrow> u32" where
  "load32_be mem p = push_bit 24 (ucast (mem p)) + push_bit 16 (ucast (mem (p + 1)))
     + push_bit 8 (ucast (mem (p + 2))) + ucast (mem (p + 3))"

text \<open>A byte of the key as a 32-bit value shifted left, \<^verbatim>\<open>((uint32_t)k8[i])<<s\<close>.\<close>

definition byte_shl :: "memory \<Rightarrow> nat \<Rightarrow> nat \<Rightarrow> u32" where
  "byte_shl mem p s = push_bit s (ucast (mem p))"

section \<open>jenkins\_hash.c\<close>

definition rot :: "u32 \<Rightarrow> nat \<Rightarrow> u32" where
  "rot x k = push_bit k x XOR drop_bit (32 - k) x"

definition mix :: "abc \<Rightarrow> abc" where
  "mix = (\<lambda>(a, b, c).
     let a = a - c; a = a XOR rot c 4;  c = c + b;
         b = b - a; b = b XOR rot a 6;  a = a + c;
         c = c - b; c = c XOR rot b 8;  b = b + a;
         a = a - c; a = a XOR rot c 16; c = c + b;
         b = b - a; b = b XOR rot a 19; a = a + c;
         c = c - b; c = c XOR rot b 4;  b = b + a
     in (a, b, c))"

definition final :: "abc \<Rightarrow> abc" where
  "final = (\<lambda>(a, b, c).
     let c = c XOR b; c = c - rot b 14;
         a = a XOR c; a = a - rot c 11;
         b = b XOR a; b = b - rot a 25;
         c = c XOR b; c = c - rot b 16;
         a = a XOR c; a = a - rot c 4;
         b = b XOR a; b = b - rot a 14;
         c = c XOR b; c = c - rot b 24
     in (a, b, c))"

text \<open>
  The loop over all but the last block, the same for every way to read twelve bytes: \<open>chunk\<close> is what the
  body adds to \<open>a\<close>, \<open>b\<close> and \<open>c\<close>. It returns the state, the position and the length left.
\<close>

function jenkins_loop :: "(memory \<Rightarrow> nat \<Rightarrow> abc) \<Rightarrow> memory \<Rightarrow> nat \<Rightarrow> nat \<Rightarrow> abc \<Rightarrow> abc \<times> nat \<times> nat" where
  "jenkins_loop chunk mem k len (a, b, c) =
     (if len > 12 then
        let (x, y, z) = chunk mem k
        in jenkins_loop chunk mem (k + 12) (len - 12) (mix (a + x, b + y, c + z))
      else ((a, b, c), k, len))"
  by pat_completeness auto
termination by (relation "measure (\<lambda>(chunk, mem, k, len, abc). len)") auto

declare jenkins_loop.simps [simp del]

subsection \<open>Little-endian machines\<close>

definition chunk32_le :: "memory \<Rightarrow> nat \<Rightarrow> abc" where
  "chunk32_le mem k = (load32_le mem k, load32_le mem (k + 4), load32_le mem (k + 8))"

definition tail32_le :: "memory \<Rightarrow> nat \<Rightarrow> nat \<Rightarrow> abc \<Rightarrow> abc" where
  "tail32_le mem p len = (\<lambda>(a, b, c).
     let k0 = load32_le mem p; k1 = load32_le mem (p + 4); k2 = load32_le mem (p + 8) in
     if len = 12 then (a + k0, b + k1, c + k2)
     else if len = 11 then (a + k0, b + k1, c + (k2 AND 0xffffff))
     else if len = 10 then (a + k0, b + k1, c + (k2 AND 0xffff))
     else if len = 9 then (a + k0, b + k1, c + (k2 AND 0xff))
     else if len = 8 then (a + k0, b + k1, c)
     else if len = 7 then (a + k0, b + (k1 AND 0xffffff), c)
     else if len = 6 then (a + k0, b + (k1 AND 0xffff), c)
     else if len = 5 then (a + k0, b + (k1 AND 0xff), c)
     else if len = 4 then (a + k0, b, c)
     else if len = 3 then (a + (k0 AND 0xffffff), b, c)
     else if len = 2 then (a + (k0 AND 0xffff), b, c)
     else (a + (k0 AND 0xff), b, c))"

text \<open>The same block under the build option \<^verbatim>\<open>VALGRIND\<close>, which reads no byte behind the key.\<close>

definition tail32_le_valgrind :: "memory \<Rightarrow> nat \<Rightarrow> nat \<Rightarrow> abc \<Rightarrow> abc" where
  "tail32_le_valgrind mem p len = (\<lambda>(a, b, c).
     if len = 12 then (a + load32_le mem p, b + load32_le mem (p + 4), c + load32_le mem (p + 8))
     else if len \<ge> 8 then
       let c = (if len \<ge> 11 then c + byte_shl mem (p + 10) 16 else c);
           c = (if len \<ge> 10 then c + byte_shl mem (p + 9) 8 else c);
           c = (if len \<ge> 9 then c + byte_shl mem (p + 8) 0 else c)
       in (a + load32_le mem p, b + load32_le mem (p + 4), c)
     else if len \<ge> 4 then
       let b = (if len \<ge> 7 then b + byte_shl mem (p + 6) 16 else b);
           b = (if len \<ge> 6 then b + byte_shl mem (p + 5) 8 else b);
           b = (if len \<ge> 5 then b + byte_shl mem (p + 4) 0 else b)
       in (a + load32_le mem p, b, c)
     else
       let a = (if len \<ge> 3 then a + byte_shl mem (p + 2) 16 else a);
           a = (if len \<ge> 2 then a + byte_shl mem (p + 1) 8 else a)
       in (a + byte_shl mem p 0, b, c))"

text \<open>Two 16-bit reads, \<^verbatim>\<open>k[i] + (((uint32_t)k[i+1])<<16)\<close>.\<close>

definition pair16_le :: "memory \<Rightarrow> nat \<Rightarrow> u32" where
  "pair16_le mem p = ucast (load16_le mem p) + push_bit 16 (ucast (load16_le mem (p + 2)))"

definition chunk16_le :: "memory \<Rightarrow> nat \<Rightarrow> abc" where
  "chunk16_le mem k = (pair16_le mem k, pair16_le mem (k + 4), pair16_le mem (k + 8))"

definition tail16_le :: "memory \<Rightarrow> nat \<Rightarrow> nat \<Rightarrow> abc \<Rightarrow> abc" where
  "tail16_le mem p len = (\<lambda>(a, b, c).
     if len = 12 then (a + pair16_le mem p, b + pair16_le mem (p + 4), c + pair16_le mem (p + 8))
     else if len \<ge> 10 then
       let c = (if len = 11 then c + byte_shl mem (p + 10) 16 else c)
       in (a + pair16_le mem p, b + pair16_le mem (p + 4), c + ucast (load16_le mem (p + 8)))
     else if len \<ge> 8 then
       let c = (if len = 9 then c + byte_shl mem (p + 8) 0 else c)
       in (a + pair16_le mem p, b + pair16_le mem (p + 4), c)
     else if len \<ge> 6 then
       let b = (if len = 7 then b + byte_shl mem (p + 6) 16 else b)
       in (a + pair16_le mem p, b + ucast (load16_le mem (p + 4)), c)
     else if len \<ge> 4 then
       let b = (if len = 5 then b + byte_shl mem (p + 4) 0 else b)
       in (a + pair16_le mem p, b, c)
     else if len \<ge> 2 then
       let a = (if len = 3 then a + byte_shl mem (p + 2) 16 else a)
       in (a + ucast (load16_le mem p), b, c)
     else (a + byte_shl mem p 0, b, c))"

definition chunk8_le :: "memory \<Rightarrow> nat \<Rightarrow> abc" where
  "chunk8_le mem k =
     (byte_shl mem k 0 + byte_shl mem (k + 1) 8 + byte_shl mem (k + 2) 16 + byte_shl mem (k + 3) 24,
      byte_shl mem (k + 4) 0 + byte_shl mem (k + 5) 8 + byte_shl mem (k + 6) 16 + byte_shl mem (k + 7) 24,
      byte_shl mem (k + 8) 0 + byte_shl mem (k + 9) 8 + byte_shl mem (k + 10) 16 + byte_shl mem (k + 11) 24)"

definition tail8_le :: "memory \<Rightarrow> nat \<Rightarrow> nat \<Rightarrow> abc \<Rightarrow> abc" where
  "tail8_le mem p len = (\<lambda>(a, b, c).
     let c = (if len \<ge> 12 then c + byte_shl mem (p + 11) 24 else c);
         c = (if len \<ge> 11 then c + byte_shl mem (p + 10) 16 else c);
         c = (if len \<ge> 10 then c + byte_shl mem (p + 9) 8 else c);
         c = (if len \<ge> 9 then c + byte_shl mem (p + 8) 0 else c);
         b = (if len \<ge> 8 then b + byte_shl mem (p + 7) 24 else b);
         b = (if len \<ge> 7 then b + byte_shl mem (p + 6) 16 else b);
         b = (if len \<ge> 6 then b + byte_shl mem (p + 5) 8 else b);
         b = (if len \<ge> 5 then b + byte_shl mem (p + 4) 0 else b);
         a = (if len \<ge> 4 then a + byte_shl mem (p + 3) 24 else a);
         a = (if len \<ge> 3 then a + byte_shl mem (p + 2) 16 else a);
         a = (if len \<ge> 2 then a + byte_shl mem (p + 1) 8 else a);
         a = (if len \<ge> 1 then a + byte_shl mem p 0 else a)
     in (a, b, c))"

text \<open>
  What the branches share: the loop, the last block (a length of zero returns \<open>c\<close> without mixing) and the
  final mixing. The order of the additions to one variable within a chunk does not matter modulo \<open>2 ^ 32\<close>.
\<close>

definition jenkins_path ::
    "(memory \<Rightarrow> nat \<Rightarrow> abc) \<Rightarrow> (memory \<Rightarrow> nat \<Rightarrow> nat \<Rightarrow> abc \<Rightarrow> abc) \<Rightarrow> memory \<Rightarrow> nat \<Rightarrow> nat \<Rightarrow> u32" where
  "jenkins_path chunk tail mem key len =
     (let init = 0xdeadbeef + word_of_nat len + 0;
          (abc, k, rest) = jenkins_loop chunk mem key len (init, init, init)
      in if rest = 0 then snd (snd abc) else snd (snd (final (tail mem k rest abc))))"

definition jenkins_hash_le :: "bool \<Rightarrow> memory \<Rightarrow> nat \<Rightarrow> nat \<Rightarrow> u32" where
  "jenkins_hash_le valgrind mem key len =
     (if key mod 4 = 0 then
        jenkins_path chunk32_le (if valgrind then tail32_le_valgrind else tail32_le) mem key len
      else if key mod 2 = 0 then jenkins_path chunk16_le tail16_le mem key len
      else jenkins_path chunk8_le tail8_le mem key len)"

subsection \<open>Big-endian machines\<close>

definition chunk32_be :: "memory \<Rightarrow> nat \<Rightarrow> abc" where
  "chunk32_be mem k = (load32_be mem k, load32_be mem (k + 4), load32_be mem (k + 8))"

definition tail32_be :: "memory \<Rightarrow> nat \<Rightarrow> nat \<Rightarrow> abc \<Rightarrow> abc" where
  "tail32_be mem p len = (\<lambda>(a, b, c).
     let k0 = load32_be mem p; k1 = load32_be mem (p + 4); k2 = load32_be mem (p + 8) in
     if len = 12 then (a + k0, b + k1, c + k2)
     else if len = 11 then (a + k0, b + k1, c + (k2 AND 0xffffff00))
     else if len = 10 then (a + k0, b + k1, c + (k2 AND 0xffff0000))
     else if len = 9 then (a + k0, b + k1, c + (k2 AND 0xff000000))
     else if len = 8 then (a + k0, b + k1, c)
     else if len = 7 then (a + k0, b + (k1 AND 0xffffff00), c)
     else if len = 6 then (a + k0, b + (k1 AND 0xffff0000), c)
     else if len = 5 then (a + k0, b + (k1 AND 0xff000000), c)
     else if len = 4 then (a + k0, b, c)
     else if len = 3 then (a + (k0 AND 0xffffff00), b, c)
     else if len = 2 then (a + (k0 AND 0xffff0000), b, c)
     else (a + (k0 AND 0xff000000), b, c))"

definition tail32_be_valgrind :: "memory \<Rightarrow> nat \<Rightarrow> nat \<Rightarrow> abc \<Rightarrow> abc" where
  "tail32_be_valgrind mem p len = (\<lambda>(a, b, c).
     if len = 12 then (a + load32_be mem p, b + load32_be mem (p + 4), c + load32_be mem (p + 8))
     else if len \<ge> 8 then
       let c = (if len \<ge> 11 then c + byte_shl mem (p + 10) 8 else c);
           c = (if len \<ge> 10 then c + byte_shl mem (p + 9) 16 else c);
           c = (if len \<ge> 9 then c + byte_shl mem (p + 8) 24 else c)
       in (a + load32_be mem p, b + load32_be mem (p + 4), c)
     else if len \<ge> 4 then
       let b = (if len \<ge> 7 then b + byte_shl mem (p + 6) 8 else b);
           b = (if len \<ge> 6 then b + byte_shl mem (p + 5) 16 else b);
           b = (if len \<ge> 5 then b + byte_shl mem (p + 4) 24 else b)
       in (a + load32_be mem p, b, c)
     else
       let a = (if len \<ge> 3 then a + byte_shl mem (p + 2) 8 else a);
           a = (if len \<ge> 2 then a + byte_shl mem (p + 1) 16 else a)
       in (a + byte_shl mem p 24, b, c))"

definition chunk8_be :: "memory \<Rightarrow> nat \<Rightarrow> abc" where
  "chunk8_be mem k =
     (byte_shl mem k 24 + byte_shl mem (k + 1) 16 + byte_shl mem (k + 2) 8 + byte_shl mem (k + 3) 0,
      byte_shl mem (k + 4) 24 + byte_shl mem (k + 5) 16 + byte_shl mem (k + 6) 8 + byte_shl mem (k + 7) 0,
      byte_shl mem (k + 8) 24 + byte_shl mem (k + 9) 16 + byte_shl mem (k + 10) 8 + byte_shl mem (k + 11) 0)"

definition tail8_be :: "memory \<Rightarrow> nat \<Rightarrow> nat \<Rightarrow> abc \<Rightarrow> abc" where
  "tail8_be mem p len = (\<lambda>(a, b, c).
     let c = (if len \<ge> 12 then c + byte_shl mem (p + 11) 0 else c);
         c = (if len \<ge> 11 then c + byte_shl mem (p + 10) 8 else c);
         c = (if len \<ge> 10 then c + byte_shl mem (p + 9) 16 else c);
         c = (if len \<ge> 9 then c + byte_shl mem (p + 8) 24 else c);
         b = (if len \<ge> 8 then b + byte_shl mem (p + 7) 0 else b);
         b = (if len \<ge> 7 then b + byte_shl mem (p + 6) 8 else b);
         b = (if len \<ge> 6 then b + byte_shl mem (p + 5) 16 else b);
         b = (if len \<ge> 5 then b + byte_shl mem (p + 4) 24 else b);
         a = (if len \<ge> 4 then a + byte_shl mem (p + 3) 0 else a);
         a = (if len \<ge> 3 then a + byte_shl mem (p + 2) 8 else a);
         a = (if len \<ge> 2 then a + byte_shl mem (p + 1) 16 else a);
         a = (if len \<ge> 1 then a + byte_shl mem p 24 else a)
     in (a, b, c))"

definition jenkins_hash_be :: "bool \<Rightarrow> memory \<Rightarrow> nat \<Rightarrow> nat \<Rightarrow> u32" where
  "jenkins_hash_be valgrind mem key len =
     (if key mod 4 = 0 then
        jenkins_path chunk32_be (if valgrind then tail32_be_valgrind else tail32_be) mem key len
      else jenkins_path chunk8_be tail8_be mem key len)"

section \<open>murmur3\_hash.c\<close>

definition rotl32 :: "u32 \<Rightarrow> nat \<Rightarrow> u32" where
  "rotl32 x r = push_bit r x OR drop_bit (32 - r) x"

definition fmix32 :: "u32 \<Rightarrow> u32" where
  "fmix32 h =
     (let h = h XOR drop_bit 16 h;
          h = h * 0x85ebca6b;
          h = h XOR drop_bit 13 h;
          h = h * 0xc2b2ae35
      in h XOR drop_bit 16 h)"

text \<open>The word \<^verbatim>\<open>blocks[i]\<close>, for the negative \<open>i\<close> of the loop, on a little-endian machine.\<close>

definition getblock32 :: "memory \<Rightarrow> nat \<Rightarrow> int \<Rightarrow> u32" where
  "getblock32 mem blocks i = load32_le mem (nat (int blocks + 4 * i))"

definition murmur_k1 :: "u32 \<Rightarrow> u32" where
  "murmur_k1 k1 = rotl32 (k1 * 0xcc9e2d51) 15 * 0x1b873593"

definition murmur_round :: "u32 \<Rightarrow> u32 \<Rightarrow> u32" where
  "murmur_round h1 k1 = rotl32 (h1 XOR murmur_k1 k1) 13 * 5 + 0xe6546b64"

text \<open>The body, with \<open>n\<close> the number of blocks still to read: the index is \<open>-n\<close>.\<close>

fun murmur_body :: "memory \<Rightarrow> nat \<Rightarrow> nat \<Rightarrow> u32 \<Rightarrow> u32" where
  "murmur_body mem blocks 0 h1 = h1"
| "murmur_body mem blocks (Suc n) h1 =
     murmur_body mem blocks n (murmur_round h1 (getblock32 mem blocks (- int (Suc n))))"

definition MurmurHash3_x86_32 :: "memory \<Rightarrow> nat \<Rightarrow> nat \<Rightarrow> u32" where
  "MurmurHash3_x86_32 mem data len =
     (let nblocks = len div 4;
          h1 = murmur_body mem (data + nblocks * 4) nblocks 0;
          tail = data + nblocks * 4;
          k1 = (if len mod 4 \<ge> 3 then 0 XOR byte_shl mem (tail + 2) 16 else 0);
          k1 = (if len mod 4 \<ge> 2 then k1 XOR byte_shl mem (tail + 1) 8 else k1);
          h1 = (if len mod 4 \<ge> 1 then h1 XOR murmur_k1 (k1 XOR byte_shl mem tail 0) else h1)
      in fmix32 (h1 XOR word_of_nat len))"

section \<open>hash.c\<close>

datatype hashfunc_type = JENKINS_HASH | MURMUR3_HASH | XXH3_HASH

type_synonym hash_func = "memory \<Rightarrow> nat \<Rightarrow> nat \<Rightarrow> u32"

text \<open>
  The selection, with the enumeration value as an int: 0, 1 and 2 are the three types and any other value
  is refused. \<open>xxh3\<close> stands for the 64-bit hash of the single-header library; the wrapper truncates it.
\<close>

definition XXH3_hash :: "(memory \<Rightarrow> nat \<Rightarrow> nat \<Rightarrow> u64) \<Rightarrow> hash_func" where
  "XXH3_hash xxh3 mem key len = ucast (xxh3 mem key len)"

definition hash_type_of :: "int \<Rightarrow> hashfunc_type option" where
  "hash_type_of i = (if i = 0 then Some JENKINS_HASH else if i = 1 then Some MURMUR3_HASH
     else if i = 2 then Some XXH3_HASH else None)"

definition hash_init :: "hash_func \<Rightarrow> (memory \<Rightarrow> nat \<Rightarrow> nat \<Rightarrow> u64) \<Rightarrow> int \<Rightarrow> (hash_func \<times> string) option" where
  "hash_init jenkins_hash xxh3 type =
     (case hash_type_of type of
        Some JENKINS_HASH \<Rightarrow> Some (jenkins_hash, ''jenkins'')
      | Some MURMUR3_HASH \<Rightarrow> Some (MurmurHash3_x86_32, ''murmur3'')
      | Some XXH3_HASH \<Rightarrow> Some (XXH3_hash xxh3, ''xxh3'')
      | None \<Rightarrow> None)"

section \<open>The hashes as functions of the bytes\<close>

text \<open>Bytes behind the end count as zero.\<close>

definition byte_at :: "byte list \<Rightarrow> nat \<Rightarrow> u32" where
  "byte_at bs i = (if i < length bs then ucast (bs ! i) else 0)"

definition word_le :: "byte list \<Rightarrow> nat \<Rightarrow> u32" where
  "word_le bs i = byte_at bs i + push_bit 8 (byte_at bs (i + 1))
     + push_bit 16 (byte_at bs (i + 2)) + push_bit 24 (byte_at bs (i + 3))"

definition word_be :: "byte list \<Rightarrow> nat \<Rightarrow> u32" where
  "word_be bs i = push_bit 24 (byte_at bs i) + push_bit 16 (byte_at bs (i + 1))
     + push_bit 8 (byte_at bs (i + 2)) + byte_at bs (i + 3)"

definition add_block :: "(byte list \<Rightarrow> nat \<Rightarrow> u32) \<Rightarrow> byte list \<Rightarrow> abc \<Rightarrow> abc" where
  "add_block w bs = (\<lambda>(a, b, c). (a + w bs 0, b + w bs 4, c + w bs 8))"

function jenkins_ref_loop :: "(byte list \<Rightarrow> nat \<Rightarrow> u32) \<Rightarrow> byte list \<Rightarrow> abc \<Rightarrow> u32" where
  "jenkins_ref_loop w bs abc =
     (if length bs > 12 then jenkins_ref_loop w (drop 12 bs) (mix (add_block w (take 12 bs) abc))
      else if bs = [] then snd (snd abc)
      else snd (snd (final (add_block w bs abc))))"
  by pat_completeness auto
termination by (relation "measure (\<lambda>(w, bs, abc). length bs)") auto

declare jenkins_ref_loop.simps [simp del]

definition jenkins_ref :: "(byte list \<Rightarrow> nat \<Rightarrow> u32) \<Rightarrow> byte list \<Rightarrow> u32" where
  "jenkins_ref w bs = (let i = 0xdeadbeef + word_of_nat (length bs) in jenkins_ref_loop w bs (i, i, i))"

definition key_bytes :: "memory \<Rightarrow> nat \<Rightarrow> nat \<Rightarrow> byte list" where
  "key_bytes mem p n = map (\<lambda>i. mem (p + i)) [0..<n]"

lemma length_key_bytes [simp]: "length (key_bytes mem p n) = n"
  by (simp add: key_bytes_def)

lemma byte_at_key_bytes [simp]: "byte_at (key_bytes mem p n) i = (if i < n then ucast (mem (p + i)) else 0)"
  by (simp add: byte_at_def key_bytes_def)

lemma take_key_bytes: "m \<le> n \<Longrightarrow> take m (key_bytes mem p n) = key_bytes mem p m"
  by (simp add: key_bytes_def take_map)

lemma drop_key_bytes: "drop m (key_bytes mem p n) = key_bytes mem (p + m) (n - m)"
  by (rule nth_equalityI) (auto simp: key_bytes_def add.assoc)

section \<open>Loads and bytes\<close>

lemma bit_ucast_byte: "bit (ucast (w :: byte) :: u32) n \<longleftrightarrow> n < 8 \<and> bit w n"
  by (auto simp: bit_simps dest: bit_imp_le_length)

lemmas bit_bytes = bit_ucast_byte bit_push_bit_iff bit_or_iff bit_and_iff

lemma sum_bytes_or:
  fixes w x y z :: byte
  shows "(ucast w :: u32) + push_bit 8 (ucast x) = ucast w OR push_bit 8 (ucast x)"
    and "(ucast w :: u32) + push_bit 8 (ucast x) + push_bit 16 (ucast y)
      = ucast w OR push_bit 8 (ucast x) OR push_bit 16 (ucast y)"
    and "(ucast w :: u32) + push_bit 8 (ucast x) + push_bit 16 (ucast y) + push_bit 24 (ucast z)
      = ucast w OR push_bit 8 (ucast x) OR push_bit 16 (ucast y) OR push_bit 24 (ucast z)"
proof -
  show 1: "(ucast w :: u32) + push_bit 8 (ucast x) = ucast w OR push_bit 8 (ucast x)"
    by (rule disjunctive_add) (auto simp: bit_bytes)
  show 2: "(ucast w :: u32) + push_bit 8 (ucast x) + push_bit 16 (ucast y)
      = ucast w OR push_bit 8 (ucast x) OR push_bit 16 (ucast y)"
    unfolding 1 by (subst disjunctive_add) (auto simp: bit_bytes or.assoc)
  show "(ucast w :: u32) + push_bit 8 (ucast x) + push_bit 16 (ucast y) + push_bit 24 (ucast z)
      = ucast w OR push_bit 8 (ucast x) OR push_bit 16 (ucast y) OR push_bit 24 (ucast z)"
    unfolding 2 by (subst disjunctive_add) (auto simp: bit_bytes or.assoc)
qed

lemma sum_bytes_or_high:
  fixes x y z :: byte
  shows "push_bit 16 (ucast y :: u32) + push_bit 24 (ucast z) = push_bit 16 (ucast y) OR push_bit 24 (ucast z)"
    and "push_bit 8 (ucast x :: u32) + push_bit 16 (ucast y) + push_bit 24 (ucast z)
      = push_bit 8 (ucast x) OR push_bit 16 (ucast y) OR push_bit 24 (ucast z)"
  using sum_bytes_or(2,3) [of 0] sum_bytes_or(3) [of 0 0] by simp_all

lemma mask_values:
  "(0xffffff :: u32) = mask 24" "(0xffff :: u32) = mask 16" "(0xff :: u32) = mask 8"
  "(0xffffff00 :: u32) = push_bit 8 (mask 24)" "(0xffff0000 :: u32) = push_bit 16 (mask 16)"
  "(0xff000000 :: u32) = push_bit 24 (mask 8)"
  by (simp_all add: mask_eq_exp_minus_1)

lemma mask_bytes:
  fixes w x y z :: byte
  defines "v \<equiv> (ucast w :: u32) + push_bit 8 (ucast x) + push_bit 16 (ucast y) + push_bit 24 (ucast z)"
  shows "v AND 0xffffff = ucast w + push_bit 8 (ucast x) + push_bit 16 (ucast y)"
    and "v AND 0xffff = ucast w + push_bit 8 (ucast x)"
    and "v AND 0xff = ucast w"
    and "v AND 0xffffff00 = push_bit 8 (ucast x) + push_bit 16 (ucast y) + push_bit 24 (ucast z)"
    and "v AND 0xffff0000 = push_bit 16 (ucast y) + push_bit 24 (ucast z)"
    and "v AND 0xff000000 = push_bit 24 (ucast z)"
  unfolding v_def mask_values sum_bytes_or(3)
  unfolding sum_bytes_or(2) sum_bytes_or_high(2)
  unfolding sum_bytes_or(1) sum_bytes_or_high(1)
  subgoal by (rule bit_word_eqI) (auto simp: bit_bytes bit_mask_iff)
  subgoal by (rule bit_word_eqI) (auto simp: bit_bytes bit_mask_iff)
  subgoal by (rule bit_word_eqI) (auto simp: bit_bytes bit_mask_iff)
  subgoal by (rule bit_word_eqI) (auto simp: bit_bytes bit_mask_iff)
  subgoal by (rule bit_word_eqI) (auto simp: bit_bytes bit_mask_iff)
  subgoal by (rule bit_word_eqI) (auto simp: bit_bytes bit_mask_iff)
  done

lemma ucast_load16: "(ucast (load16_le mem p) :: u32) = ucast (mem p) + push_bit 8 (ucast (mem (p + 1)))"
proof -
  have "load16_le mem p = ucast (mem p) OR push_bit 8 (ucast (mem (p + 1)))"
    unfolding load16_le_def by (rule disjunctive_add) (auto simp: bit_simps dest: bit_imp_le_length)
  then show ?thesis unfolding sum_bytes_or
    by (intro bit_word_eqI) (auto simp: bit_simps dest: bit_imp_le_length)
qed

lemma tail_cases: "0 < n \<Longrightarrow> n \<le> 12 \<Longrightarrow> 12 = n \<or> 11 = n \<or> 10 = n \<or> 9 = n \<or> 8 = n \<or> 7 = n \<or> 6 = n
    \<or> 5 = n \<or> 4 = n \<or> 3 = n \<or> 2 = n \<or> 1 = (n::nat)"
  by presburger

text \<open>Addresses keep the form \<open>p + i\<close>.\<close>

lemma pair16_load32: "pair16_le mem p = load32_le mem p"
  by (simp add: pair16_le_def ucast_load16 load32_le_def push_bit_add add.assoc del: One_nat_def add_Suc_right add_2_eq_Suc')

lemma chunk_le:
  "chunk32_le mem k = (word_le (key_bytes mem k 12) 0, word_le (key_bytes mem k 12) 4, word_le (key_bytes mem k 12) 8)"
  "chunk16_le mem k = chunk32_le mem k" "chunk8_le mem k = chunk32_le mem k"
  by (simp_all add: chunk32_le_def chunk16_le_def chunk8_le_def pair16_load32 load32_le_def byte_shl_def word_le_def
      ac_simps del: One_nat_def add_Suc_right add_2_eq_Suc')

lemma load32_be_alt: "load32_be mem p = ucast (mem (p + 3)) + push_bit 8 (ucast (mem (p + 2)))
     + push_bit 16 (ucast (mem (p + 1))) + push_bit 24 (ucast (mem p))"
  by (simp add: load32_be_def ac_simps)

lemma chunk_be:
  "chunk32_be mem k = (word_be (key_bytes mem k 12) 0, word_be (key_bytes mem k 12) 4, word_be (key_bytes mem k 12) 8)"
  "chunk8_be mem k = chunk32_be mem k"
  by (simp_all add: chunk32_be_def chunk8_be_def load32_be_def byte_shl_def word_be_def
      ac_simps del: One_nat_def add_Suc_right add_2_eq_Suc')

lemma load_mask_le:
  "load32_le mem p AND 0xffffff = ucast (mem p) + push_bit 8 (ucast (mem (p + 1))) + push_bit 16 (ucast (mem (p + 2)))"
  "load32_le mem p AND 0xffff = ucast (mem p) + push_bit 8 (ucast (mem (p + 1)))"
  "load32_le mem p AND 0xff = ucast (mem p)"
  unfolding load32_le_def by (rule mask_bytes)+

lemma load_mask_be:
  "load32_be mem p AND 0xffffff00 = push_bit 8 (ucast (mem (p + 2))) + push_bit 16 (ucast (mem (p + 1))) + push_bit 24 (ucast (mem p))"
  "load32_be mem p AND 0xffff0000 = push_bit 16 (ucast (mem (p + 1))) + push_bit 24 (ucast (mem p))"
  "load32_be mem p AND 0xff000000 = push_bit 24 (ucast (mem p))"
  unfolding load32_be_alt by (rule mask_bytes)+

lemma tail32_le_add: "0 < n \<Longrightarrow> n \<le> 12 \<Longrightarrow> tail32_le mem p n abc = add_block word_le (key_bytes mem p n) abc"
  unfolding tail32_le_def Let_def load_mask_le
  by (cases abc, drule (1) tail_cases, elim disjE)
    (simp_all add: load32_le_def add_block_def word_le_def ac_simps del: One_nat_def add_Suc_right add_2_eq_Suc')

lemma tail32_le_valgrind_add: "0 < n \<Longrightarrow> n \<le> 12 \<Longrightarrow> tail32_le_valgrind mem p n abc = add_block word_le (key_bytes mem p n) abc"
  unfolding tail32_le_valgrind_def Let_def
  by (cases abc, drule (1) tail_cases, elim disjE)
    (simp_all add: load32_le_def byte_shl_def add_block_def word_le_def ac_simps del: One_nat_def add_Suc_right add_2_eq_Suc')

lemma tail16_le_add: "0 < n \<Longrightarrow> n \<le> 12 \<Longrightarrow> tail16_le mem p n abc = add_block word_le (key_bytes mem p n) abc"
  unfolding tail16_le_def pair16_load32 ucast_load16 Let_def
  by (cases abc, drule (1) tail_cases, elim disjE)
    (simp_all add: load32_le_def byte_shl_def add_block_def word_le_def ac_simps del: One_nat_def add_Suc_right add_2_eq_Suc')

lemma tail8_le_add: "0 < n \<Longrightarrow> n \<le> 12 \<Longrightarrow> tail8_le mem p n abc = add_block word_le (key_bytes mem p n) abc"
  unfolding tail8_le_def Let_def
  by (cases abc, drule (1) tail_cases, elim disjE)
    (simp_all add: load32_le_def byte_shl_def add_block_def word_le_def ac_simps del: One_nat_def add_Suc_right add_2_eq_Suc')

lemma tail32_be_add: "0 < n \<Longrightarrow> n \<le> 12 \<Longrightarrow> tail32_be mem p n abc = add_block word_be (key_bytes mem p n) abc"
  unfolding tail32_be_def Let_def load_mask_be
  by (cases abc, drule (1) tail_cases, elim disjE)
    (simp_all add: load32_be_def add_block_def word_be_def ac_simps del: One_nat_def add_Suc_right add_2_eq_Suc')

lemma tail32_be_valgrind_add: "0 < n \<Longrightarrow> n \<le> 12 \<Longrightarrow> tail32_be_valgrind mem p n abc = add_block word_be (key_bytes mem p n) abc"
  unfolding tail32_be_valgrind_def Let_def
  by (cases abc, drule (1) tail_cases, elim disjE)
    (simp_all add: load32_be_def byte_shl_def add_block_def word_be_def ac_simps del: One_nat_def add_Suc_right add_2_eq_Suc')

lemma tail8_be_add: "0 < n \<Longrightarrow> n \<le> 12 \<Longrightarrow> tail8_be mem p n abc = add_block word_be (key_bytes mem p n) abc"
  unfolding tail8_be_def Let_def
  by (cases abc, drule (1) tail_cases, elim disjE)
    (simp_all add: load32_be_def byte_shl_def add_block_def word_be_def ac_simps del: One_nat_def add_Suc_right add_2_eq_Suc')

text \<open>
  The interface of a way to read the key: what it adds for a whole block and for the last one is the
  little-endian or big-endian value \<open>w\<close> of the bytes.
\<close>

locale key_reader =
  fixes chunk :: "memory \<Rightarrow> nat \<Rightarrow> abc"
    and tl_block :: "memory \<Rightarrow> nat \<Rightarrow> nat \<Rightarrow> abc \<Rightarrow> abc"
    and w :: "byte list \<Rightarrow> nat \<Rightarrow> u32"
  assumes chunk_words: "chunk mem k = (w (key_bytes mem k 12) 0, w (key_bytes mem k 12) 4, w (key_bytes mem k 12) 8)"
    and tail_words: "0 < n \<Longrightarrow> n \<le> 12 \<Longrightarrow> tl_block mem k n abc = add_block w (key_bytes mem k n) abc"
begin

lemma loop_ref:
  "(case jenkins_loop chunk mem k len abc of (st, k', rest) \<Rightarrow>
      if rest = 0 then snd (snd st) else snd (snd (final (tl_block mem k' rest st))))
   = jenkins_ref_loop w (key_bytes mem k len) abc"
proof (induction len arbitrary: k abc rule: less_induct)
  case (less len)
  obtain a b c where abc: "abc = (a, b, c)" by (cases abc)
  show ?case
  proof (cases "len > 12")
    case True
    then show ?thesis using less.IH [of "len - 12" "k + 12"]
      by (subst jenkins_loop.simps [of chunk mem k len a b c, folded abc], subst jenkins_ref_loop.simps)
        (simp add: take_key_bytes drop_key_bytes chunk_words [of mem k] add_block_def abc)
  next
    case False
    have "key_bytes mem k len = [] \<longleftrightarrow> len = 0" using length_key_bytes [of mem k len] by (metis length_0_conv)
    with False show ?thesis
      by (subst jenkins_loop.simps [of chunk mem k len a b c, folded abc], subst jenkins_ref_loop.simps)
        (simp add: tail_words)
  qed
qed

lemma path_ref: "jenkins_path chunk tl_block mem key len = jenkins_ref w (key_bytes mem key len)"
  unfolding jenkins_path_def jenkins_ref_def Let_def by (simp add: loop_ref)

end

interpretation le32: key_reader chunk32_le tail32_le word_le
  by unfold_locales (simp_all add: chunk_le tail32_le_add)

interpretation le32v: key_reader chunk32_le tail32_le_valgrind word_le
  by unfold_locales (simp_all add: chunk_le tail32_le_valgrind_add)

interpretation le16: key_reader chunk16_le tail16_le word_le
  by unfold_locales (simp_all add: chunk_le tail16_le_add)

interpretation le8: key_reader chunk8_le tail8_le word_le
  by unfold_locales (simp_all add: chunk_le tail8_le_add)

interpretation be32: key_reader chunk32_be tail32_be word_be
  by unfold_locales (simp_all add: chunk_be tail32_be_add)

interpretation be32v: key_reader chunk32_be tail32_be_valgrind word_be
  by unfold_locales (simp_all add: chunk_be tail32_be_valgrind_add)

interpretation be8: key_reader chunk8_be tail8_be word_be
  by unfold_locales (simp_all add: chunk_be tail8_be_add)

lemma jenkins_hash_ref:
  "jenkins_hash_le valgrind mem key len = jenkins_ref word_le (key_bytes mem key len)"
  "jenkins_hash_be valgrind mem key len = jenkins_ref word_be (key_bytes mem key len)"
  by (simp_all add: jenkins_hash_le_def jenkins_hash_be_def le32.path_ref le32v.path_ref le16.path_ref
      le8.path_ref be32.path_ref be32v.path_ref be8.path_ref)


text \<open>The inverse of the mixing step, from its last assignment to its first.\<close>

definition unmix :: "abc \<Rightarrow> abc" where
  "unmix = (\<lambda>(a, b, c).
     let b = b - a; c = c XOR rot b 4;  c = c + b;
         a = a - c; b = b XOR rot a 19; b = b + a;
         c = c - b; a = a XOR rot c 16; a = a + c;
         b = b - a; c = c XOR rot b 8;  c = c + b;
         a = a - c; b = b XOR rot a 6;  b = b + a;
         c = c - b; a = a XOR rot c 4;  a = a + c
     in (a, b, c))"

lemma xor_twice: "(x XOR y) XOR y = (x :: u32)"
  by (simp add: xor.assoc)

text \<open>the mixing of three words can be undone, so no information is lost before the final step.\<close>

theorem mix_reversible: "unmix (mix abc) = abc"
proof -
  obtain a b c where abc: "abc = (a, b, c)" by (cases abc)
  define a1 c1 where "a1 = (a - c) XOR rot c 4" and "c1 = c + b"
  define b1 a2 where "b1 = (b - a1) XOR rot a1 6" and "a2 = a1 + c1"
  define c2 b2 where "c2 = (c1 - b1) XOR rot b1 8" and "b2 = b1 + a2"
  define a3 c3 where "a3 = (a2 - c2) XOR rot c2 16" and "c3 = c2 + b2"
  define b3 a4 where "b3 = (b2 - a3) XOR rot a3 19" and "a4 = a3 + c3"
  define c4 b4 where "c4 = (c3 - b3) XOR rot b3 4" and "b4 = b3 + a4"
  note steps = a1_def c1_def b1_def a2_def c2_def b2_def a3_def c3_def b3_def a4_def c4_def b4_def
  have m: "mix (a, b, c) = (a4, b4, c4)" unfolding mix_def Let_def prod.case steps ..
  have undo: "b4 - a4 = b3" "c4 XOR rot b3 4 = c3 - b3" "a4 - c3 = a3" "b3 XOR rot a3 19 = b2 - a3"
    "c3 - b2 = c2" "a3 XOR rot c2 16 = a2 - c2" "b2 - a2 = b1" "c2 XOR rot b1 8 = c1 - b1"
    "a2 - c1 = a1" "b1 XOR rot a1 6 = b - a1" "c1 - b = c" "a1 XOR rot c 4 = a - c"
    unfolding b4_def c4_def a4_def b3_def c3_def a3_def b2_def c2_def a2_def b1_def c1_def a1_def
    by (simp_all only: xor_twice add_diff_cancel_left' add_diff_cancel_right')
  show ?thesis by (simp only: m unmix_def Let_def prod.case undo diff_add_cancel abc)
qed

fun murmur_ref_loop :: "u32 \<Rightarrow> byte list \<Rightarrow> u32" where
  "murmur_ref_loop h (b0 # b1 # b2 # b3 # bs) = murmur_ref_loop (murmur_round h (word_le [b0, b1, b2, b3] 0)) bs"
| "murmur_ref_loop h [] = h"
| "murmur_ref_loop h bs = h XOR murmur_k1 (word_le bs 0)"

definition murmur_ref :: "byte list \<Rightarrow> u32" where
  "murmur_ref bs = fmix32 (murmur_ref_loop 0 bs XOR word_of_nat (length bs))"

lemma key_bytes_0 [simp]: "key_bytes mem p 0 = []"
  by (simp add: key_bytes_def)

lemma key_bytes_Suc: "key_bytes mem p (Suc n) = mem p # key_bytes mem (Suc p) n"
  by (simp add: key_bytes_def upt_conv_Cons map_Suc_upt [symmetric] del: upt_Suc)

lemma murmur_body_ref:
  "murmur_ref_loop h (key_bytes mem p (4 * n + r))
   = murmur_ref_loop (murmur_body mem (p + 4 * n) n h) (key_bytes mem (p + 4 * n) r)"
proof (induction n arbitrary: p h)
  case (Suc n)
  have e: "4 * Suc n + r = Suc (Suc (Suc (Suc (4 * n + r))))" by simp
  have blk: "getblock32 mem (p + 4 * Suc n) (- int (Suc n)) = load32_le mem p" by (simp add: getblock32_def)
  have ld: "load32_le mem p = word_le [mem p, mem (Suc p), mem (Suc (Suc p)), mem (Suc (Suc (Suc p)))] 0"
    by (simp add: load32_le_def word_le_def byte_at_def numeral_3_eq_3)
  have pos: "Suc (Suc (Suc (Suc p))) + 4 * n = p + 4 * Suc n" by simp
  show ?case unfolding e key_bytes_Suc murmur_ref_loop.simps murmur_body.simps blk ld Suc.IH pos ..
qed simp

lemma murmur_tail_cases: "(r::nat) < 4 \<Longrightarrow> r = 0 \<or> r = 1 \<or> r = 2 \<or> r = 3"
  by linarith

lemma xor_bytes:
  fixes w x y :: byte
  shows "push_bit 8 (ucast x) XOR ucast w = (ucast w :: u32) + push_bit 8 (ucast x)"
    and "(push_bit 16 (ucast y) XOR push_bit 8 (ucast x)) XOR ucast w
      = (ucast w :: u32) + push_bit 8 (ucast x) + push_bit 16 (ucast y)"
  subgoal unfolding sum_bytes_or by (rule bit_word_eqI) (auto simp: bit_bytes bit_xor_iff)
  subgoal unfolding sum_bytes_or(2) by (rule bit_word_eqI) (auto simp: bit_bytes bit_xor_iff)
  done

lemma murmur_of_bytes: "MurmurHash3_x86_32 mem key len = murmur_ref (key_bytes mem key len)"
proof -
  have "4 * (len div 4) + len mod 4 = len" by simp
  then have *: "murmur_ref_loop 0 (key_bytes mem key len) =
      murmur_ref_loop (murmur_body mem (key + 4 * (len div 4)) (len div 4) 0) (key_bytes mem (key + 4 * (len div 4)) (len mod 4))"
    using murmur_body_ref [of 0 mem key "len div 4" "len mod 4"] by simp
  have "len mod 4 = 0 \<or> len mod 4 = 1 \<or> len mod 4 = 2 \<or> len mod 4 = 3" by (rule murmur_tail_cases) simp
  then show ?thesis unfolding murmur_ref_def * MurmurHash3_x86_32_def Let_def
    by (elim disjE) (simp_all add: key_bytes_Suc numeral_2_eq_2 numeral_3_eq_3 mult.commute byte_shl_def
        word_le_def byte_at_def xor_bytes)
qed

section \<open>MurmurHash3 is injective on four-byte keys\<close>

text \<open>Every step of the mixing is a bijection.\<close>

lemma mult_unit_cancel:
  fixes c d x y :: u32
  assumes "c * d = 1"
  shows "x * c = y * c \<longleftrightarrow> x = y"
proof
  assume "x * c = y * c"
  then have "x * (c * d) = y * (c * d)" by (simp only: mult.assoc [symmetric])
  then show "x = y" by (simp add: assms)
qed simp

lemma murmur_units:
  fixes x y :: u32
  shows "x * 0x85ebca6b = y * 0x85ebca6b \<longleftrightarrow> x = y" and "x * 0xc2b2ae35 = y * 0xc2b2ae35 \<longleftrightarrow> x = y"
    and "x * 0xcc9e2d51 = y * 0xcc9e2d51 \<longleftrightarrow> x = y" and "x * 0x1b873593 = y * 0x1b873593 \<longleftrightarrow> x = y"
    and "x * 5 = y * 5 \<longleftrightarrow> x = y"
  subgoal by (rule mult_unit_cancel [where d = "0xa5cb9243"]) simp
  subgoal by (rule mult_unit_cancel [where d = "0x7ed1b41d"]) simp
  subgoal by (rule mult_unit_cancel [where d = "0xdee13bb1"]) simp
  subgoal by (rule mult_unit_cancel [where d = "0x56ed309b"]) simp
  subgoal by (rule mult_unit_cancel [where d = "0xcccccccd"]) simp
  done

lemma xorshift_inj:
  fixes x y :: u32
  assumes eq: "x XOR drop_bit s x = y XOR drop_bit s y" and "0 < s"
  shows "x = y"
proof (rule bit_word_eqI)
  have step: "bit x n = bit y n" if "bit x (n + s) = bit y (n + s)" for n
  proof -
    have "bit (x XOR drop_bit s x) n = bit (y XOR drop_bit s y) n" by (simp only: eq)
    then show ?thesis using that by (auto simp: bit_xor_iff bit_drop_bit_eq add.commute)
  qed
  fix n
  show "bit x n = bit y n"
  proof (induction "32 - n" arbitrary: n rule: less_induct)
    case less
    show ?case
    proof (cases "n < 32")
      case True
      then show ?thesis using step less [of "n + s"] assms(2) by simp
    next
      case False
      then show ?thesis using bit_imp_le_length [of x n] bit_imp_le_length [of y n] by auto
    qed
  qed
qed

lemma rotl32_inj:
  assumes "rotl32 x r = rotl32 y r" and "0 < r" and "r < 32"
  shows "x = y"
proof (rule bit_word_eqI)
  have b: "bit (rotl32 z r) ((n + r) mod 32) = bit z n" if "n < 32" for z n
  proof (cases "n + r < 32")
    case True
    then show ?thesis using that assms by (auto simp: rotl32_def bit_simps dest: bit_imp_le_length)
  next
    case False
    then have "(n + r) mod 32 = n + r - 32" using that assms by (simp add: mod_if)
    then show ?thesis using that assms False by (auto simp: rotl32_def bit_simps)
  qed
  fix n assume "n < LENGTH(32)"
  then show "bit x n = bit y n" using b [of n x] b [of n y] assms(1) by simp
qed

lemma xorshift_cancel:
  fixes x y :: u32
  assumes "0 < s"
  shows "x XOR drop_bit s x = y XOR drop_bit s y \<longleftrightarrow> x = y"
  using xorshift_inj [OF _ assms] by blast

lemma rotl32_cancel: "0 < r \<Longrightarrow> r < 32 \<Longrightarrow> rotl32 x r = rotl32 y r \<longleftrightarrow> x = y"
  using rotl32_inj by blast

lemma fmix32_cancel: "fmix32 x = fmix32 y \<longleftrightarrow> x = y"
  by (simp add: fmix32_def Let_def xorshift_cancel murmur_units)

lemma murmur_k1_cancel: "murmur_k1 x = murmur_k1 y \<longleftrightarrow> x = y"
  by (simp add: murmur_k1_def rotl32_cancel murmur_units)

lemma xor_left_cancel32: "h XOR x = h XOR y \<longleftrightarrow> x = (y :: u32)"
  by (metis xor.assoc xor_self_eq xor.left_neutral)

lemma xor_right_cancel32: "x XOR h = y XOR h \<longleftrightarrow> x = (y :: u32)"
  using xor_left_cancel32 by (simp add: xor.commute)

lemma murmur_round_cancel: "murmur_round h x = murmur_round h y \<longleftrightarrow> x = y"
  by (simp add: murmur_round_def rotl32_cancel murmur_units murmur_k1_cancel xor_left_cancel32)

lemma word_le_bytes:
  fixes a b c d :: byte
  defines "v \<equiv> word_le [a, b, c, d] 0"
  shows "ucast v = a" and "ucast (drop_bit 8 v) = b" and "ucast (drop_bit 16 v) = c" and "ucast (drop_bit 24 v) = d"
proof -
  have v: "v = ucast a OR push_bit 8 (ucast b) OR push_bit 16 (ucast c) OR push_bit 24 (ucast d)"
    unfolding v_def word_le_def byte_at_def by (simp add: sum_bytes_or(3) numeral_3_eq_3)
  show "ucast v = a" unfolding v by (rule bit_word_eqI) (auto simp: bit_simps)
  show "ucast (drop_bit 8 v) = b" unfolding v by (rule bit_word_eqI) (auto simp: bit_simps dest: bit_imp_le_length)
  show "ucast (drop_bit 16 v) = c" unfolding v by (rule bit_word_eqI) (auto simp: bit_simps dest: bit_imp_le_length)
  show "ucast (drop_bit 24 v) = d" unfolding v by (rule bit_word_eqI) (auto simp: bit_simps dest: bit_imp_le_length)
qed

lemma word_le_eq: "word_le [a, b, c, d] 0 = word_le [a', b', c', d'] 0 \<Longrightarrow> [a, b, c, d] = [a', b', c', d']"
  using word_le_bytes [of a b c d] word_le_bytes [of a' b' c' d'] by simp

lemma key_bytes_4: "\<exists>a b c d. key_bytes mem p 4 = [a, b, c, d]"
  by (simp add: key_bytes_Suc eval_nat_numeral)

text \<open>two four-byte keys with the same MurmurHash3 value are equal.\<close>

theorem murmur_injective_4:
  assumes "MurmurHash3_x86_32 mem key 4 = MurmurHash3_x86_32 mem' key' 4"
  shows "key_bytes mem key 4 = key_bytes mem' key' 4"
proof -
  obtain a b c d a' b' c' d' where k: "key_bytes mem key 4 = [a, b, c, d]" "key_bytes mem' key' 4 = [a', b', c', d']"
    using key_bytes_4 by metis
  have "murmur_ref [a, b, c, d] = murmur_ref [a', b', c', d']" using assms k by (simp add: murmur_of_bytes)
  then show ?thesis unfolding k
    by (intro word_le_eq) (simp add: murmur_ref_def fmix32_cancel xor_right_cancel32 murmur_round_cancel)
qed

theorem murmur_injective_4_witness:
  "key_bytes (\<lambda>i. word_of_nat i) 0 4 = key_bytes (\<lambda>i. word_of_nat (i - 2)) 2 4"
proof -
  have "MurmurHash3_x86_32 (\<lambda>i. word_of_nat i) 0 4 = MurmurHash3_x86_32 (\<lambda>i. word_of_nat (i - 2)) 2 4"
    by (simp add: murmur_of_bytes key_bytes_def)
  then show ?thesis by (rule murmur_injective_4)
qed

section \<open>The selected hash\<close>

text \<open>whichever hash the server selects, keys with the same bytes have the same hash, wherever they are
  in memory. For the library hash this is the hypothesis that it reads only the bytes of the key.\<close>

theorem hash_init_key_only:
  assumes "hash_init (jenkins_hash_le valgrind) xxh3 type = Some (h, name)"
    and "\<And>mem p mem' p' n. key_bytes mem p n = key_bytes mem' p' n \<Longrightarrow> xxh3 mem p n = xxh3 mem' p' n"
    and "key_bytes mem p n = key_bytes mem' p' n"
  shows "h mem p n = h mem' p' n"
  using assms(1,3) assms(2) [OF assms(3)] jenkins_hash_ref(1)
  by (auto simp: hash_init_def hash_type_of_def murmur_of_bytes XXH3_hash_def split: if_splits)

theorem hash_init_key_only_witness:
  "jenkins_hash_le False (\<lambda>i. word_of_nat i) 0 3 = jenkins_hash_le False (\<lambda>i. word_of_nat (i - 5)) 5 3"
proof -
  have "hash_init (jenkins_hash_le False) (\<lambda>mem p n. word_of_nat n) 0 = Some (jenkins_hash_le False, ''jenkins'')"
    by (simp add: hash_init_def hash_type_of_def)
  moreover have "key_bytes (\<lambda>i. word_of_nat i) 0 3 = key_bytes (\<lambda>i. word_of_nat (i - 5)) 5 3"
    by (simp add: key_bytes_def)
  ultimately show ?thesis using hash_init_key_only by blast
qed

end
