(* ===== verification/Mc_Bipbuf.thy ===== *)
theory Mc_Bipbuf
  imports Kv_Prelude
begin

text \<open>
  The buffer behind the logger, the crawler and the bump queue of the LRU lists,
  \<^verbatim>\<open>src/memcached/bipbuffer.c\<close>: a ring with two regions, so that what is requested or peeked at is always
  contiguous. Fields and sizes keep their widths, an int result is the signed value of a word, and a
  pointer into the buffer is its offset. The lemmas show that the buffer is a queue of bytes.
\<close>

section \<open>The code\<close>

record bipbuf =
  bsize :: u64
  a_start :: u32
  a_end :: u32
  b_end :: u32
  b_inuse :: int
  bdata :: "byte list"

text \<open>The conversion of an unsigned value to int.\<close>

definition to_int :: "u64 \<Rightarrow> int" where
  "to_int w = sint (ucast w :: u32)"

definition bipbuf_unused :: "bipbuf \<Rightarrow> int" where
  "bipbuf_unused me =
     (if 1 = b_inuse me then sint (a_start me - b_end me) else to_int (bsize me - ucast (a_end me)))"

definition bipbuf_size :: "bipbuf \<Rightarrow> int" where
  "bipbuf_size me = to_int (bsize me)"

definition bipbuf_used :: "bipbuf \<Rightarrow> int" where
  "bipbuf_used me = sint ((a_end me - a_start me) + b_end me)"

text \<open>\<open>bdata\<close> is what the allocation left in the flexible array member.\<close>

definition bipbuf_init :: "bipbuf \<Rightarrow> u32 \<Rightarrow> bipbuf" where
  "bipbuf_init me sz =
     me\<lparr>a_start := 0, a_end := 0, b_end := 0, bsize := ucast sz, b_inuse := 0\<rparr>"

definition bipbuf_new :: "byte list option \<Rightarrow> u32 \<Rightarrow> bipbuf option" where
  "bipbuf_new mem0 sz =
     (case mem0 of
        None \<Rightarrow> None
      | Some mem \<Rightarrow> Some (bipbuf_init
          \<lparr>bsize = 0, a_start = 0, a_end = 0, b_end = 0, b_inuse = 0, bdata = mem\<rparr> sz))"

definition bipbuf_is_empty :: "bipbuf \<Rightarrow> bool" where
  "bipbuf_is_empty me = (a_start me = a_end me)"

definition check_for_switch_to_b :: "bipbuf \<Rightarrow> bipbuf" where
  "check_for_switch_to_b me =
     (if bsize me - ucast (a_end me) < ucast (a_start me - b_end me) then me\<lparr>b_inuse := 1\<rparr> else me)"

definition bipbuf_request :: "bipbuf \<Rightarrow> int \<Rightarrow> nat option" where
  "bipbuf_request me sz =
     (if bipbuf_unused me < sz then None
      else if 1 = b_inuse me then Some (unat (b_end me))
      else Some (unat (a_end me)))"

definition bipbuf_push :: "bipbuf \<Rightarrow> int \<Rightarrow> int \<times> bipbuf" where
  "bipbuf_push me sz =
     (if bipbuf_unused me < sz then (0, me)
      else let me = (if 1 = b_inuse me then me\<lparr>b_end := b_end me + word_of_int sz\<rparr>
                     else me\<lparr>a_end := a_end me + word_of_int sz\<rparr>)
        in (sz, check_for_switch_to_b me))"

text \<open>A copy of \<open>sz\<close> bytes; a negative size becomes an unsigned one that no array can have.\<close>

definition memcpy_in :: "byte list \<Rightarrow> nat \<Rightarrow> byte list \<Rightarrow> int \<Rightarrow> byte list res" where
  "memcpy_in dst off src sz =
     (if sz < 0 then Inl OutOfBounds
      else bindE (arr_read src 0 (nat sz)) (\<lambda>bs. arr_write dst (int off) bs))"

definition bipbuf_offer :: "bipbuf \<Rightarrow> byte list \<Rightarrow> int \<Rightarrow> (int \<times> bipbuf) res" where
  "bipbuf_offer me data sz =
     (if bipbuf_unused me < sz then Inr (0, me)
      else bindE
        (if 1 = b_inuse me then
           bindE (memcpy_in (bdata me) (unat (b_end me)) data sz) (\<lambda>d.
             Inr (me\<lparr>bdata := d, b_end := b_end me + word_of_int sz\<rparr>))
         else
           bindE (memcpy_in (bdata me) (unat (a_end me)) data sz) (\<lambda>d.
             Inr (me\<lparr>bdata := d, a_end := a_end me + word_of_int sz\<rparr>)))
        (\<lambda>me. Inr (sz, check_for_switch_to_b me)))"

definition bipbuf_peek :: "bipbuf \<Rightarrow> u32 \<Rightarrow> nat option" where
  "bipbuf_peek me sz =
     (if bsize me < ucast (a_start me + sz) then None
      else if bipbuf_is_empty me then None
      else Some (unat (a_start me)))"

definition bipbuf_peek_all :: "bipbuf \<Rightarrow> (nat \<times> u32) option" where
  "bipbuf_peek_all me =
     (if bipbuf_is_empty me then None else Some (unat (a_start me), a_end me - a_start me))"

definition bipbuf_poll :: "bipbuf \<Rightarrow> u32 \<Rightarrow> nat option \<times> bipbuf" where
  "bipbuf_poll me sz =
     (if bipbuf_is_empty me then (None, me)
      else if bsize me < ucast (a_start me + sz) then (None, me)
      else let end = unat (a_start me);
               me = me\<lparr>a_start := a_start me + sz\<rparr>;
               me = (if a_start me = a_end me then
                       (if 1 = b_inuse me then
                          me\<lparr>a_start := 0, a_end := b_end me, b_end := 0, b_inuse := 0\<rparr>
                        else me\<lparr>a_start := 0, a_end := 0\<rparr>)
                     else me)
        in (Some end, check_for_switch_to_b me))"

section \<open>The invariant\<close>

text \<open>
  Region A is \<open>a_start .. a_end\<close>, region B is \<open>0 .. b_end\<close> and lies before it. A buffer without bytes in
  region A is back in its initial state.
\<close>

definition bip_inv :: "bipbuf \<Rightarrow> bool" where
  "bip_inv me \<longleftrightarrow>
     unat (bsize me) \<le> length (bdata me) \<and> unat (bsize me) < 2 ^ 31
   \<and> unat (a_start me) \<le> unat (a_end me) \<and> unat (a_end me) \<le> unat (bsize me)
   \<and> unat (b_end me) \<le> unat (a_start me)
   \<and> (b_inuse me = 1 \<or> b_inuse me = 0 \<and> b_end me = 0)
   \<and> (a_start me = a_end me \<longrightarrow> a_start me = 0 \<and> b_inuse me = 0)"

text \<open>The queue of bytes in the buffer.\<close>

definition bip_queue :: "bipbuf \<Rightarrow> byte list" where
  "bip_queue me = take (unat (a_end me) - unat (a_start me)) (drop (unat (a_start me)) (bdata me))
     @ take (unat (b_end me)) (bdata me)"

text \<open>What fits at the current write position.\<close>

definition bip_room :: "bipbuf \<Rightarrow> nat" where
  "bip_room me = (if b_inuse me = 1 then unat (a_start me) - unat (b_end me) else unat (bsize me) - unat (a_end me))"

lemma bipbuf_unused_room: "bip_inv me \<Longrightarrow> bipbuf_unused me = int (bip_room me)"
  by (auto simp: bipbuf_unused_def bip_room_def bip_inv_def to_int_def sint_small unat_sub_no_wrap unat_ucast32)

lemma switch_fields [simp]:
  "bsize (check_for_switch_to_b me) = bsize me" "bdata (check_for_switch_to_b me) = bdata me"
  "a_start (check_for_switch_to_b me) = a_start me" "a_end (check_for_switch_to_b me) = a_end me"
  "b_end (check_for_switch_to_b me) = b_end me"
  by (simp_all add: check_for_switch_to_b_def)

lemma switch_queue [simp]: "bip_queue (check_for_switch_to_b me) = bip_queue me"
  by (simp add: bip_queue_def)

lemma switch_inv: "bip_inv me \<Longrightarrow> bip_inv (check_for_switch_to_b me)"
proof -
  assume inv: "bip_inv me"
  have "\<not> bsize me - ucast (a_end me) < ucast (a_start me - b_end me)" if "a_start me = a_end me"
    using inv that by (auto simp: bip_inv_def word_less_nat_alt)
  then show ?thesis using inv by (auto simp: bip_inv_def check_for_switch_to_b_def)
qed

lemma unat_plus_int:
  fixes w :: u32
  assumes "unat w + n < 2 ^ 31"
  shows "unat (w + word_of_nat n) = unat w + n"
proof -
  have "unat (word_of_nat n :: u32) = n" using assms by (intro unat_of_nat_eq) simp
  then show ?thesis using assms by (subst unat_add_no_wrap) simp_all
qed

lemma memcpy_in_ok:
  "off + length bs \<le> length dst \<Longrightarrow>
     memcpy_in dst off bs (int (length bs)) = Inr (take off dst @ bs @ drop (off + length bs) dst)"
  by (simp add: memcpy_in_def arr_read_def arr_write_def)

lemma offer_appends:
  assumes inv: "bip_inv me" and room: "length bs \<le> bip_room me"
  shows "\<exists>me'. bipbuf_offer me bs (int (length bs)) = Inr (int (length bs), me')
     \<and> bip_inv me' \<and> bip_queue me' = bip_queue me @ bs"
proof (cases "b_inuse me = 1")
  case True
  let ?b = "unat (b_end me)"
  define d where "d = take ?b (bdata me) @ bs @ drop (?b + length bs) (bdata me)"
  define me1 where "me1 = me\<lparr>bdata := d, b_end := b_end me + word_of_int (int (length bs))\<rparr>"
  have le: "?b + length bs \<le> unat (a_start me)" "unat (a_start me) \<le> unat (a_end me)"
    "unat (a_end me) \<le> length (bdata me)" "unat (a_end me) < 2 ^ 31"
    using inv room True by (auto simp: bip_inv_def bip_room_def)
  have b: "unat (b_end me1) = ?b + length bs" using le by (simp add: me1_def unat_plus_int)
  have "memcpy_in (bdata me) ?b bs (int (length bs)) = Inr d" unfolding d_def using le by (intro memcpy_in_ok) simp
  then have "bipbuf_offer me bs (int (length bs)) = Inr (int (length bs), check_for_switch_to_b me1)"
    using inv room True by (simp add: bipbuf_offer_def bipbuf_unused_room me1_def)
  moreover have "bip_inv me1" using inv le b True by (auto simp: bip_inv_def me1_def d_def)
  moreover have "bip_queue me1 = bip_queue me @ bs"
    using le b by (simp add: bip_queue_def) (simp add: me1_def d_def drop_append)
  ultimately show ?thesis using switch_inv by auto
next
  case False
  let ?a = "unat (a_end me)"
  define d where "d = take ?a (bdata me) @ bs @ drop (?a + length bs) (bdata me)"
  define me1 where "me1 = me\<lparr>bdata := d, a_end := a_end me + word_of_int (int (length bs))\<rparr>"
  have le: "?a + length bs \<le> unat (bsize me)" "unat (a_start me) \<le> ?a"
    "unat (bsize me) \<le> length (bdata me)" "unat (bsize me) < 2 ^ 31" "b_end me = 0" "b_inuse me = 0"
    using inv room False by (auto simp: bip_inv_def bip_room_def)
  have a: "unat (a_end me1) = ?a + length bs" using le by (simp add: me1_def unat_plus_int)
  have "memcpy_in (bdata me) ?a bs (int (length bs)) = Inr d" unfolding d_def using le by (intro memcpy_in_ok) simp
  then have "bipbuf_offer me bs (int (length bs)) = Inr (int (length bs), check_for_switch_to_b me1)"
    using inv room False by (simp add: bipbuf_offer_def bipbuf_unused_room me1_def)
  moreover have "bip_inv me1"
  proof -
    have "a_start me = 0" if "a_start me = a_end me1"
    proof -
      have "a_start me = a_end me" using a that le by (intro word_unat_eq_iff [THEN iffD2]) simp
      then show ?thesis using inv by (simp add: bip_inv_def)
    qed
    then show ?thesis using le a by (auto simp: bip_inv_def me1_def d_def)
  qed
  moreover have "bip_queue me1 = bip_queue me @ bs"
    using le a by (simp add: bip_queue_def) (simp add: me1_def d_def drop_append drop_take)
  ultimately show ?thesis using switch_inv by auto
qed

lemma offer_refused: "bip_inv me \<Longrightarrow> bip_room me < length bs \<Longrightarrow>
    bipbuf_offer me bs (int (length bs)) = Inr (0, me)"
  by (simp add: bipbuf_offer_def bipbuf_unused_room)

text \<open>The two halves of an offer: the caller writes at the requested position, then pushes.\<close>

lemma request_push_is_offer:
  assumes inv: "bip_inv me" and room: "length bs \<le> bip_room me"
  shows "\<exists>p d. bipbuf_request me (int (length bs)) = Some p \<and> arr_write (bdata me) (int p) bs = Inr d
     \<and> bipbuf_offer me bs (int (length bs)) = Inr (bipbuf_push (me\<lparr>bdata := d\<rparr>) (int (length bs)))"
proof -
  define p where "p = (if b_inuse me = 1 then unat (b_end me) else unat (a_end me))"
  have "p + length bs \<le> length (bdata me)" using inv room by (auto simp: p_def bip_inv_def bip_room_def)
  then have w: "arr_write (bdata me) (int p) bs = Inr (take p (bdata me) @ bs @ drop (p + length bs) (bdata me))"
    by (rule arr_write_ok)
  have r: "arr_read bs 0 (length bs) = Inr bs" by (simp add: arr_read_def)
  have u: "bipbuf_unused (me\<lparr>bdata := d\<rparr>) = bipbuf_unused me" for d by (simp add: bipbuf_unused_def)
  have "bipbuf_request me (int (length bs)) = Some p"
    using inv room by (simp add: bipbuf_request_def p_def bipbuf_unused_room)
  moreover have "bipbuf_offer me bs (int (length bs)) =
      Inr (bipbuf_push (me\<lparr>bdata := take p (bdata me) @ bs @ drop (p + length bs) (bdata me)\<rparr>) (int (length bs)))"
    using inv room w
    by (auto simp: bipbuf_offer_def bipbuf_push_def u bipbuf_unused_room memcpy_in_def r p_def Let_def split: if_splits)
  ultimately show ?thesis using w by blast
qed

lemma poll_takes:
  assumes inv: "bip_inv me" and ne: "a_start me \<noteq> a_end me"
    and n: "unat n \<le> unat (a_end me) - unat (a_start me)"
  shows "\<exists>me'. bipbuf_poll me n = (Some (unat (a_start me)), me') \<and> bip_inv me'
     \<and> take (unat n) (drop (unat (a_start me)) (bdata me)) = take (unat n) (bip_queue me)
     \<and> bip_queue me' = drop (unat n) (bip_queue me)"
proof -
  have le: "unat (a_start me) \<le> unat (a_end me)" "unat (a_end me) \<le> unat (bsize me)" "unat (bsize me) < 2 ^ 31"
    "unat (bsize me) \<le> length (bdata me)"
    using inv by (auto simp: bip_inv_def)
  have s: "unat (a_start me + n) = unat (a_start me) + unat n"
    using n le by (intro unat_add_no_wrap) simp
  define me1 where "me1 = me\<lparr>a_start := a_start me + n\<rparr>"
  define me2 where "me2 = (if a_start me1 = a_end me1 then
      (if 1 = b_inuse me1 then me1\<lparr>a_start := 0, a_end := b_end me1, b_end := 0, b_inuse := 0\<rparr>
       else me1\<lparr>a_start := 0, a_end := 0\<rparr>) else me1)"
  have poll: "bipbuf_poll me n = (Some (unat (a_start me)), check_for_switch_to_b me2)"
    using ne s n le
    by (simp add: bipbuf_poll_def bipbuf_is_empty_def word_less_nat_alt Let_def me1_def me2_def)
  have inv2: "bip_inv me2" using inv s n le by (auto simp: bip_inv_def me2_def me1_def)
  have q: "bip_queue me2 = drop (unat n) (bip_queue me)"
  proof (cases "a_start me1 = a_end me1")
    case True
    then have ae: "a_start me + n = a_end me" by (simp add: me1_def)
    then have n': "unat n = unat (a_end me) - unat (a_start me)" using s by simp
    have b: "b_inuse me = 1 \<or> b_end me = 0" using inv by (auto simp: bip_inv_def)
    show ?thesis using b ae le unfolding bip_queue_def me2_def n'
      by (cases "b_inuse me = 1") (simp_all add: me1_def)
  next
    case False
    then show ?thesis using n le s by (simp add: bip_queue_def me2_def me1_def drop_take add.commute)
  qed
  have "take (unat n) (drop (unat (a_start me)) (bdata me)) = take (unat n) (bip_queue me)"
    using n le by (auto simp: bip_queue_def min_def)
  then show ?thesis using poll q inv2 switch_inv by auto
qed

section \<open>The buffer is a queue\<close>

text \<open>
  A consumer as in \<^verbatim>\<open>crawler.c\<close> and \<^verbatim>\<open>logger.c\<close>: peek at all of the first region, consume some of it, at most
  \<open>want\<close> bytes, and poll what was consumed.
\<close>

definition bip_consume :: "bipbuf \<Rightarrow> u32 \<Rightarrow> byte list \<times> bipbuf" where
  "bip_consume me want =
     (case bipbuf_peek_all me of
        None \<Rightarrow> ([], me)
      | Some (p, avail) \<Rightarrow>
          let n = min want avail
          in (take (unat n) (drop p (bdata me)), snd (bipbuf_poll me n)))"

datatype bip_op = Offer "byte list" | Consume u32

text \<open>A run collects what the buffer accepted and what was consumed.\<close>

fun bip_run :: "bip_op list \<Rightarrow> bipbuf \<Rightarrow> (byte list \<times> byte list \<times> bipbuf) res" where
  "bip_run [] me = Inr ([], [], me)"
| "bip_run (Offer bs # ops) me =
     bindE (bipbuf_offer me bs (int (length bs))) (\<lambda>(n, me).
     bindE (bip_run ops me) (\<lambda>(acc, out, me). Inr (take (nat n) bs @ acc, out, me)))"
| "bip_run (Consume want # ops) me =
     (let (got, me) = bip_consume me want
      in bindE (bip_run ops me) (\<lambda>(acc, out, me). Inr (acc, got @ out, me)))"

lemma bip_consume_takes:
  assumes inv: "bip_inv me"
  shows "bip_inv (snd (bip_consume me want)) \<and> fst (bip_consume me want) @ bip_queue (snd (bip_consume me want)) = bip_queue me"
proof (cases "a_start me = a_end me")
  case False
  let ?n = "min want (a_end me - a_start me)"
  have "unat (a_end me - a_start me) = unat (a_end me) - unat (a_start me)"
    using inv by (simp add: bip_inv_def unat_sub_no_wrap)
  then have "unat ?n \<le> unat (a_end me) - unat (a_start me)"
    by (metis min.cobounded2 word_le_nat_alt)
  from poll_takes [OF inv False this] show ?thesis
    using False by (auto simp: bip_consume_def bipbuf_peek_all_def bipbuf_is_empty_def Let_def)
qed (use inv in \<open>simp add: bip_consume_def bipbuf_peek_all_def bipbuf_is_empty_def\<close>)

lemma bip_run_queue:
  assumes "bip_inv me"
  shows "\<exists>acc out me'. bip_run ops me = Inr (acc, out, me') \<and> bip_inv me' \<and> bip_queue me @ acc = out @ bip_queue me'"
  using assms
proof (induction ops arbitrary: me)
  case (Cons op ops)
  show ?case
  proof (cases op)
    case (Offer bs)
    obtain n me1 where off: "bipbuf_offer me bs (int (length bs)) = Inr (n, me1)" "bip_inv me1"
      "bip_queue me1 = bip_queue me @ take (nat n) bs"
      using offer_appends [OF Cons.prems, of bs] offer_refused [OF Cons.prems, of bs] Cons.prems
      by (cases "length bs \<le> bip_room me") fastforce+
    obtain acc out me' where "bip_run ops me1 = Inr (acc, out, me')" "bip_inv me'"
      "bip_queue me1 @ acc = out @ bip_queue me'" using Cons.IH [OF off(2)] by blast
    then show ?thesis using off by (simp add: Offer)
  next
    case (Consume want)
    obtain got me1 where c: "bip_consume me want = (got, me1)" by fastforce
    then have c1: "bip_inv me1" "got @ bip_queue me1 = bip_queue me"
      using bip_consume_takes [OF Cons.prems, of want] by auto
    obtain acc out me' where "bip_run ops me1 = Inr (acc, out, me')" "bip_inv me'"
      "bip_queue me1 @ acc = out @ bip_queue me'" using Cons.IH [OF c1(1)] by blast
    then show ?thesis using c c1(2) by (simp add: Consume flip: c1(2))
  qed
qed simp

lemma bipbuf_new_empty:
  assumes "bipbuf_new (Some mem) sz = Some me" and "unat sz < 2 ^ 31" and "unat sz \<le> length mem"
  shows "bip_inv me \<and> bip_queue me = [] \<and> bsize me = ucast sz"
  using assms by (auto simp: bipbuf_new_def bipbuf_init_def bip_inv_def bip_queue_def)

text \<open>C35: a buffer below two gigabytes is a queue: over any sequence of offers and of consumers that peek and
  then poll, no access leaves the buffer, and the bytes consumed followed by those still held are exactly
  the accepted bytes in order. An offer is accepted or refused as a whole.\<close>

theorem bipbuf_fifo:
  assumes "bipbuf_new (Some mem) sz = Some me" and "unat sz < 2 ^ 31" and "unat sz \<le> length mem"
  shows "\<exists>acc out me'. bip_run ops me = Inr (acc, out, me') \<and> bip_inv me' \<and> acc = out @ bip_queue me'"
  using bip_run_queue [of me ops] bipbuf_new_empty [OF assms] by simp

theorem bipbuf_fifo_witness:
  "\<exists>acc out me'. bip_run [Offer [1, 2, 3], Consume 2, Offer [4, 5], Consume 9, Consume 9]
     (bipbuf_init \<lparr>bsize = 0, a_start = 0, a_end = 0, b_end = 0, b_inuse = 0, bdata = replicate 4 0\<rparr> 4)
     = Inr (acc, out, me') \<and> acc = out @ bip_queue me'"
proof -
  have "bipbuf_new (Some (replicate 4 0)) 4 = Some
      (bipbuf_init \<lparr>bsize = 0, a_start = 0, a_end = 0, b_end = 0, b_inuse = 0, bdata = replicate 4 0\<rparr> 4)"
    by (simp add: bipbuf_new_def)
  moreover have "unat (4 :: u32) < 2 ^ 31" "unat (4 :: u32) \<le> length (replicate 4 (0 :: byte))" by simp_all
  ultimately show ?thesis using bipbuf_fifo by blast
qed

text \<open>a buffer whose bytes are all consumed takes the next offer of up to its whole size.\<close>

theorem bipbuf_drained_accepts:
  assumes "bip_inv me" and "bip_queue me = []" and "length bs \<le> unat (bsize me)"
  shows "\<exists>me'. bipbuf_offer me bs (int (length bs)) = Inr (int (length bs), me') \<and> bip_queue me' = bs"
proof -
  have "a_start me = a_end me"
    using assms(1,2) by (auto simp: bip_inv_def bip_queue_def word_unat_eq_iff)
  then have "bip_room me = unat (bsize me)" using assms(1) by (auto simp: bip_inv_def bip_room_def)
  then show ?thesis using offer_appends [OF assms(1), of bs] assms(2,3) by auto
qed

theorem bipbuf_drained_accepts_witness:
  "\<exists>me'. bipbuf_offer \<lparr>bsize = 2, a_start = 0, a_end = 0, b_end = 0, b_inuse = 0, bdata = [7, 7]\<rparr> [8, 9] 2
     = Inr (2, me') \<and> bip_queue me' = [8, 9]"
  using bipbuf_drained_accepts [of "\<lparr>bsize = 2, a_start = 0, a_end = 0, b_end = 0, b_inuse = 0, bdata = [7, 7]\<rparr>" "[8, 9]"]
  by (simp add: bip_inv_def bip_queue_def)

end
