(* ===== verification/Mc_Itoa.thy ===== *)
theory Mc_Itoa
  imports Kv_Prelude
begin

text \<open>
  Printing of integers, \<^verbatim>\<open>src/memcached/itoa_ljust.c\<close>. The output pointer is the text written so far; the
  closing zero byte that \<open>itoa\<close> writes behind it is overwritten by the next character. The parameter
  \<open>wrapv\<close> says whether the compiler defines signed overflow as wrapping; without it the overflow is a
  fault. The lemmas show that the text is the decimal representation of the number.
\<close>

section \<open>The code\<close>

definition lut :: string where
  "lut = ''0001020304050607080910111213141516171819'' @ ''2021222324252627282930313233343536373839''
     @ ''4041424344454647484950515253545556575859'' @ ''6061626364656667686970717273747576777879''
     @ ''8081828384858687888990919293949596979899''"

definition out2 :: "int \<Rightarrow> string \<Rightarrow> string res" where
  "out2 d p = (if 0 \<le> d \<and> d < 100 then Inr (p @ [lut ! nat (2 * d), lut ! nat (2 * d + 1)]) else Inl OutOfBounds)"

definition out1 :: "char \<Rightarrow> string \<Rightarrow> string" where
  "out1 c p = p @ [c]"

text \<open>\<^verbatim>\<open>'0' + d\<close> stored as a char.\<close>

definition digit_char :: "int \<Rightarrow> char" where
  "digit_char d = char_of (nat ((48 + d) mod 256))"

definition digits :: "u32 \<Rightarrow> u32 \<Rightarrow> int \<Rightarrow> string \<Rightarrow> int \<Rightarrow> int \<times> string \<times> int" where
  "digits u k d p n =
     (if u < k * 10 then
        let d = sint (u div k) in (d, out1 (digit_char d) p, n - 1)
      else (d, p, n))"

text \<open>Product of two ints.\<close>

definition int_mul :: "bool \<Rightarrow> int \<Rightarrow> int \<Rightarrow> int res" where
  "int_mul wrapv a b =
     (if - (2 ^ 31) \<le> a * b \<and> a * b < 2 ^ 31 then Inr (a * b)
      else if wrapv then Inr (sint (word_of_int (a * b) :: u32))
      else Inl SignedOverflow)"

text \<open>
  One line \<^verbatim>\<open>case n: d = u / k; p = out2(d, p);\<close> and one line \<^verbatim>\<open>case n: u -= d * k;\<close> of the switch: entered at
  \<open>n\<close>, the switch runs every line whose label is at most \<open>n\<close>.
\<close>

definition out_line :: "int \<Rightarrow> int \<Rightarrow> u32 \<Rightarrow> u32 \<times> string \<times> int \<Rightarrow> (u32 \<times> string \<times> int) res" where
  "out_line n label k = (\<lambda>(u, p, d).
     if label \<le> n then let d = sint (u div k) in bindE (out2 d p) (\<lambda>p. Inr (u, p, d))
     else Inr (u, p, d))"

definition sub_line :: "bool \<Rightarrow> int \<Rightarrow> int \<Rightarrow> int \<Rightarrow> u32 \<times> string \<times> int \<Rightarrow> (u32 \<times> string \<times> int) res" where
  "sub_line wrapv n label k = (\<lambda>(u, p, d).
     if label \<le> n then bindE (int_mul wrapv d k) (\<lambda>m. Inr (u - word_of_int m, p, d))
     else Inr (u, p, d))"

definition itoa :: "bool \<Rightarrow> u32 \<Rightarrow> string \<Rightarrow> int \<Rightarrow> int \<Rightarrow> string res" where
  "itoa wrapv u p d n =
     bindE (out_line n 10 100000000 (u, p, d)) (\<lambda>st.
     bindE (sub_line wrapv n 9 100000000 st) (\<lambda>st.
     bindE (out_line n 8 1000000 st) (\<lambda>st.
     bindE (sub_line wrapv n 7 1000000 st) (\<lambda>st.
     bindE (out_line n 6 10000 st) (\<lambda>st.
     bindE (sub_line wrapv n 5 10000 st) (\<lambda>st.
     bindE (out_line n 4 100 st) (\<lambda>st.
     bindE (sub_line wrapv n 3 100 st) (\<lambda>st.
     bindE (out_line n 2 1 st) (\<lambda>(u, p, d). Inr p)))))))))"

definition itoa_u32 :: "bool \<Rightarrow> u32 \<Rightarrow> string \<Rightarrow> string res" where
  "itoa_u32 wrapv u p =
     (let d = 0;
          (d, p, n) =
            (if u \<ge> 100000000 then digits u 100000000 d p 10
             else if u < 100 then digits u 1 d p 2
             else if u < 10000 then digits u 100 d p 4
             else if u < 1000000 then digits u 10000 d p 6
             else digits u 1000000 d p 8)
      in itoa wrapv u p d n)"

definition itoa_32 :: "bool \<Rightarrow> u32 \<Rightarrow> string \<Rightarrow> string res" where
  "itoa_32 wrapv i p =
     (if sint i < 0 then itoa_u32 wrapv (- i) (out1 (CHR ''-'') p) else itoa_u32 wrapv i p)"

function itoa_u64 :: "bool \<Rightarrow> u64 \<Rightarrow> string \<Rightarrow> string res" where
  "itoa_u64 wrapv u p =
     (let lower = (ucast u :: u32) in
      if ucast lower = u then itoa_u32 wrapv lower p
      else
        let upper = u div 1000000000 in
        bindE (itoa_u64 wrapv upper p) (\<lambda>p.
          let lower = (ucast (u - upper * 1000000000) :: u32);
              d = sint (lower div 100000000);
              p = out1 (digit_char d) p
          in itoa wrapv lower p d 9))"
  by pat_completeness auto
termination
proof (relation "measure (\<lambda>(wrapv, u, p). unat u)")
  fix wrapv :: bool and u upper :: u64 and lower :: u32 and p :: string
  assume "lower = ucast u" "ucast lower \<noteq> u" "upper = u div 1000000000"
  then have "0 < unat u" by (auto simp: unat_gt_0)
  then show "((wrapv, upper, p), wrapv, u, p) \<in> measure (\<lambda>(wrapv, u, p). unat u)"
    using \<open>upper = u div 1000000000\<close> by (simp add: unat_div_distrib)
qed simp

declare itoa_u64.simps [simp del]

definition itoa_64 :: "bool \<Rightarrow> u64 \<Rightarrow> string \<Rightarrow> string res" where
  "itoa_64 wrapv i p =
     (if sint i < 0 then itoa_u64 wrapv (- i) (out1 (CHR ''-'') p) else itoa_u64 wrapv i p)"

section \<open>Decimal representation\<close>

definition dchar :: "nat \<Rightarrow> char" where
  "dchar d = char_of (48 + d)"

fun decimal :: "nat \<Rightarrow> string" where
  "decimal n = (if n < 10 then [dchar n] else decimal (n div 10) @ [dchar (n mod 10)])"

declare decimal.simps [simp del]

text \<open>With leading zeros to \<open>k\<close> digits.\<close>

fun padded :: "nat \<Rightarrow> nat \<Rightarrow> string" where
  "padded 0 n = []"
| "padded (Suc k) n = padded k (n div 10) @ [dchar (n mod 10)]"

lemma padded_add: "padded (j + k) n = padded j (n div 10 ^ k) @ padded k (n mod 10 ^ k)"
proof (induction k arbitrary: n)
  case (Suc k)
  have "n mod 10 ^ Suc k div 10 = n div 10 mod 10 ^ k" by (simp add: mod_mult2_eq)
  moreover have "n mod 10 ^ Suc k mod 10 = n mod 10" by (simp add: mod_mod_cancel)
  ultimately show ?case using Suc.IH [of "n div 10"] by (simp add: div_mult2_eq)
qed simp

lemma ten_power_le: "10 ^ Suc k \<le> n \<Longrightarrow> \<not> n < (10::nat)"
proof -
  assume "10 ^ Suc k \<le> n"
  moreover have "1 \<le> (10::nat) ^ k" by simp
  ultimately show ?thesis unfolding power_Suc by linarith
qed

lemma decimal_padded: "10 ^ k \<le> n \<Longrightarrow> n < 10 ^ Suc k \<Longrightarrow> decimal n = padded (Suc k) n"
proof (induction k arbitrary: n)
  case 0
  then show ?case by (subst decimal.simps) simp
next
  case (Suc k)
  then have "decimal (n div 10) = padded (Suc k) (n div 10)" by (intro Suc.IH) auto
  moreover have "\<not> n < 10" using Suc.prems(1) by (rule ten_power_le)
  ultimately show ?case by (subst decimal.simps) simp
qed

lemma decimal_split: "10 ^ k \<le> n \<Longrightarrow> decimal n = decimal (n div 10 ^ k) @ padded k (n mod 10 ^ k)"
proof (induction k arbitrary: n)
  case (Suc k)
  have "decimal (n div 10) = decimal (n div 10 div 10 ^ k) @ padded k (n div 10 mod 10 ^ k)"
    using Suc.prems by (intro Suc.IH) auto
  moreover have "n mod 10 ^ Suc k div 10 = n div 10 mod 10 ^ k" by (simp add: mod_mult2_eq)
  moreover have "n mod 10 ^ Suc k mod 10 = n mod 10" by (simp add: mod_mod_cancel)
  moreover have "\<not> n < 10" using Suc.prems by (rule ten_power_le)
  ultimately show ?case by (subst decimal.simps) (simp add: div_mult2_eq)
qed simp

section \<open>The lines of the switch\<close>

lemma lut_all: "list_all (\<lambda>d. [lut ! (2 * d), lut ! (2 * d + 1)] = padded 2 d) [0..<100]"
  by code_simp

lemma out2_padded: "d < 100 \<Longrightarrow> out2 (int d) p = Inr (p @ padded 2 d)"
proof -
  assume d: "d < 100"
  then have "[lut ! (2 * d), lut ! (2 * d + 1)] = padded 2 d" using lut_all by (auto simp: list_all_iff)
  moreover have "nat (2 * int d) = 2 * d" "nat (2 * int d + 1) = 2 * d + 1" by simp_all
  ultimately show ?thesis using d unfolding out2_def by (simp only: if_True of_nat_0_le_iff of_nat_less_numeral_iff simp_thms)
qed

lemma sint_div: "unat (u div k) < 100 \<Longrightarrow> sint (u div k) = int (unat u div unat k)" for u k :: u32
  by (subst sint_small) (simp_all add: unat_div_distrib)

lemma out_line_run:
  assumes "label \<le> n" and "unat u div unat k < 100"
  shows "out_line n label k (u, p, d) = Inr (u, p @ padded 2 (unat u div unat k), int (unat u div unat k))"
  using assms by (simp add: out_line_def Let_def sint_div unat_div_distrib out2_padded)

lemma out_line_skip: "n < label \<Longrightarrow> out_line n label k st = Inr st"
  by (cases st) (simp add: out_line_def)

lemma sub_line_skip: "n < label \<Longrightarrow> sub_line wrapv n label k st = Inr st"
  by (cases st) (simp add: sub_line_def)

lemma sub_line_run:
  assumes "label \<le> n" and "wrapv \<or> unat u div k * k < 2 ^ 31"
  shows "sub_line wrapv n label (int k) (u, p, int (unat u div k)) = Inr (word_of_nat (unat u mod k), p, int (unat u div k))"
proof -
  have "unat u = unat u div k * k + unat u mod k" by simp
  moreover have "u = word_of_nat (unat u)" by simp
  ultimately have "u = word_of_nat (unat u div k * k) + word_of_nat (unat u mod k)" by (metis of_nat_add)
  then have r: "u - word_of_nat (unat u div k * k) = word_of_nat (unat u mod k)" by (metis add_diff_cancel_left')
  have p: "int (unat u div k) * int k = int (unat u div k * k)" by simp
  have w: "(word_of_int (sint (word_of_int x :: u32)) :: u32) = word_of_int x" for x by simp
  have "\<exists>m. int_mul wrapv (int (unat u div k)) (int k) = Inr m \<and> (word_of_int m :: u32) = word_of_nat (unat u div k * k)"
    using assms(2) unfolding int_mul_def p by (auto simp del: of_nat_mult)
  then obtain m where "int_mul wrapv (int (unat u div k)) (int k) = Inr m" "(word_of_int m :: u32) = word_of_nat (unat u div k * k)" by blast
  then show ?thesis using assms(1) r by (simp add: sub_line_def)
qed

text \<open>Where a line runs, the entry label does not matter.\<close>

lemma line_entry:
  "label < n \<Longrightarrow> out_line n label k = out_line label label k"
  "label < n \<Longrightarrow> sub_line wrapv n label m = sub_line wrapv label label m"
  by (auto simp: fun_eq_iff out_line_def sub_line_def)

lemma div_less_100: "n < k * 100 \<Longrightarrow> n div k < (100::nat)"
  by (simp add: less_mult_imp_div_less mult.commute)

text \<open>Entered at an even label the switch prints two digits and goes on at the odd label below; there it
  drops the digits printed.\<close>

lemma itoa_even:
  "unat u < 10000 \<Longrightarrow> itoa wrapv u p d 4
     = itoa wrapv u (p @ padded 2 (unat u div 100)) (int (unat u div 100)) 3"
  "unat u < 1000000 \<Longrightarrow> itoa wrapv u p d 6
     = itoa wrapv u (p @ padded 2 (unat u div 10000)) (int (unat u div 10000)) 5"
  "unat u < 100000000 \<Longrightarrow> itoa wrapv u p d 8
     = itoa wrapv u (p @ padded 2 (unat u div 1000000)) (int (unat u div 1000000)) 7"
  "itoa wrapv u p d 10 = itoa wrapv u (p @ padded 2 (unat u div 100000000)) (int (unat u div 100000000)) 9"
proof -
  have "unat u < 4294967296" using unsigned_less [of u, where ?'a = nat] by simp
  then have "unat u div 100000000 < 100" by (intro div_less_100) simp
  then show "itoa wrapv u p d 10 = itoa wrapv u (p @ padded 2 (unat u div 100000000)) (int (unat u div 100000000)) 9"
    by (simp add: itoa_def out_line_skip sub_line_skip out_line_run line_entry)
qed (simp_all add: itoa_def out_line_skip sub_line_skip out_line_run line_entry div_less_100)

lemma sub_line_small:
  assumes "unat u < 2 ^ 31"
  shows "sub_line wrapv n n (int k) (u, p, int (unat u div k)) = Inr (word_of_nat (unat u mod k), p, int (unat u div k))"
  using assms div_times_less_eq_dividend [of "unat u" k] by (intro sub_line_run) linarith+

lemma itoa_odd:
  "wrapv \<or> unat u div 100000000 * 100000000 < 2 ^ 31 \<Longrightarrow> itoa wrapv u p (int (unat u div 100000000)) 9
     = itoa wrapv (word_of_nat (unat u mod 100000000)) p (int (unat u div 100000000)) 8"
  "unat u < 100000000 \<Longrightarrow> itoa wrapv u p (int (unat u div 1000000)) 7
     = itoa wrapv (word_of_nat (unat u mod 1000000)) p (int (unat u div 1000000)) 6"
  "unat u < 1000000 \<Longrightarrow> itoa wrapv u p (int (unat u div 10000)) 5
     = itoa wrapv (word_of_nat (unat u mod 10000)) p (int (unat u div 10000)) 4"
  "unat u < 10000 \<Longrightarrow> itoa wrapv u p (int (unat u div 100)) 3
     = itoa wrapv (word_of_nat (unat u mod 100)) p (int (unat u div 100)) 2"
  subgoal using sub_line_run [of 9 9 wrapv u 100000000]
    by (simp add: itoa_def out_line_skip sub_line_skip line_entry)
  subgoal using sub_line_small [of u wrapv 7 1000000 p]
    by (simp add: itoa_def out_line_skip sub_line_skip line_entry)
  subgoal using sub_line_small [of u wrapv 5 10000 p]
    by (simp add: itoa_def out_line_skip sub_line_skip line_entry)
  subgoal using sub_line_small [of u wrapv 3 100 p]
    by (simp add: itoa_def out_line_skip sub_line_skip line_entry)
  done

lemma itoa_2: "unat u < 100 \<Longrightarrow> itoa wrapv u p d 2 = Inr (p @ padded 2 (unat u))"
  by (simp add: itoa_def out_line_skip sub_line_skip out_line_run)

lemma unat_word_mod: "k \<le> 2 ^ 32 \<Longrightarrow> 0 < k \<Longrightarrow> unat (word_of_nat (n mod k) :: u32) = n mod k"
  by (rule unat_of_nat_eq) (simp add: less_le_trans [OF mod_less_divisor])

lemma itoa_4: "unat u < 10000 \<Longrightarrow> itoa wrapv u p d 4 = Inr (p @ padded 4 (unat u))"
  using padded_add [of 2 2 "unat u"] by (simp add: itoa_even(1) itoa_odd(4) itoa_2 unat_word_mod)

lemma itoa_6: "unat u < 1000000 \<Longrightarrow> itoa wrapv u p d 6 = Inr (p @ padded 6 (unat u))"
  using padded_add [of 2 4 "unat u"] by (simp add: itoa_even(2) itoa_odd(3) itoa_4 unat_word_mod)

lemma itoa_8: "unat u < 100000000 \<Longrightarrow> itoa wrapv u p d 8 = Inr (p @ padded 8 (unat u))"
  using padded_add [of 2 6 "unat u"] by (simp add: itoa_even(3) itoa_odd(2) itoa_6 unat_word_mod)

lemma itoa_1: "itoa wrapv u p d 1 = Inr p"
  by (simp add: itoa_def out_line_skip sub_line_skip)

lemma itoa_3: "unat u < 10000 \<Longrightarrow> itoa wrapv u p (int (unat u div 100)) 3 = Inr (p @ padded 2 (unat u mod 100))"
  by (simp add: itoa_odd(4) itoa_2 unat_word_mod)

lemma itoa_5: "unat u < 1000000 \<Longrightarrow> itoa wrapv u p (int (unat u div 10000)) 5 = Inr (p @ padded 4 (unat u mod 10000))"
  by (simp add: itoa_odd(3) itoa_4 unat_word_mod)

lemma itoa_7: "unat u < 100000000 \<Longrightarrow> itoa wrapv u p (int (unat u div 1000000)) 7 = Inr (p @ padded 6 (unat u mod 1000000))"
  by (simp add: itoa_odd(2) itoa_6 unat_word_mod)

lemma itoa_9:
  assumes "wrapv \<or> unat u div 100000000 * 100000000 < 2 ^ 31"
  shows "itoa wrapv u p (int (unat u div 100000000)) 9 = Inr (p @ padded 8 (unat u mod 100000000))"
  using assms by (simp add: itoa_odd(1) itoa_8 unat_word_mod)

lemma itoa_10:
  assumes "wrapv \<or> unat u div 100000000 * 100000000 < 2 ^ 31"
  shows "itoa wrapv u p d 10 = Inr (p @ padded 10 (unat u))"
  using padded_add [of 2 8 "unat u"] itoa_9 [OF assms] by (simp add: itoa_even(4))

section \<open>The text is the decimal representation\<close>

lemma digit_char_dchar: "d < 10 \<Longrightarrow> digit_char (int d) = dchar d"
  by (simp add: digit_char_def dchar_def nat_add_distrib)

lemma padded_1: "d < 10 \<Longrightarrow> padded 1 d = [dchar d]"
  by simp

text \<open>One digit printed by \<open>digits\<close>, the rest by the switch.\<close>

lemma digits_run:
  assumes "unat u < 10 * unat k" and "unat k * 10 < 2 ^ 32"
  shows "digits u k d p n = (int (unat u div unat k), p @ [dchar (unat u div unat k)], n - 1)"
proof -
  have "unat (k * 10) = unat k * 10" using assms(2) by (simp add: unat_word_ariths)
  moreover have "unat u div unat k < 10" using assms(1) by (simp add: less_mult_imp_div_less)
  ultimately show ?thesis using assms
    by (simp add: digits_def word_less_nat_alt Let_def sint_div unat_div_distrib out1_def digit_char_dchar)
qed

lemma digits_skip:
  assumes "10 * unat k \<le> unat u"
  shows "digits u k d p n = (d, p, n)"
proof -
  have "unat u < 2 ^ LENGTH(32)" by (rule unsigned_less)
  then have "unat (k * 10) = unat k * 10" using assms by (simp add: unat_word_ariths)
  then show ?thesis using assms by (simp add: digits_def word_less_nat_alt)
qed

lemma decimal_first:
  assumes "10 ^ k \<le> n" and "n < 10 ^ Suc k"
  shows "decimal n = dchar (n div 10 ^ k) # padded k (n mod 10 ^ k)"
proof -
  have "n div 10 ^ k < 10" using assms(2) by (simp add: less_mult_imp_div_less)
  then show ?thesis using padded_add [of 1 k n] decimal_padded [OF assms] by simp
qed

text \<open>The strict semantics has no overflow below 2200000000.\<close>

definition itoa_safe :: "bool \<Rightarrow> nat \<Rightarrow> bool" where
  "itoa_safe wrapv n \<longleftrightarrow> wrapv \<or> n < 2200000000"

lemma itoa_safe_mult:
  assumes "itoa_safe wrapv n"
  shows "wrapv \<or> n div 100000000 * 100000000 < 2 ^ 31"
proof (cases wrapv)
  case False
  then have "n div 100000000 < 22" using assms by (simp add: itoa_safe_def less_mult_imp_div_less)
  then show ?thesis by simp
qed simp

lemma itoa_u32_decimal:
  assumes "itoa_safe wrapv (unat u)"
  shows "itoa_u32 wrapv u p = Inr (p @ decimal (unat u))"
proof -
  let ?n = "unat u"
  note d = digits_run [of u] digits_skip [of _ u] and dec = decimal_padded [of _ ?n] and first = decimal_first [of _ ?n]
    and sw = itoa_u32_def word_le_nat_alt word_less_nat_alt Let_def and ovf = itoa_safe_mult [OF assms]
  have "unat u < 2 ^ LENGTH(32)" by (rule unsigned_less)
  then have le: "?n < 10000000000" by simp
  consider "?n = 0" | "1 \<le> ?n" "?n < 10" | "10 \<le> ?n" "?n < 100" | "100 \<le> ?n" "?n < 1000" | "1000 \<le> ?n" "?n < 10000"
    | "10000 \<le> ?n" "?n < 100000" | "100000 \<le> ?n" "?n < 1000000" | "1000000 \<le> ?n" "?n < 10000000"
    | "10000000 \<le> ?n" "?n < 100000000" | "100000000 \<le> ?n" "?n < 1000000000" | "1000000000 \<le> ?n"
    by linarith
  then show ?thesis
  proof cases
    case 1
    show ?thesis using 1 d(1) [of 1] by (simp add: sw itoa_1 [of wrapv u, simplified] decimal.simps)
  next
    case 2
    show ?thesis using 2 d(1) [of 1] first [of 0] by (simp add: sw itoa_1 [of wrapv u, simplified])
  next
    case 3
    have "decimal ?n = padded 2 ?n" using 3 dec [of 1] by (simp add: numeral_2_eq_2)
    then show ?thesis using 3 d(2) [of 1] by (simp add: sw itoa_2)
  next
    case 4
    show ?thesis using 4 d(1) [of 100] first [of 2] by (simp add: sw itoa_3)
  next
    case 5
    show ?thesis using 5 d(2) [of 100] dec [of 3] by (simp add: sw itoa_4)
  next
    case 6
    show ?thesis using 6 d(1) [of 10000] first [of 4] by (simp add: sw itoa_5)
  next
    case 7
    show ?thesis using 7 d(2) [of 10000] dec [of 5] by (simp add: sw itoa_6)
  next
    case 8
    show ?thesis using 8 d(1) [of 1000000] first [of 6] by (simp add: sw itoa_7)
  next
    case 9
    show ?thesis using 9 d(2) [of 1000000] dec [of 7] by (simp add: sw itoa_8)
  next
    case 10
    show ?thesis using 10 d(1) [of 100000000] first [of 8] ovf le by (simp add: sw itoa_9)
  next
    case 11
    show ?thesis using 11 d(2) [of 100000000] dec [of 9] ovf le by (simp add: sw itoa_10)
  qed
qed

text \<open>The group of digits that \<open>itoa_u64\<close> prints first.\<close>

fun itoa_lead :: "nat \<Rightarrow> nat" where
  "itoa_lead n = (if n < 2 ^ 32 then n else itoa_lead (n div 1000000000))"

declare itoa_lead.simps [simp del]

lemma itoa_u64_decimal:
  assumes "itoa_safe wrapv (itoa_lead (unat u))"
  shows "itoa_u64 wrapv u p = Inr (p @ decimal (unat u))"
  using assms
proof (induction wrapv u p rule: itoa_u64.induct)
  case (1 wrapv u p)
  show ?case
  proof (cases "unat u < 2 ^ 32")
    case True
    then have "unat (ucast u :: u32) = unat u" by (rule unat_ucast32)
    moreover from this have "ucast (ucast u :: u32) = u" by (simp add: word_unat_eq_iff)
    ultimately show ?thesis using 1(2) True itoa_u32_decimal [of wrapv "ucast u" p]
      by (subst itoa_u64.simps) (simp add: itoa_lead.simps [of "unat u"])
  next
    case False
    let ?upper = "u div 1000000000"
    define lower :: u32 where "lower = ucast (u - ?upper * 1000000000)"
    have "unat (ucast (ucast u :: u32) :: u64) < 2 ^ LENGTH(32)" unfolding unat_ucast64 by (rule unsigned_less)
    then have "unat (ucast (ucast u :: u32) :: u64) \<noteq> unat u" using False unfolding len_num1 len_bit0 by simp
    then have ne: "ucast (ucast u :: u32) \<noteq> u" by metis
    have up: "unat ?upper = unat u div 1000000000" by (simp add: unat_div_distrib)
    have "itoa_u64 wrapv ?upper p = Inr (p @ decimal (unat u div 1000000000))"
      using 1(1) [OF refl ne refl] 1(2) False up by (simp add: itoa_lead.simps [of "unat u"])
    moreover have lo: "unat lower = unat u mod 1000000000"
    proof -
      have "u - ?upper * 1000000000 = u mod 1000000000" by (simp add: minus_div_mult_eq_mod)
      then have "unat (u - ?upper * 1000000000) = unat u mod 1000000000" by (simp add: unat_mod_distrib)
      then show ?thesis unfolding lower_def by (subst unat_ucast32) (simp_all add: less_trans [OF mod_less_divisor])
    qed
    moreover have dg: "unat lower div 100000000 < 10" unfolding lo by (simp add: less_mult_imp_div_less)
    moreover have "sint (lower div 100000000) = int (unat lower div 100000000)"
      using dg sint_div [of lower 100000000] by (simp add: unat_div_distrib)
    moreover have "itoa wrapv lower q (int (unat lower div 100000000)) 9 = Inr (q @ padded 8 (unat lower mod 100000000))" for q
      using dg by (intro itoa_9) simp
    moreover have "padded 9 (unat lower) = dchar (unat lower div 100000000) # padded 8 (unat lower mod 100000000)"
      using padded_add [of 1 8 "unat lower"] dg by simp
    moreover have "decimal (unat u) = decimal (unat u div 1000000000) @ padded 9 (unat lower)"
      using decimal_split [of 9 "unat u"] False lo by simp
    ultimately show ?thesis using ne
      by (subst itoa_u64.simps) (simp add: Let_def out1_def digit_char_dchar flip: lower_def)
  qed
qed

lemma unat_abs_sint:
  fixes i :: "'a::len word"
  shows "sint i < 0 \<Longrightarrow> unat (- i) = nat (- sint i)" and "0 \<le> sint i \<Longrightarrow> unat i = nat (sint i)"
proof -
  have range: "- (2 ^ (LENGTH('a) - 1)) \<le> sint i" "sint i < 2 ^ (LENGTH('a) - 1)"
    using sint_greater_eq [of i] sint_less [of i] by simp_all
  have small: "unat (word_of_int x :: 'a word) = nat x" if "0 \<le> x" "x \<le> 2 ^ (LENGTH('a) - 1)" for x
  proof -
    have "(2::int) ^ (LENGTH('a) - 1) < 2 ^ LENGTH('a)" by (rule power_strict_increasing) simp_all
    then have "x < 2 ^ LENGTH('a)" using that(2) by linarith
    then show ?thesis using that(1) by (simp add: unsigned_of_int take_bit_int_eq_self)
  qed
  show "unat (- i) = nat (- sint i)" if "sint i < 0"
    using small [of "- sint i"] range that by simp
  show "unat i = nat (sint i)" if "0 \<le> sint i"
    using small [of "sint i"] range that by simp
qed

text \<open>The decimal representation of an integer.\<close>

definition decimal_int :: "int \<Rightarrow> string" where
  "decimal_int i = (if i < 0 then CHR ''-'' # decimal (nat (- i)) else decimal (nat i))"

text \<open>C36: with wrapping overflow, every unsigned and signed integer of 32 and 64 bits is printed as its decimal
  representation, the most negative ones included.\<close>

theorem itoa_prints_decimal:
  "itoa_u32 True u p = Inr (p @ decimal (unat u)) \<and> itoa_u64 True v p = Inr (p @ decimal (unat v))
   \<and> itoa_32 True i p = Inr (p @ decimal_int (sint i)) \<and> itoa_64 True j p = Inr (p @ decimal_int (sint j))"
  by (simp add: itoa_32_def itoa_64_def itoa_u32_decimal itoa_u64_decimal itoa_safe_def decimal_int_def
      unat_abs_sint out1_def)

text \<open>C32: without it the 32-bit printer is right below 2200000000, and from there on the product
  \<^verbatim>\<open>d * 100000000\<close> of two ints overflows.\<close>

theorem itoa_u32_overflow:
  "itoa_u32 False u p = (if unat u < 2200000000 then Inr (p @ decimal (unat u)) else Inl SignedOverflow)"
proof (cases "unat u < 2200000000")
  case True
  then show ?thesis by (simp add: itoa_u32_decimal itoa_safe_def)
next
  case False
  have "22 \<le> unat u div 100000000" using False by simp
  then have "2 ^ 31 \<le> unat u div 100000000 * 100000000" by simp
  then have "int (2 ^ 31) \<le> int (unat u div 100000000 * 100000000)" by (simp only: of_nat_le_iff)
  then have "int_mul False (int (unat u div 100000000)) 100000000 = Inl SignedOverflow"
    unfolding int_mul_def by auto
  then have "sub_line False 9 9 100000000 (u, q, int (unat u div 100000000)) = Inl SignedOverflow" for q
    by (simp add: sub_line_def)
  then have "itoa False u q (int (unat u div 100000000)) 9 = Inl SignedOverflow" for q
    by (simp add: itoa_def out_line_skip)
  then show ?thesis using False digits_skip [of 100000000 u]
    by (simp add: itoa_u32_def word_le_nat_alt itoa_even(4))
qed

end
