(* ===== verification/Mc_Util.thy ===== *)
theory Mc_Util
  imports Mc_Itoa
begin

text \<open>
  The utilities of \<^verbatim>\<open>src/memcached/util.c\<close>: URI encoding of keys, the checked number parsers, bounded string
  copy, constant-time comparison and byte swapping. A C string is a list of characters with a zero
  character in it. The library functions strtoull, strtoll, isspace and isalnum are modelled for the
  default locale on a machine with 64-bit long. The lemmas show that the parsers invert the printers,
  that encoding can be undone and stays inside its buffer, and that the comparison decides equality.
\<close>

section \<open>The library functions used\<close>

abbreviation NUL :: char where "NUL \<equiv> CHR 0x00"

definition isspace :: "char \<Rightarrow> bool" where
  "isspace c = (c = CHR '' '' \<or> (9 \<le> (of_char c :: nat) \<and> (of_char c :: nat) \<le> 13))"

definition isalnum :: "char \<Rightarrow> bool" where
  "isalnum c = (let n = (of_char c :: nat) in
     (48 \<le> n \<and> n \<le> 57) \<or> (65 \<le> n \<and> n \<le> 90) \<or> (97 \<le> n \<and> n \<le> 122))"

definition c_str :: "string \<Rightarrow> string res" where
  "c_str s = (if NUL \<in> set s then Inr (takeWhile (\<lambda>c. c \<noteq> NUL) s) else Inl OutOfBounds)"

text \<open>The value of a digit.\<close>

definition digit_val :: "char \<Rightarrow> nat" where
  "digit_val c = (let n = (of_char c :: nat) in
     if 48 \<le> n \<and> n \<le> 57 then n - 48
     else if 65 \<le> n \<and> n \<le> 90 then n - 55
     else if 97 \<le> n \<and> n \<le> 122 then n - 87
     else 36)"

definition is_digit :: "nat \<Rightarrow> char \<Rightarrow> bool" where
  "is_digit base c = (digit_val c < base)"

definition digits_val :: "nat \<Rightarrow> string \<Rightarrow> nat" where
  "digits_val base ds = foldl (\<lambda>v c. v * base + digit_val c) 0 ds"

text \<open>
  The common part of the strto family on the text of a string: the sign, the magnitude and the number of
  characters read; \<open>None\<close> when there are no digits, which leaves the end pointer at the start.
\<close>

definition strto :: "nat \<Rightarrow> string \<Rightarrow> (bool \<times> nat \<times> nat) option" where
  "strto base t =
     (let ws = length (takeWhile isspace t);
          t1 = drop ws t;
          neg = (t1 \<noteq> [] \<and> hd t1 = CHR ''-'');
          sg = (if t1 \<noteq> [] \<and> (hd t1 = CHR ''-'' \<or> hd t1 = CHR ''+'') then 1 else 0);
          t2 = drop sg t1;
          px = (if base = 16 \<and> length t2 \<ge> 3 \<and> t2 ! 0 = CHR ''0'' \<and> (t2 ! 1 = CHR ''x'' \<or> t2 ! 1 = CHR ''X'')
                   \<and> is_digit 16 (t2 ! 2) then 2 else 0);
          ds = takeWhile (is_digit base) (drop px t2)
      in if ds = [] then None else Some (neg, digits_val base ds, ws + sg + px + length ds))"

text \<open>The results: value, range error, and the number of characters before the end pointer.\<close>

definition strtoull :: "nat \<Rightarrow> string \<Rightarrow> u64 \<times> bool \<times> nat" where
  "strtoull base t =
     (case strto base t of
        None \<Rightarrow> (0, False, 0)
      | Some (neg, v, e) \<Rightarrow>
          if v \<ge> 2 ^ 64 then (- 1, True, e)
          else (if neg then - word_of_nat v else word_of_nat v, False, e))"

definition strtoll :: "nat \<Rightarrow> string \<Rightarrow> int \<times> bool \<times> nat" where
  "strtoll base t =
     (case strto base t of
        None \<Rightarrow> (0, False, 0)
      | Some (neg, v, e) \<Rightarrow>
          let i = (if neg then - int v else int v) in
          if i < - (2 ^ 63) then (- (2 ^ 63), True, e)
          else if i \<ge> 2 ^ 63 then (2 ^ 63 - 1, True, e)
          else (i, False, e))"

section \<open>The parsers\<close>

text \<open>
  Each parser returns whether it accepts and what it stores in the output variable. The character at the
  end pointer is the zero character when the whole text was read.
\<close>

definition end_ok :: "string \<Rightarrow> nat \<Rightarrow> bool" where
  "end_ok t e = (let c = (t @ [NUL]) ! e in isspace c \<or> (c = NUL \<and> e \<noteq> 0))"

definition safe_strtoull :: "string \<Rightarrow> (bool \<times> u64) res" where
  "safe_strtoull str = bindE (c_str str) (\<lambda>t.
     let (ull, range, e) = strtoull 10 t in
     if range \<or> e = 0 then Inr (False, 0)
     else if end_ok t e then
       (if sint ull < 0 \<and> CHR ''-'' \<in> set t then Inr (False, 0) else Inr (True, ull))
     else Inr (False, 0))"

definition safe_strtoull_hex :: "string \<Rightarrow> (bool \<times> u64) res" where
  "safe_strtoull_hex str = bindE (c_str str) (\<lambda>t.
     let (ull, range, e) = strtoull 16 t in
     if range \<or> e = 0 then Inr (False, 0)
     else if end_ok t e then
       (if sint ull < 0 \<and> CHR ''-'' \<in> set t then Inr (False, 0) else Inr (True, ull))
     else Inr (False, 0))"

definition safe_strtoll :: "string \<Rightarrow> (bool \<times> int) res" where
  "safe_strtoll str = bindE (c_str str) (\<lambda>t.
     let (ll, range, e) = strtoll 10 t in
     if range \<or> e = 0 then Inr (False, 0)
     else if end_ok t e then Inr (True, ll)
     else Inr (False, 0))"

text \<open>An \<^verbatim>\<open>unsigned long\<close> has 64 bits; the assignment to the output keeps 32 of them.\<close>

definition safe_strtoul :: "string \<Rightarrow> (bool \<times> u32) res" where
  "safe_strtoul str = bindE (c_str str) (\<lambda>t.
     let (l, range, e) = strtoull 10 t in
     if range \<or> e = 0 then Inr (False, 0)
     else if end_ok t e then
       (if sint l < 0 \<and> CHR ''-'' \<in> set t then Inr (False, 0) else Inr (True, ucast l))
     else Inr (False, 0))"

definition safe_strtol :: "string \<Rightarrow> (bool \<times> int) res" where
  "safe_strtol str = bindE (c_str str) (\<lambda>t.
     let (l, range, e) = strtoll 10 t in
     if range \<or> e = 0 then Inr (False, 0)
     else if end_ok t e then Inr (True, sint (word_of_int l :: u32))
     else Inr (False, 0))"

section \<open>URI encoding\<close>

definition hex_digit :: "nat \<Rightarrow> char" where
  "hex_digit n = (if n < 10 then char_of (48 + n) else char_of (55 + n))"

text \<open>The table filled by \<open>uriencode_init\<close>: \<open>None\<close> for a character that stands for itself.\<close>

definition uriencode_entry :: "nat \<Rightarrow> string option" where
  "uriencode_entry x =
     (if isalnum (char_of x) \<or> char_of x = CHR ''-'' \<or> char_of x = CHR ''.'' \<or> char_of x = CHR ''_''
         \<or> char_of x = CHR ''~'' then None
      else Some [CHR ''%'', hex_digit (x div 16), hex_digit (x mod 16)])"

definition uriencode_init :: "string option list" where
  "uriencode_init = map uriencode_entry [0..<256]"

text \<open>The loop; \<open>dst\<close> is the text written so far, so \<open>d\<close> is its length.\<close>

fun uriencode_loop :: "string option list \<Rightarrow> string \<Rightarrow> string \<Rightarrow> nat \<Rightarrow> string option" where
  "uriencode_loop m [] dst dstlen = Some (dst @ [NUL])"
| "uriencode_loop m (c # src) dst dstlen =
     (if length dst + 4 > dstlen then None
      else case m ! of_char c of
          Some enc \<Rightarrow> uriencode_loop m src (dst @ enc) dstlen
        | None \<Rightarrow> uriencode_loop m src (dst @ [c]) dstlen)"

definition uriencode :: "string option list \<Rightarrow> string \<Rightarrow> nat \<Rightarrow> nat \<Rightarrow> string option res" where
  "uriencode m src srclen dstlen =
     bindE (arr_read src 0 srclen) (\<lambda>s.
       if s = [] \<and> dstlen = 0 then Inl OutOfBounds else Inr (uriencode_loop m s [] dstlen))"

section \<open>Copying and comparing\<close>

text \<open>The loop of \<open>safe_strcpy\<close> from index \<open>x\<close>; the bound \<^verbatim>\<open>dstmax - 1\<close> wraps for zero.\<close>

function strcpy_loop :: "string \<Rightarrow> string \<Rightarrow> u64 \<Rightarrow> nat \<Rightarrow> (string \<times> nat) res" where
  "strcpy_loop dst src dstmax x =
     (if x < unat (dstmax - 1) then
        (if x < length src then
           (if src ! x \<noteq> NUL then
              bindE (arr_write dst (int x) [src ! x]) (\<lambda>dst. strcpy_loop dst src dstmax (x + 1))
            else Inr (dst, x))
         else Inl OutOfBounds)
      else Inr (dst, x))"
  by pat_completeness auto
termination by (relation "measure (\<lambda>(dst, src, dstmax, x). length src - x)") auto

declare strcpy_loop.simps [simp del]

definition safe_strcpy :: "string \<Rightarrow> string \<Rightarrow> u64 \<Rightarrow> (bool \<times> string) res" where
  "safe_strcpy dst src dstmax =
     bindE (strcpy_loop dst src dstmax 0) (\<lambda>(dst, x).
     bindE (arr_write dst (int x) [NUL]) (\<lambda>dst.
     if x < length src then Inr (src ! x = NUL, dst) else Inl OutOfBounds))"

fun memcmp_loop :: "byte list \<Rightarrow> byte list \<Rightarrow> nat \<Rightarrow> u32 \<Rightarrow> u32 res" where
  "memcmp_loop ua ub 0 delta = Inr delta"
| "memcmp_loop (a # ua) (b # ub) (Suc n) delta = memcmp_loop ua ub n (delta OR (ucast a XOR ucast b))"
| "memcmp_loop ua ub (Suc n) delta = Inl OutOfBounds"

definition safe_memcmp :: "byte list \<Rightarrow> byte list \<Rightarrow> nat \<Rightarrow> bool res" where
  "safe_memcmp a b len = bindE (memcmp_loop a b len 0) (\<lambda>delta. Inr (delta = 0))"

fun swap_loop :: "nat \<Rightarrow> u64 \<Rightarrow> u64 \<Rightarrow> u64" where
  "swap_loop 0 rv v = rv"
| "swap_loop (Suc i) rv v = swap_loop i (push_bit 8 rv OR (v AND 0xff)) (drop_bit 8 v)"

definition mc_swap64 :: "u64 \<Rightarrow> u64" where
  "mc_swap64 v = swap_loop 8 0 v"

definition ntohll :: "u64 \<Rightarrow> u64" where "ntohll val = mc_swap64 val"

definition htonll :: "u64 \<Rightarrow> u64" where "htonll val = mc_swap64 val"

section \<open>Parsing inverts printing\<close>

lemma dchar_of: "d < 10 \<Longrightarrow> (of_char (dchar d) :: nat) = 48 + d"
  by (simp add: dchar_def)

lemma dchar_ne: "d < 10 \<Longrightarrow> (of_char c :: nat) < 48 \<Longrightarrow> dchar d \<noteq> c"
  by (metis dchar_of leD le_add1)

lemma dchar_props:
  assumes "d < 10"
  shows "digit_val (dchar d) = d" and "\<not> isspace (dchar d)" and "dchar d \<noteq> NUL"
    and "dchar d \<noteq> CHR ''-''" and "dchar d \<noteq> CHR ''+''"
  using assms dchar_ne [of d] by (simp_all add: digit_val_def isspace_def dchar_of)

lemma decimal_digits: "c \<in> set (decimal n) \<Longrightarrow> \<exists>d < 10. c = dchar d"
proof (induction n rule: decimal.induct)
  case (1 n)
  show ?case
  proof (cases "n < 10")
    case True
    then show ?thesis using 1(2) by (subst (asm) decimal.simps) auto
  next
    case False
    then have "c \<in> set (decimal (n div 10)) \<or> c = dchar (n mod 10)"
      using 1(2) by (subst (asm) decimal.simps) auto
    then show ?thesis using 1(1) False by (auto intro: exI [of _ "n mod 10"])
  qed
qed

lemma decimal_not_Nil [simp]: "decimal n \<noteq> []"
  by (subst decimal.simps) simp

lemma decimal_value: "digits_val 10 (decimal n) = n"
proof (induction n rule: decimal.induct)
  case (1 n)
  then show ?case
    by (subst decimal.simps) (auto simp: digits_val_def dchar_props)
qed

lemma decimal_char:
  assumes "c \<in> set (decimal n)"
  shows "is_digit 10 c" and "\<not> isspace c" and "c \<noteq> NUL" and "c \<noteq> CHR ''-''" and "c \<noteq> CHR ''+''"
proof -
  obtain d where d: "d < 10" "c = dchar d" using decimal_digits [OF assms] by blast
  show "is_digit 10 c" "\<not> isspace c" "c \<noteq> NUL" "c \<noteq> CHR ''-''" "c \<noteq> CHR ''+''"
    unfolding d(2) is_digit_def using dchar_props [OF d(1)] d(1) by simp_all
qed

lemma decimal_text:
  "\<forall>c \<in> set (decimal n). c \<noteq> NUL" "CHR ''-'' \<notin> set (decimal n)" "\<forall>c \<in> set (decimal n). is_digit 10 c"
  "hd (decimal n) \<noteq> CHR ''-''" "hd (decimal n) \<noteq> CHR ''+''" "\<not> isspace (hd (decimal n))"
  using decimal_char hd_in_set [OF decimal_not_Nil] by blast+

lemma isspace_NUL [simp]: "\<not> isspace NUL"
  by (simp add: isspace_def)

lemma isspace_minus [simp]: "\<not> isspace (CHR ''-'')"
  by (simp add: isspace_def)

lemma takeWhile_all: "\<forall>c \<in> set xs. P c \<Longrightarrow> takeWhile P xs = xs"
  by (simp add: takeWhile_eq_all_conv)

lemma strto_decimal:
  assumes "\<forall>c \<in> set ws. isspace c"
  shows "strto 10 (ws @ decimal n) = Some (False, n, length ws + length (decimal n))"
    and "strto 10 (ws @ CHR ''-'' # decimal n) = Some (True, n, length ws + 1 + length (decimal n))"
proof -
  have "takeWhile isspace (ws @ decimal n) = ws"
    using assms decimal_text(6) [of n] by (simp add: takeWhile_append) (cases "decimal n", auto)
  then show "strto 10 (ws @ decimal n) = Some (False, n, length ws + length (decimal n))"
    using decimal_text [of n] by (simp add: strto_def Let_def takeWhile_all decimal_value)
  have "takeWhile isspace (ws @ CHR ''-'' # decimal n) = ws"
    using assms by (simp add: takeWhile_append isspace_def)
  then show "strto 10 (ws @ CHR ''-'' # decimal n) = Some (True, n, length ws + 1 + length (decimal n))"
    using decimal_text [of n] by (simp add: strto_def Let_def takeWhile_all decimal_value)
qed

lemma c_str_text: "\<forall>c \<in> set t. c \<noteq> NUL \<Longrightarrow> c_str (t @ NUL # rest) = Inr t"
  by (simp add: c_str_def takeWhile_append takeWhile_all)

lemma end_ok_end: "t \<noteq> [] \<Longrightarrow> end_ok t (length t)"
  by (simp add: end_ok_def)

lemma safe_strtoull_decimal:
  assumes "\<forall>c \<in> set ws. isspace c"
  shows "safe_strtoull (ws @ decimal n @ NUL # rest) =
    Inr (if n < 2 ^ 64 then (True, word_of_nat n) else (False, 0))"
proof -
  let ?t = "ws @ decimal n"
  have "\<forall>c \<in> set ?t. c \<noteq> NUL" using assms decimal_text(1) [of n] isspace_NUL by fastforce
  then have c: "c_str (ws @ decimal n @ NUL # rest) = Inr ?t" using c_str_text [of ?t rest] by simp
  have m: "CHR ''-'' \<notin> set ?t" using assms decimal_text(2) [of n] isspace_minus by fastforce
  have e: "end_ok ?t (length ?t)" "length ?t \<noteq> 0" by (rule end_ok_end) simp_all
  have "strtoull 10 ?t = (if n < 2 ^ 64 then (word_of_nat n, False, length ?t) else (- 1, True, length ?t))"
    using strto_decimal(1) [OF assms, of n] by (simp add: strtoull_def not_less)
  then show ?thesis unfolding safe_strtoull_def c using m e by (cases "n < 2 ^ 64") simp_all
qed

text \<open>C37: the checked parsers read back what the printers write: for every 64-bit number, unsigned or signed,
  parsing the printed text accepts and stores the number.\<close>

theorem print_parse_64:
  "bindE (itoa_u64 True u []) (\<lambda>t. safe_strtoull (t @ [NUL])) = Inr (True, u)
   \<and> bindE (itoa_64 True i []) (\<lambda>t. safe_strtoll (t @ [NUL])) = Inr (True, sint i)"
proof
  have "unat u < 2 ^ LENGTH(64)" by (rule unsigned_less)
  then show "bindE (itoa_u64 True u []) (\<lambda>t. safe_strtoull (t @ [NUL])) = Inr (True, u)"
    using safe_strtoull_decimal [of "[]" "unat u" "[]"] by (simp add: itoa_u64_decimal itoa_safe_def)
  have range: "- (2 ^ 63) \<le> sint i" "sint i < 2 ^ 63"
    using sint_greater_eq [of i] sint_less [of i] by simp_all
  show "bindE (itoa_64 True i []) (\<lambda>t. safe_strtoll (t @ [NUL])) = Inr (True, sint i)"
  proof (cases "sint i < 0")
    case True
    have "c_str ((CHR ''-'' # decimal (nat (- sint i))) @ NUL # []) = Inr (CHR ''-'' # decimal (nat (- sint i)))"
      by (rule c_str_text) (use decimal_text(1) in auto)
    then show ?thesis using True range strto_decimal(2) [of "[]" "nat (- sint i)"] end_ok_end [of "CHR ''-'' # decimal (nat (- sint i))"]
      by (simp add: itoa_64_def itoa_u64_decimal itoa_safe_def unat_abs_sint out1_def safe_strtoll_def strtoll_def Let_def)
  next
    case False
    have "c_str (decimal (nat (sint i)) @ NUL # []) = Inr (decimal (nat (sint i)))"
      by (rule c_str_text) (use decimal_text(1) in auto)
    then show ?thesis using False range strto_decimal(1) [of "[]" "nat (sint i)"] end_ok_end [of "decimal (nat (sint i))"]
      by (simp add: itoa_64_def itoa_u64_decimal itoa_safe_def unat_abs_sint out1_def safe_strtoll_def strtoll_def)
  qed
qed

section \<open>Encoding can be undone\<close>

fun uridecode :: "string \<Rightarrow> string" where
  "uridecode [] = []"
| "uridecode (c # cs) =
     (if c = CHR ''%'' then (case cs of h # l # r \<Rightarrow> char_of (16 * digit_val h + digit_val l) # uridecode r | _ \<Rightarrow> [])
      else c # uridecode cs)"

text \<open>What the loop appends.\<close>

definition uri_chars :: "char \<Rightarrow> string" where
  "uri_chars c = (case uriencode_entry (of_char c) of Some enc \<Rightarrow> enc | None \<Rightarrow> [c])"

lemma of_char_less: "(of_char c :: nat) < 256"
  using of_char_mod_256 [of c] by (metis mod_less_divisor zero_less_numeral)

lemma uriencode_init_nth: "x < 256 \<Longrightarrow> uriencode_init ! x = uriencode_entry x"
  by (simp add: uriencode_init_def)

lemma hex_digit_val: "n < 16 \<Longrightarrow> digit_val (hex_digit n) = n"
  by (auto simp: digit_val_def hex_digit_def Let_def)

lemma uridecode_chars: "uridecode (uri_chars c @ rest) = c # uridecode rest"
proof (cases "uriencode_entry (of_char c)")
  case None
  then have "c \<noteq> CHR ''%''" by (auto simp: uriencode_entry_def isalnum_def)
  then show ?thesis by (simp add: uri_chars_def None)
next
  case (Some enc)
  have "(of_char c :: nat) div 16 < 16" using of_char_less [of c] by (simp add: less_mult_imp_div_less)
  moreover have "enc = [CHR ''%'', hex_digit (of_char c div 16), hex_digit (of_char c mod 16)]"
    using Some by (auto simp: uriencode_entry_def split: if_splits)
  ultimately show ?thesis by (simp add: uri_chars_def Some hex_digit_val)
qed

lemma length_uri_chars: "length (uri_chars c) \<le> 3"
  by (auto simp: uri_chars_def uriencode_entry_def)

lemma uriencode_loop_out:
  assumes "uriencode_loop uriencode_init src dst dstlen = Some out" and "length dst < dstlen"
  shows "out = dst @ concat (map uri_chars src) @ [NUL] \<and> length out \<le> dstlen"
  using assms
proof (induction src arbitrary: dst)
  case (Cons c src)
  have "uriencode_loop uriencode_init src (dst @ uri_chars c) dstlen = Some out" "length dst + 4 \<le> dstlen"
    using Cons.prems by (auto simp: uriencode_init_nth of_char_less uri_chars_def split: if_splits option.splits)
  then show ?case using Cons.IH [of "dst @ uri_chars c"] length_uri_chars [of c] by auto
qed auto

lemma uridecode_concat: "uridecode (concat (map uri_chars src)) = src"
  by (induction src) (simp_all add: uridecode_chars)

text \<open>C38: when the encoder accepts, it wrote a zero-terminated text that fits the output buffer and decodes to
  the key.\<close>

theorem uriencode_roundtrip:
  assumes "uriencode uriencode_init src srclen dstlen = Inr (Some out)"
  shows "length out \<le> dstlen \<and> last out = NUL \<and> uridecode (butlast out) = take srclen src"
proof -
  obtain ins where ins: "arr_read src 0 srclen = Inr ins" "\<not> (ins = [] \<and> dstlen = 0)"
    "uriencode_loop uriencode_init ins [] dstlen = Some out"
    using assms by (auto simp: uriencode_def bindE_eq_Inr split: if_splits)
  have "0 < dstlen" using ins(2,3) by (cases ins) (auto split: if_splits)
  then have "out = concat (map uri_chars ins) @ [NUL] \<and> length out \<le> dstlen"
    using uriencode_loop_out [OF ins(3)] by auto
  moreover have "ins = take srclen src" using ins(1) by (auto simp: arr_read_def split: if_splits)
  ultimately show ?thesis by (auto simp: uridecode_concat butlast_append)
qed

theorem uriencode_roundtrip_witness:
  "uriencode uriencode_init ''a b'' 3 8 = Inr (Some (''a%20b'' @ [NUL])) \<and> uridecode ''a%20b'' = ''a b''"
proof -
  have run: "uriencode uriencode_init ''a b'' 3 8 = Inr (Some (''a%20b'' @ [NUL]))"
    by (simp add: uriencode_def arr_read_def uriencode_init_nth uriencode_entry_def isalnum_def hex_digit_def char_of_def bit_Suc_0_iff)
  show ?thesis using uriencode_roundtrip [OF run] run by simp
qed

section \<open>Where the parsers accept too much\<close>

lemma c_str_decimal: "c_str (decimal n @ [NUL]) = Inr (decimal n)"
  by (rule c_str_text) (use decimal_text(1) in auto)

text \<open>Numbers that need more than 32 bits are accepted and truncated.\<close>

lemma safe_strtoul_truncates:
  "n < 2 ^ 64 \<Longrightarrow> safe_strtoul (decimal n @ [NUL]) = Inr (True, word_of_nat n)"
proof -
  assume n: "n < 2 ^ 64"
  have "strtoull 10 (decimal n) = (word_of_nat n, False, length (decimal n))"
    using strto_decimal(1) [of "[]" n] n by (simp add: strtoull_def)
  moreover have "ucast (word_of_nat n :: u64) = (word_of_nat n :: u32)" by (rule bit_word_eqI) (simp add: bit_simps)
  ultimately show ?thesis using end_ok_end [of "decimal n"] decimal_text(2) [of n]
    unfolding safe_strtoul_def c_str_decimal by simp
qed

text \<open>A negative number of magnitude above \<open>2 ^ 63\<close> wraps to a small positive one, which skips the test for a
  minus sign.\<close>

lemma safe_strtoull_negative:
  "2 ^ 63 < n \<Longrightarrow> n < 2 ^ 64 \<Longrightarrow> safe_strtoull (CHR ''-'' # decimal n @ [NUL]) = Inr (True, word_of_nat (2 ^ 64 - n))"
proof -
  assume n: "2 ^ 63 < n" "n < 2 ^ 64"
  let ?t = "CHR ''-'' # decimal n"
  have c: "c_str (CHR ''-'' # decimal n @ [NUL]) = Inr ?t"
    using c_str_text [of ?t "[]"] decimal_text(1) [of n] by simp
  have "word_of_nat (2 ^ 64 - n) + word_of_nat n = (word_of_nat (2 ^ 64) :: u64)"
    using n by (simp only: of_nat_add [symmetric]) simp
  also have "\<dots> = 0" by simp
  finally have w: "- word_of_nat n = (word_of_nat (2 ^ 64 - n) :: u64)" by (metis add.commute minus_unique)
  have "strtoull 10 ?t = (word_of_nat (2 ^ 64 - n), False, length ?t)"
    using strto_decimal(2) [of "[]" n] n w by (simp add: strtoull_def)
  moreover have "\<not> sint (word_of_nat (2 ^ 64 - n) :: u64) < 0"
  proof -
    have "sint (word_of_int (int (2 ^ 64 - n)) :: u64) = int (2 ^ 64 - n)"
      unfolding sint_sbintrunc' using n by (intro signed_take_bit_int_eq_self) auto
    then show ?thesis by simp
  qed
  ultimately show ?thesis unfolding safe_strtoull_def c using end_ok_end [of ?t] by simp
qed

section \<open>Comparing, copying and swapping\<close>

lemma xor_zero_iff: "(ucast (a :: byte) XOR ucast b :: u32) = 0 \<longleftrightarrow> a = b"
proof
  assume eq: "(ucast a XOR ucast b :: u32) = 0"
  show "a = b"
  proof (rule bit_word_eqI)
    fix n assume "n < LENGTH(8)"
    moreover have "bit (ucast a XOR ucast b :: u32) n = False" by (simp add: eq)
    ultimately show "bit a n = bit b n" by (auto simp: bit_simps)
  qed
qed simp

lemma or_zero_iff: "(x OR y :: u32) = 0 \<longleftrightarrow> x = 0 \<and> y = 0"
  by (rule or_eq_0_iff)

lemma memcmp_loop_zero:
  assumes "n \<le> length a" and "n \<le> length b"
  shows "\<exists>d. memcmp_loop a b n delta = Inr d \<and> (d = 0 \<longleftrightarrow> delta = 0 \<and> take n a = take n b)"
  using assms
proof (induction a b n delta rule: memcmp_loop.induct)
  case (2 a ua b ub n delta)
  then show ?case by (auto simp: xor_zero_iff or_zero_iff)
qed auto

text \<open>The comparison looks at all bytes and decides equality.\<close>

lemma safe_memcmp_eq:
  "len \<le> length a \<Longrightarrow> len \<le> length b \<Longrightarrow> safe_memcmp a b len = Inr (take len a = take len b)"
  using memcmp_loop_zero [of len a b 0] by (auto simp: safe_memcmp_def)

lemma strcpy_loop_copies:
  assumes "x \<le> n" and "n < length src" and "src ! n = NUL" and "\<forall>i < n. src ! i \<noteq> NUL" and "n \<le> length dst"
    and "take x dst = take x src" and "unat (dstmax - 1) \<le> length dst"
  shows "\<exists>dst'. strcpy_loop dst src dstmax x = Inr (dst', max x (min n (unat (dstmax - 1))))
     \<and> length dst' = length dst \<and> take (max x (min n (unat (dstmax - 1)))) dst' = take (max x (min n (unat (dstmax - 1)))) src"
  using assms
proof (induction dst src dstmax x rule: strcpy_loop.induct)
  case (1 dst src dstmax x)
  show ?case
  proof (cases "x < unat (dstmax - 1) \<and> x < n")
    case True
    let ?d = "dst[x := src ! x]"
    have w: "arr_write dst (int x) [src ! x] = Inr ?d"
      using True 1 by (simp add: arr_write_def upd_conv_take_nth_drop)
    have "take (x + 1) ?d = take (x + 1) src"
      using True 1 by (simp add: take_Suc_conv_app_nth)
    then show ?thesis using True 1 w by (subst strcpy_loop.simps) simp
  next
    case False
    then have "strcpy_loop dst src dstmax x = Inr (dst, x)" using 1 by (subst strcpy_loop.simps) auto
    moreover have "max x (min n (unat (dstmax - 1))) = x" using False 1 by auto
    ultimately show ?thesis using 1 by simp
  qed
qed

text \<open>
  A copy into a buffer of \<open>dstmax\<close> bytes: the zero-terminated source of length \<open>n\<close> is copied up to
  \<open>dstmax - 1\<close> characters and terminated, and the result says whether it was copied in full.
\<close>

lemma safe_strcpy_copies:
  assumes "n < length src" and "src ! n = NUL" and "\<forall>i < n. src ! i \<noteq> NUL"
    and "dstmax \<noteq> 0" and "length dst = unat dstmax" and "n \<le> length dst"
  defines "m \<equiv> min n (unat (dstmax - 1))"
  shows "\<exists>dst'. safe_strcpy dst src dstmax = Inr (n < unat dstmax, dst') \<and> take (m + 1) dst' = take m src @ [NUL]"
proof -
  have s: "unat (dstmax - 1) = unat dstmax - 1" using assms(4) by (simp add: unat_minus_one)
  have pos: "0 < unat dstmax" using assms(4) by (simp add: unat_gt_0)
  obtain d where d: "strcpy_loop dst src dstmax 0 = Inr (d, m)" "length d = length dst" "take m d = take m src"
    using strcpy_loop_copies [of 0 n src dst dstmax] assms s by auto
  have lt: "m < length d" using d(2) assms(5) s pos by (simp add: m_def)
  then have w: "arr_write d (int m) [NUL] = Inr (d[m := NUL])" by (simp add: arr_write_def upd_conv_take_nth_drop)
  have "take (m + 1) (d[m := NUL]) = take m src @ [NUL]" using lt d(3) by (simp add: take_Suc_conv_app_nth)
  moreover have "(src ! m = NUL) = (n < unat dstmax)" using assms(2,3) s pos by (auto simp: m_def min_def)
  moreover have "m < length src" using assms(1) by (simp add: m_def)
  ultimately show ?thesis using d w by (simp add: safe_strcpy_def)
qed

lemma bit_swap_loop:
  assumes "n < 64"
  shows "bit (swap_loop k rv v) n = (if n < 8 * k then bit v (8 * (k - 1 - n div 8) + n mod 8) else bit rv (n - 8 * k))"
  using assms
proof (induction k arbitrary: rv v)
  case (Suc k)
  have low: "bit (v AND 0xff) j = (j < 8 \<and> bit v j)" for j
  proof -
    have "v AND 0xff = take_bit 8 v" by (simp add: take_bit_eq_mask mask_eq_exp_minus_1)
    then show ?thesis by (simp add: bit_take_bit_iff)
  qed
  show ?case
  proof (cases "n < 8 * k")
    case True
    then have "n div 8 < k" by linarith
    then have "8 + (8 * (k - 1 - n div 8) + n mod 8) = 8 * (k - n div 8) + n mod 8" by (simp add: algebra_simps)
    then have "bit v (8 + (8 * (k - 1 - n div 8) + n mod 8)) = bit v (8 * (k - n div 8) + n mod 8)" by (rule arg_cong)
    then show ?thesis using Suc True by (simp add: bit_drop_bit_eq)
  next
    case False
    have b: "bit (swap_loop (Suc k) rv v) n = ((8 \<le> n - 8 * k \<and> bit rv (n - 8 * k - 8)) \<or> (n - 8 * k < 8 \<and> bit v (n - 8 * k)))"
      using Suc False low by (auto simp: bit_or_iff bit_push_bit_iff)
    show ?thesis
    proof (cases "n < 8 * Suc k")
      case True
      then have k: "n div 8 = k" using False by (intro div_nat_eqI) simp_all
      then have "n mod 8 = n - 8 * k" by (simp add: minus_div_mult_eq_mod [symmetric] mult.commute)
      moreover have "n - 8 * k < 8" "\<not> 8 \<le> n - 8 * k" using True by simp_all
      ultimately show ?thesis using b k True by simp
    next
      case False
      then have "8 \<le> n - 8 * k" "n - 8 * k - 8 = n - 8 * Suc k" by auto
      then show ?thesis using b False by simp
    qed
  qed
qed simp

lemma ntohll_htonll: "ntohll (htonll v) = v"
proof (rule bit_word_eqI)
  fix n assume "n < LENGTH(64)"
  then have n: "n < 64" by simp
  define f where "f j = 8 * (7 - j div 8) + j mod 8" for j :: nat
  have "f (f n) = n" "f n < 64" using n by (auto simp: f_def)
  then show "bit (ntohll (htonll v)) n = bit v n"
    using n bit_swap_loop [of n 8 0 "mc_swap64 v"] bit_swap_loop [of "f n" 8 0 v]
    by (simp add: ntohll_def htonll_def mc_swap64_def f_def)
qed

end
