(* ===== verification/Mc_Item.thy ===== *)
theory Mc_Item
  imports Kv_Prelude
begin

text \<open>
  The item of the cache, \<^verbatim>\<open>struct _stritem\<close> of \<^verbatim>\<open>src/memcached/memcached.h\<close>, and the store of items by address.
  The header fields keep their widths; the flexible array member is split into the CAS value, the client
  flags, the key and the data it holds.
\<close>

type_synonym addr = nat

record item =
  it_next :: "addr option"
  it_prev :: "addr option"
  h_next :: "addr option"
  it_time :: u32
  exptime :: u32
  nbytes :: int
  refcount :: u16
  it_flags :: u16
  slabs_clsid :: byte
  ikey :: "byte list"
  mac :: "byte list"
  mt_index :: u32
  cas :: u64
  client_flags :: u32
  idata :: "byte list"

type_synonym heap = "addr \<Rightarrow> item"

text \<open>The flags of an item.\<close>

definition ITEM_LINKED :: u16 where "ITEM_LINKED = 1"
definition ITEM_CAS :: u16 where "ITEM_CAS = 2"
definition ITEM_SLABBED :: u16 where "ITEM_SLABBED = 4"
definition ITEM_FETCHED :: u16 where "ITEM_FETCHED = 8"
definition ITEM_ACTIVE :: u16 where "ITEM_ACTIVE = 16"
definition ITEM_CHUNKED :: u16 where "ITEM_CHUNKED = 32"
definition ITEM_CHUNK :: u16 where "ITEM_CHUNK = 64"
definition ITEM_HDR :: u16 where "ITEM_HDR = 128"

definition ITEM_CFLAGS :: u16 where "ITEM_CFLAGS = 256"
definition ITEM_TOKEN_SENT :: u16 where "ITEM_TOKEN_SENT = 512"
definition ITEM_STALE :: u16 where "ITEM_STALE = 2048"
definition ITEM_KEY_BINARY :: u16 where "ITEM_KEY_BINARY = 4096"

definition has_flag :: "item \<Rightarrow> u16 \<Rightarrow> bool" where
  "has_flag it f = (it_flags it AND f \<noteq> 0)"

end
