(* ===== verification/Mc_Assoc.thy ===== *)
theory Mc_Assoc
  imports Mc_Item
begin

text \<open>
  The hash table of the cache, \<^verbatim>\<open>src/memcached/assoc.c\<close>. The items of a bucket are chained through \<open>h_next\<close> in
  the store of items; a pointer to a pointer, as \<open>_hashitem_before\<close> returns it, is a slot of the table or
  of an item. A loop along a chain may not end on a cyclic store, so it is a partial function whose
  value \<open>None\<close> is non-termination. While the table grows, buckets move one at a time from the old table to
  the new one, between operations of the workers. The lemmas show that every reachable table
  implements a finite map from keys to items and that growing it does not change the map.
\<close>

section \<open>The code\<close>

record assoc =
  hashpower :: nat
  primary_hashtable :: "addr option list"
  old_hashtable :: "addr option list"
  expanding :: bool
  expand_bucket :: u32
  hash_power_level :: nat
  hash_bytes :: u64
  hash_is_expanding :: bool

definition HASHPOWER_MAX :: nat where "HASHPOWER_MAX = 32"

definition hashsize :: "nat \<Rightarrow> u32" where
  "hashsize n = push_bit n 1"

definition hashmask :: "nat \<Rightarrow> u32" where
  "hashmask n = hashsize n - 1"

text \<open>Initialisation; \<open>None\<close> is the exit when there is no memory.\<close>

definition assoc_init :: "bool \<Rightarrow> nat \<Rightarrow> assoc \<Rightarrow> assoc option" where
  "assoc_init calloc_ok hashtable_init t =
     (let t = (if hashtable_init \<noteq> 0 then t\<lparr>hashpower := hashtable_init\<rparr> else t) in
      if \<not> calloc_ok then None
      else Some (t\<lparr>primary_hashtable := replicate (unat (hashsize (hashpower t))) None,
                   hash_power_level := hashpower t,
                   hash_bytes := ucast (hashsize (hashpower t)) * 8\<rparr>))"

text \<open>The bucket of a hash value, in the old table or in the primary one.\<close>

datatype bucket = Old nat | Prim nat

definition bucket_of :: "assoc \<Rightarrow> u32 \<Rightarrow> bucket" where
  "bucket_of t hv =
     (let oldbucket = hv AND hashmask (hashpower t - 1) in
      if expanding t \<and> oldbucket \<ge> expand_bucket t then Old (unat oldbucket)
      else Prim (unat (hv AND hashmask (hashpower t))))"

definition valid_bucket :: "assoc \<Rightarrow> bucket \<Rightarrow> bool" where
  "valid_bucket t b = (case b of Old i \<Rightarrow> i < length (old_hashtable t) | Prim i \<Rightarrow> i < length (primary_hashtable t))"

definition bucket_head :: "assoc \<Rightarrow> bucket \<Rightarrow> addr option" where
  "bucket_head t b = (case b of Old i \<Rightarrow> old_hashtable t ! i | Prim i \<Rightarrow> primary_hashtable t ! i)"

definition set_bucket :: "assoc \<Rightarrow> bucket \<Rightarrow> addr option \<Rightarrow> assoc" where
  "set_bucket t b p = (case b of
     Old i \<Rightarrow> t\<lparr>old_hashtable := (old_hashtable t)[i := p]\<rparr>
   | Prim i \<Rightarrow> t\<lparr>primary_hashtable := (primary_hashtable t)[i := p]\<rparr>)"

partial_function (option) find_loop :: "heap \<Rightarrow> byte list \<Rightarrow> addr option \<Rightarrow> addr option option" where
  "find_loop h key it =
     (case it of
        None \<Rightarrow> Some None
      | Some a \<Rightarrow> if ikey (h a) = key then Some (Some a) else find_loop h key (h_next (h a)))"

definition assoc_find :: "heap \<Rightarrow> assoc \<Rightarrow> byte list \<Rightarrow> u32 \<Rightarrow> addr option res option" where
  "assoc_find h t key hv =
     (let b = bucket_of t hv in
      if valid_bucket t b then map_option Inr (find_loop h key (bucket_head t b))
      else Some (Inl OutOfBounds))"

datatype slot = TableSlot bucket | NextSlot addr

definition read_slot :: "heap \<Rightarrow> assoc \<Rightarrow> slot \<Rightarrow> addr option" where
  "read_slot h t s = (case s of TableSlot b \<Rightarrow> bucket_head t b | NextSlot a \<Rightarrow> h_next (h a))"

definition write_slot :: "heap \<Rightarrow> assoc \<Rightarrow> slot \<Rightarrow> addr option \<Rightarrow> heap \<times> assoc" where
  "write_slot h t s p = (case s of
     TableSlot b \<Rightarrow> (h, set_bucket t b p)
   | NextSlot a \<Rightarrow> (h(a := (h a)\<lparr>h_next := p\<rparr>), t))"

partial_function (option) before_loop :: "heap \<Rightarrow> assoc \<Rightarrow> byte list \<Rightarrow> slot \<Rightarrow> slot option" where
  "before_loop h t key pos =
     (case read_slot h t pos of
        None \<Rightarrow> Some pos
      | Some a \<Rightarrow> if ikey (h a) \<noteq> key then before_loop h t key (NextSlot a) else Some pos)"

declare find_loop.simps [code] before_loop.simps [code]

definition hashitem_before :: "heap \<Rightarrow> assoc \<Rightarrow> byte list \<Rightarrow> u32 \<Rightarrow> slot res option" where
  "hashitem_before h t key hv =
     (let b = bucket_of t hv in
      if valid_bucket t b then map_option Inr (before_loop h t key (TableSlot b))
      else Some (Inl OutOfBounds))"

definition assoc_expand :: "bool \<Rightarrow> assoc \<Rightarrow> assoc" where
  "assoc_expand calloc_ok t =
     (let t = t\<lparr>old_hashtable := primary_hashtable t\<rparr> in
      if calloc_ok then
        let t = t\<lparr>primary_hashtable := replicate (unat (hashsize (hashpower t + 1))) None\<rparr>;
            t = t\<lparr>hashpower := hashpower t + 1, expanding := True, expand_bucket := 0\<rparr>
        in t\<lparr>hash_power_level := hashpower t,
             hash_bytes := hash_bytes t + ucast (hashsize (hashpower t)) * 8,
             hash_is_expanding := True\<rparr>
      else t\<lparr>primary_hashtable := old_hashtable t\<rparr>)"

text \<open>Whether the maintenance thread is signalled to expand.\<close>

definition assoc_start_expand :: "bool \<Rightarrow> assoc \<Rightarrow> u64 \<Rightarrow> bool" where
  "assoc_start_expand trylock t curr_items =
     (trylock \<and> curr_items > ucast (hashsize (hashpower t) * 3 div 2) \<and> hashpower t < HASHPOWER_MAX)"

definition assoc_insert :: "heap \<Rightarrow> assoc \<Rightarrow> addr \<Rightarrow> u32 \<Rightarrow> (heap \<times> assoc) res" where
  "assoc_insert h t it hv =
     (let b = bucket_of t hv in
      if valid_bucket t b then
        Inr (h(it := (h it)\<lparr>h_next := bucket_head t b\<rparr>), set_bucket t b (Some it))
      else Inl OutOfBounds)"

definition assoc_delete :: "heap \<Rightarrow> assoc \<Rightarrow> byte list \<Rightarrow> u32 \<Rightarrow> (heap \<times> assoc) res option" where
  "assoc_delete h t key hv =
     (case hashitem_before h t key hv of
        None \<Rightarrow> None
      | Some (Inl e) \<Rightarrow> Some (Inl e)
      | Some (Inr before) \<Rightarrow>
          (case read_slot h t before of
             Some a \<Rightarrow>
               let nxt = h_next (h a);
                   h = h(a := (h a)\<lparr>h_next := None\<rparr>)
               in Some (Inr (write_slot h t before nxt))
           | None \<Rightarrow> Some (Inl AssertFail)))"

text \<open>The loop of the maintenance thread that empties one bucket of the old table, and its body.\<close>

definition move_item :: "(byte list \<Rightarrow> u32) \<Rightarrow> heap \<Rightarrow> assoc \<Rightarrow> addr \<Rightarrow> (heap \<times> assoc) res" where
  "move_item hash h t it =
     (let b = Prim (unat (hash (ikey (h it)) AND hashmask (hashpower t))) in
      if valid_bucket t b then
        Inr (h(it := (h it)\<lparr>h_next := bucket_head t b\<rparr>), set_bucket t b (Some it))
      else Inl OutOfBounds)"

partial_function (option) move_loop ::
    "(byte list \<Rightarrow> u32) \<Rightarrow> heap \<times> assoc \<Rightarrow> addr option \<Rightarrow> (heap \<times> assoc) res option" where
  "move_loop hash st it =
     (case it of
        None \<Rightarrow> Some (Inr st)
      | Some a \<Rightarrow>
          (case move_item hash (fst st) (snd st) a of
             Inl e \<Rightarrow> Some (Inl e)
           | Inr st' \<Rightarrow> move_loop hash st' (h_next (fst st a))))"

text \<open>
  One round of the bulk move: nothing when the bucket is locked by a worker. The old table is freed with
  the last bucket.
\<close>

definition assoc_move_bucket :: "(byte list \<Rightarrow> u32) \<Rightarrow> bool \<Rightarrow> heap \<Rightarrow> assoc \<Rightarrow> (heap \<times> assoc) res option" where
  "assoc_move_bucket hash trylock h t =
     (if \<not> expanding t \<or> \<not> trylock then Some (Inr (h, t))
      else let b = Old (unat (expand_bucket t)) in
        if \<not> valid_bucket t b then Some (Inl OutOfBounds)
        else case move_loop hash (h, t) (bucket_head t b) of
            None \<Rightarrow> None
          | Some (Inl e) \<Rightarrow> Some (Inl e)
          | Some (Inr (h, t)) \<Rightarrow>
              let t = set_bucket t b None;
                  t = t\<lparr>expand_bucket := expand_bucket t + 1\<rparr>
              in Some (Inr (h,
                   if expand_bucket t = hashsize (hashpower t - 1) then
                     t\<lparr>expanding := False, old_hashtable := [],
                       hash_bytes := hash_bytes t - ucast (hashsize (hashpower t - 1)) * 8,
                       hash_is_expanding := False\<rparr>
                   else t)))"

text \<open>
  The iterator of the crawler, which holds the maintenance lock, so that no expansion starts under it. A call
  gives an item, or none between two buckets; the boolean tells whether there is more.
\<close>

record assoc_iterator =
  iter_bucket :: u32
  bucket_locked :: bool
  iter_it :: "addr option"
  iter_next :: "addr option"

definition assoc_get_iterator :: "bool \<Rightarrow> assoc_iterator option" where
  "assoc_get_iterator calloc_ok =
     (if calloc_ok then Some \<lparr>iter_bucket = 0, bucket_locked = False, iter_it = None, iter_next = None\<rparr> else None)"

definition assoc_iterate :: "heap \<Rightarrow> assoc \<Rightarrow> assoc_iterator \<Rightarrow> (assoc_iterator \<times> addr option \<times> bool) res" where
  "assoc_iterate h t iter =
     (if bucket_locked iter then
        (case iter_next iter of
           Some a \<Rightarrow> Inr (iter\<lparr>iter_it := Some a, iter_next := h_next (h a)\<rparr>, Some a, True)
         | None \<Rightarrow> Inr (iter\<lparr>iter_bucket := iter_bucket iter + 1, bucket_locked := False\<rparr>, None, True))
      else if iter_bucket iter \<noteq> hashsize (hashpower t) then
        if unat (iter_bucket iter) \<ge> length (primary_hashtable t) then Inl OutOfBounds
        else (case primary_hashtable t ! unat (iter_bucket iter) of
                Some a \<Rightarrow> Inr (iter\<lparr>bucket_locked := True, iter_it := Some a, iter_next := h_next (h a)\<rparr>, Some a, True)
              | None \<Rightarrow> Inr (iter\<lparr>bucket_locked := False, iter_it := None, iter_bucket := iter_bucket iter + 1\<rparr>, None, True))
      else Inr (iter, None, False))"

text \<open>The items the loop over the iterator sees.\<close>

partial_function (option) iterate_loop :: "heap \<Rightarrow> assoc \<Rightarrow> assoc_iterator \<times> addr list \<Rightarrow> addr list res option" where
  "iterate_loop h t st =
     (case assoc_iterate h t (fst st) of
        Inl e \<Rightarrow> Some (Inl e)
      | Inr r \<Rightarrow>
          if snd (snd r) then iterate_loop h t (fst r, snd st @ (case fst (snd r) of None \<Rightarrow> [] | Some a \<Rightarrow> [a]))
          else Some (Inr (snd st)))"

section \<open>Chains\<close>

fun chain :: "heap \<Rightarrow> addr option \<Rightarrow> addr list \<Rightarrow> bool" where
  "chain h p [] \<longleftrightarrow> p = None"
| "chain h p (a # as) \<longleftrightarrow> p = Some a \<and> chain h (h_next (h a)) as"

lemma chain_frame: "chain h p as \<Longrightarrow> (\<And>a. a \<in> set as \<Longrightarrow> h_next (h' a) = h_next (h a)) \<Longrightarrow> chain h' p as"
  by (induction as arbitrary: p) auto

lemma chain_upd: "chain h p as \<Longrightarrow> a \<notin> set as \<Longrightarrow> chain (h(a := x)) p as"
  by (erule chain_frame) auto


lemma find_loop_chain: "chain h p as \<Longrightarrow> find_loop h key p = Some (List.find (\<lambda>a. ikey (h a) = key) as)"
  by (induction as arbitrary: p; subst find_loop.simps) auto

text \<open>The slot before the first item with the key.\<close>

lemma before_loop_chain:
  assumes "read_slot h t pos = p" and "chain h p as"
  shows "\<exists>pos'. before_loop h t key pos = Some pos'
     \<and> pos' = (case takeWhile (\<lambda>a. ikey (h a) \<noteq> key) as of [] \<Rightarrow> pos | bs \<Rightarrow> NextSlot (last bs))
     \<and> chain h (read_slot h t pos') (dropWhile (\<lambda>a. ikey (h a) \<noteq> key) as)"
  using assms
proof (induction as arbitrary: p pos)
  case (Cons a as)
  show ?case
  proof (cases "ikey (h a) = key")
    case True
    then show ?thesis using Cons.prems by (subst before_loop.simps) auto
  next
    case False
    have "read_slot h t (NextSlot a) = h_next (h a)" by (simp add: read_slot_def)
    from Cons.IH [OF this] Cons.prems(2)
    obtain pos' where pos': "before_loop h t key (NextSlot a) = Some pos'"
      "pos' = (case takeWhile (\<lambda>a. ikey (h a) \<noteq> key) as of [] \<Rightarrow> NextSlot a | bs \<Rightarrow> NextSlot (last bs))"
      "chain h (read_slot h t pos') (dropWhile (\<lambda>a. ikey (h a) \<noteq> key) as)" by auto
    have "before_loop h t key pos = before_loop h t key (NextSlot a)"
      using Cons.prems False by (subst before_loop.simps) simp
    then show ?thesis using pos' False by (auto split: list.splits)
  qed
qed (subst before_loop.simps, simp)

section \<open>The map in the table\<close>

lemma unat_hashmask: "n < 32 \<Longrightarrow> unat (hv AND hashmask n) = unat hv mod 2 ^ n"
proof -
  assume "n < 32"
  have "hashmask n = mask n" by (simp add: hashmask_def hashsize_def mask_eq_exp_minus_1 push_bit_eq_mult)
  then have "hv AND hashmask n = take_bit n hv" by (simp add: take_bit_eq_mask)
  then have "unat (hv AND hashmask n) = take_bit n (unat hv)" by (simp only: unsigned_take_bit_eq)
  then show ?thesis by (simp add: take_bit_eq_mod)
qed

lemma unat_hashsize: "n < 32 \<Longrightarrow> unat (hashsize n) = 2 ^ n"
proof -
  assume "n < 32"
  then have "(2::nat) ^ n < 2 ^ 32" by (intro power_strict_increasing) simp_all
  moreover have "hashsize n = word_of_nat (2 ^ n)" by (simp add: hashsize_def push_bit_eq_mult)
  ultimately show ?thesis using unat_of_nat_eq [of "2 ^ n", where ?'a = 32] by simp
qed

text \<open>The bucket in terms of numbers.\<close>

lemma bucket_of_nat:
  assumes "hashpower t < 32"
  shows "bucket_of t hv = (if expanding t \<and> unat (expand_bucket t) \<le> unat hv mod 2 ^ (hashpower t - 1)
     then Old (unat hv mod 2 ^ (hashpower t - 1)) else Prim (unat hv mod 2 ^ hashpower t))"
proof -
  have "hashpower t - 1 < 32" using assms by simp
  then show ?thesis using assms by (simp add: bucket_of_def Let_def word_le_nat_alt unat_hashmask)
qed

text \<open>
  \<open>ch\<close> gives the items of each bucket in order. An item is in the bucket of its key, and no two items of a
  bucket have the same key.
\<close>

definition in_use :: "assoc \<Rightarrow> bucket \<Rightarrow> bool" where
  "in_use t b = (valid_bucket t b \<and> (case b of Old i \<Rightarrow> expanding t | Prim i \<Rightarrow> True))"

definition sizes_ok :: "assoc \<Rightarrow> bool" where
  "sizes_ok t \<longleftrightarrow> hashpower t < 32 \<and> length (primary_hashtable t) = 2 ^ hashpower t
     \<and> (expanding t \<longrightarrow> 0 < hashpower t \<and> length (old_hashtable t) = 2 ^ (hashpower t - 1)
          \<and> unat (expand_bucket t) < 2 ^ (hashpower t - 1))"

definition chains_ok :: "(byte list \<Rightarrow> u32) \<Rightarrow> heap \<Rightarrow> assoc \<Rightarrow> (bucket \<Rightarrow> addr list) \<Rightarrow> bool" where
  "chains_ok hash h t ch \<longleftrightarrow> sizes_ok t
     \<and> (\<forall>b. in_use t b \<longrightarrow> chain h (bucket_head t b) (ch b))
     \<and> (\<forall>b. \<forall>a \<in> set (ch b). bucket_of t (hash (ikey (h a))) = b)
     \<and> (\<forall>b. distinct (map (\<lambda>a. ikey (h a)) (ch b)))"

definition chains_map :: "(byte list \<Rightarrow> u32) \<Rightarrow> heap \<Rightarrow> assoc \<Rightarrow> (bucket \<Rightarrow> addr list) \<Rightarrow> byte list \<Rightarrow> addr option" where
  "chains_map hash h t ch key = List.find (\<lambda>a. ikey (h a) = key) (ch (bucket_of t (hash key)))"

definition assoc_rep :: "(byte list \<Rightarrow> u32) \<Rightarrow> heap \<Rightarrow> assoc \<Rightarrow> (byte list \<rightharpoonup> addr) \<Rightarrow> bool" where
  "assoc_rep hash h t m \<longleftrightarrow> (\<exists>ch. chains_ok hash h t ch \<and> m = chains_map hash h t ch)"

lemma bucket_of_in_use: "sizes_ok t \<Longrightarrow> in_use t (bucket_of t hv)"
  by (auto simp: sizes_ok_def bucket_of_nat in_use_def valid_bucket_def)

lemma in_use_valid: "in_use t b \<Longrightarrow> valid_bucket t b"
  by (simp add: in_use_def)

lemma find_SomeD: "List.find P xs = Some a \<Longrightarrow> a \<in> set xs \<and> P a"
  by (auto simp: find_Some_iff)

lemma find_unique: "distinct (map f xs) \<Longrightarrow> a \<in> set xs \<Longrightarrow> List.find (\<lambda>x. f x = f a) xs = Some a"
  by (induction xs) auto

lemma chains_mapD:
  assumes "chains_ok hash h t ch" and "chains_map hash h t ch key = Some a"
  shows "a \<in> set (ch (bucket_of t (hash key)))" and "ikey (h a) = key"
  using assms(2) find_SomeD by (fastforce simp: chains_map_def)+

lemma chains_mapI:
  assumes "chains_ok hash h t ch" and "a \<in> set (ch b)"
  shows "chains_map hash h t ch (ikey (h a)) = Some a"
proof -
  have "bucket_of t (hash (ikey (h a))) = b" "distinct (map (\<lambda>a. ikey (h a)) (ch b))"
    using assms by (auto simp: chains_ok_def)
  then show ?thesis using find_unique [of "\<lambda>a. ikey (h a)" "ch b" a] assms(2) by (simp add: chains_map_def)
qed

text \<open>The map is determined by the items in the chains.\<close>

lemma chains_map_eqI:
  assumes ok: "chains_ok hash h t ch" and ok': "chains_ok hash h' t' ch'"
    and items: "(\<Union>b. set (ch' b)) = (\<Union>b. set (ch b))"
    and keys: "\<And>a. ikey (h' a) = ikey (h a)"
  shows "chains_map hash h' t' ch' = chains_map hash h t ch"
proof
  fix key
  have "chains_map hash h' t' ch' key = Some a \<longleftrightarrow> chains_map hash h t ch key = Some a" for a
  proof
    assume "chains_map hash h' t' ch' key = Some a"
    then have "a \<in> (\<Union>b. set (ch b))" "ikey (h a) = key" using chains_mapD [OF ok'] items keys by fastforce+
    then show "chains_map hash h t ch key = Some a" using chains_mapI [OF ok] by blast
  next
    assume "chains_map hash h t ch key = Some a"
    then have "a \<in> (\<Union>b. set (ch' b))" "ikey (h' a) = key" using chains_mapD [OF ok] items keys by fastforce+
    then show "chains_map hash h' t' ch' key = Some a" using chains_mapI [OF ok'] by blast
  qed
  then show "chains_map hash h' t' ch' key = chains_map hash h t ch key" by (metis not_None_eq)
qed

lemma assoc_find_map:
  assumes "assoc_rep hash h t m"
  shows "assoc_find h t key (hash key) = Some (Inr (m key))"
proof -
  obtain ch where ch: "chains_ok hash h t ch" "m = chains_map hash h t ch" using assms by (auto simp: assoc_rep_def)
  have use: "in_use t (bucket_of t (hash key))" using ch(1) by (intro bucket_of_in_use) (simp add: chains_ok_def)
  then have "chain h (bucket_head t (bucket_of t (hash key))) (ch (bucket_of t (hash key)))"
    using ch(1) by (simp add: chains_ok_def)
  from find_loop_chain [OF this, of key] show ?thesis
    using in_use_valid [OF use] by (simp add: assoc_find_def Let_def ch(2) chains_map_def)
qed

section \<open>Insertion and deletion\<close>

text \<open>The operations change no field of an item but its place in the chain.\<close>

definition same_items :: "heap \<Rightarrow> heap \<Rightarrow> bool" where
  "same_items h h' \<longleftrightarrow> (\<forall>x. (h' x)\<lparr>h_next := None\<rparr> = (h x)\<lparr>h_next := None\<rparr>)"

lemma same_items_refl [simp]: "same_items h h"
  by (simp add: same_items_def)

lemma same_items_trans: "same_items h h' \<Longrightarrow> same_items h' h'' \<Longrightarrow> same_items h h''"
  by (simp add: same_items_def)

lemma same_items_upd: "same_items h (h(a := (h a)\<lparr>h_next := n\<rparr>))"
  by (simp add: same_items_def)

lemma same_items_key: "same_items h h' \<Longrightarrow> ikey (h' x) = ikey (h x)"
  unfolding same_items_def by (drule spec [of _ x], drule arg_cong [of _ _ ikey]) simp

lemma set_bucket_simps [simp]:
  "hashpower (set_bucket t b p) = hashpower t" "expanding (set_bucket t b p) = expanding t"
  "expand_bucket (set_bucket t b p) = expand_bucket t"
  "length (primary_hashtable (set_bucket t b p)) = length (primary_hashtable t)"
  "length (old_hashtable (set_bucket t b p)) = length (old_hashtable t)"
  by (simp_all add: set_bucket_def split: bucket.splits)

lemma set_bucket_same [simp]:
  "sizes_ok (set_bucket t b p) = sizes_ok t" "valid_bucket (set_bucket t b p) = valid_bucket t"
  "in_use (set_bucket t b p) = in_use t" "bucket_of (set_bucket t b p) = bucket_of t"
  by (auto simp: sizes_ok_def in_use_def bucket_of_def Let_def valid_bucket_def fun_eq_iff split: bucket.splits)

lemma set_bucket_head:
  "valid_bucket t b \<Longrightarrow> bucket_head (set_bucket t b p) b' = (if b' = b then p else bucket_head t b')"
  by (auto simp: bucket_head_def set_bucket_def valid_bucket_def split: bucket.splits)

lemma assoc_insert_map:
  assumes rep: "assoc_rep hash h t m" and new: "m (ikey (h a)) = None" "a \<notin> ran m"
  shows "\<exists>h' t'. assoc_insert h t a (hash (ikey (h a))) = Inr (h', t')
     \<and> assoc_rep hash h' t' (m(ikey (h a) \<mapsto> a)) \<and> same_items h h'"
proof -
  obtain ch where ch: "chains_ok hash h t ch" "m = chains_map hash h t ch" using rep by (auto simp: assoc_rep_def)
  let ?b = "bucket_of t (hash (ikey (h a)))"
  let ?h = "h(a := (h a)\<lparr>h_next := bucket_head t ?b\<rparr>)" and ?t = "set_bucket t ?b (Some a)" and ?ch = "ch(?b := a # ch ?b)"
  have use: "in_use t ?b" using ch(1) by (intro bucket_of_in_use) (simp add: chains_ok_def)
  have fresh: "a \<notin> set (ch b)" for b using chains_mapI [OF ch(1), of a b] new(2) ch(2) by (auto simp: ran_def)
  have keys: "ikey (?h x) = ikey (h x)" for x by simp
  have nokey: "ikey (h a) \<notin> (\<lambda>a. ikey (h a)) ` set (ch ?b)"
    using new(1) ch(2) by (auto simp: chains_map_def find_None_iff)
  have ok: "chains_ok hash ?h ?t ?ch"
  proof -
    have "chain ?h (bucket_head ?t b) (?ch b)" if "in_use t b" for b
      using ch(1) that fresh in_use_valid [OF use]
      by (auto simp: chains_ok_def set_bucket_head chain_upd)
    then show ?thesis using ch(1) nokey fresh unfolding chains_ok_def keys by (auto simp: image_iff)
  qed
  have "chains_map hash ?h ?t ?ch = m(ikey (h a) \<mapsto> a)"
  proof
    fix key
    show "chains_map hash ?h ?t ?ch key = (m(ikey (h a) \<mapsto> a)) key"
      unfolding chains_map_def ch(2) keys by (auto simp: fun_upd_def)
  qed
  then have "assoc_rep hash ?h ?t (m(ikey (h a) \<mapsto> a))" using ok by (auto simp: assoc_rep_def)
  then show ?thesis using in_use_valid [OF use] by (auto simp: assoc_insert_def Let_def intro: same_items_upd)
qed


lemma unlink_chain:
  assumes "chain h p (ys @ a # zs)" and "distinct (ys @ a # zs)"
  defines "h1 \<equiv> h(a := (h a)\<lparr>h_next := None\<rparr>)"
  shows "ys = [] \<Longrightarrow> chain h1 (h_next (h a)) zs"
    and "ys \<noteq> [] \<Longrightarrow> chain (h1(last ys := (h1 (last ys))\<lparr>h_next := h_next (h a)\<rparr>)) p (ys @ zs)"
proof -
  show "chain h1 (h_next (h a)) zs" if "ys = []"
    using assms that by (auto simp: h1_def intro: chain_upd)
  show "chain (h1(last ys := (h1 (last ys))\<lparr>h_next := h_next (h a)\<rparr>)) p (ys @ zs)" if "ys \<noteq> []"
    using that assms(1,2) unfolding h1_def
  proof (induction ys arbitrary: p)
    case (Cons y ys)
    show ?case
    proof (cases "ys = []")
      case True
      then show ?thesis using Cons.prems by (auto elim!: chain_frame)
    next
      case False
      moreover have "chain h (h_next (h y)) (ys @ a # zs)" "distinct (ys @ a # zs)" "y \<noteq> a" "y \<noteq> last ys"
        using Cons.prems False by auto
      ultimately show ?thesis using Cons.IH [of "h_next (h y)"] Cons.prems by simp
    qed
  qed simp
qed

lemma takeWhile_first:
  assumes "List.find P xs = Some a"
  shows "dropWhile (\<lambda>x. \<not> P x) xs = a # tl (dropWhile (\<lambda>x. \<not> P x) xs)"
  using assms by (induction xs) (auto split: if_splits)


lemma assoc_delete_map:
  assumes rep: "assoc_rep hash h t m" and found: "m key = Some a"
  shows "\<exists>h' t'. assoc_delete h t key (hash key) = Some (Inr (h', t'))
     \<and> assoc_rep hash h' t' (m(key := None)) \<and> same_items h h'"
proof -
  obtain ch where ch: "chains_ok hash h t ch" "m = chains_map hash h t ch" using rep by (auto simp: assoc_rep_def)
  let ?b = "bucket_of t (hash key)"
  let ?P = "\<lambda>a. ikey (h a) = key"
  define ys zs where "ys = takeWhile (\<lambda>a. \<not> ?P a) (ch ?b)" and "zs = tl (dropWhile (\<lambda>a. \<not> ?P a) (ch ?b))"
  have use: "in_use t ?b" using ch(1) by (intro bucket_of_in_use) (simp add: chains_ok_def)
  have c: "chain h (bucket_head t ?b) (ch ?b)" using ch(1) use by (simp add: chains_ok_def)
  have dw: "dropWhile (\<lambda>a. \<not> ?P a) (ch ?b) = a # zs"
    unfolding zs_def using found ch(2) by (intro takeWhile_first) (simp add: chains_map_def)
  then have split: "ch ?b = ys @ a # zs" unfolding ys_def by (metis takeWhile_dropWhile_id)
  have dk: "distinct (map (\<lambda>a. ikey (h a)) (ys @ a # zs))" using ch(1) split by (metis chains_ok_def)
  then have d: "distinct (ys @ a # zs)" by (rule distinct_map [THEN iffD1, THEN conjunct1])
  obtain pos where pos: "before_loop h t key (TableSlot ?b) = Some pos"
    "pos = (case ys of [] \<Rightarrow> TableSlot ?b | bs \<Rightarrow> NextSlot (last bs))" "chain h (read_slot h t pos) (a # zs)"
    using before_loop_chain [of h t "TableSlot ?b" _ "ch ?b" key] c dw by (auto simp: read_slot_def ys_def)
  define h1 where "h1 = h(a := (h a)\<lparr>h_next := None\<rparr>)"
  obtain h' t' where w: "write_slot h1 t pos (h_next (h a)) = (h', t')" by fastforce
  have del: "assoc_delete h t key (hash key) = Some (Inr (h', t'))"
    using pos in_use_valid [OF use] w by (simp add: assoc_delete_def hashitem_before_def Let_def h1_def)
  have other: "x \<notin> set (ch b)" if "x \<in> set (ch ?b)" "b \<noteq> ?b" for x b
    using ch(1) that unfolding chains_ok_def by metis
  have eff: "chain h' (bucket_head t' ?b) (ys @ zs) \<and> (\<forall>b. b \<noteq> ?b \<longrightarrow> bucket_head t' b = bucket_head t b)
      \<and> sizes_ok t' = sizes_ok t \<and> in_use t' = in_use t \<and> bucket_of t' = bucket_of t
      \<and> (\<forall>x. x \<notin> set (ch ?b) \<longrightarrow> h' x = h x) \<and> same_items h h'"
  proof (cases "ys = []")
    case True
    then have "h' = h1" "t' = set_bucket t ?b (h_next (h a))" using w pos(2) by (auto simp: write_slot_def)
    then show ?thesis using True split unlink_chain(1) [of h _ ys a zs] c d in_use_valid [OF use]
      by (auto simp: set_bucket_head h1_def intro: same_items_upd)
  next
    case False
    then have "pos = NextSlot (last ys)" using pos(2) by (auto split: list.splits)
    then have "h' = h1(last ys := (h1 (last ys))\<lparr>h_next := h_next (h a)\<rparr>)" "t' = t"
      using w by (auto simp: write_slot_def)
    then show ?thesis using False split unlink_chain(2) [of h _ ys a zs] c d by (auto simp: h1_def same_items_def)
  qed
  then have keys: "ikey (h' x) = ikey (h x)" for x by (simp add: same_items_key)
  have chn: "chain h' (bucket_head t' b) ((ch(?b := ys @ zs)) b)" if "in_use t b" for b
  proof (cases "b = ?b")
    case False
    have "chain h (bucket_head t b) (ch b)" using ch(1) that unfolding chains_ok_def by blast
    moreover have "h' x = h x" if "x \<in> set (ch b)" for x using eff other False that by blast
    ultimately have "chain h' (bucket_head t b) (ch b)" by (elim chain_frame) simp
    then show ?thesis using False eff by simp
  qed (use eff in simp)
  have ok: "chains_ok hash h' t' (ch(?b := ys @ zs))"
    unfolding chains_ok_def keys
  proof (intro conjI allI impI ballI)
    show "sizes_ok t'" using ch(1) eff unfolding chains_ok_def by blast
    show "chain h' (bucket_head t' b) ((ch(?b := ys @ zs)) b)" if "in_use t' b" for b using chn that eff by simp
    show "bucket_of t' (hash (ikey (h x))) = b" if "x \<in> set ((ch(?b := ys @ zs)) b)" for x b
    proof -
      have "x \<in> set (ch b)" using that split by (cases "b = ?b") auto
      then have "bucket_of t (hash (ikey (h x))) = b" using ch(1) unfolding chains_ok_def by blast
      then show ?thesis using eff by simp
    qed
    show "distinct (map (\<lambda>a. ikey (h a)) ((ch(?b := ys @ zs)) b))" for b
      using ch(1) dk unfolding chains_ok_def by (cases "b = ?b") auto
  qed
  have ka: "ikey (h a) = key" using found chains_mapD(2) [OF ch(1)] ch(2) by blast
  have nk: "ikey (h x) \<noteq> key" if "x \<in> set (ys @ zs)" for x using dk that ka by (auto simp: image_iff)
  have bo: "bucket_of t' = bucket_of t" using eff by blast
  have "chains_map hash h' t' (ch(?b := ys @ zs)) = m(key := None)"
  proof
    fix k
    show "chains_map hash h' t' (ch(?b := ys @ zs)) k = (m(key := None)) k"
    proof (cases "k = key")
      case True
      then show ?thesis using nk by (auto simp: chains_map_def keys bo find_None_iff)
    next
      case False
      then have "List.find (\<lambda>x. ikey (h x) = k) (ys @ a # zs) = List.find (\<lambda>x. ikey (h x) = k) (ys @ zs)"
        using ka by (induction ys) auto
      then show ?thesis using False split by (auto simp: chains_map_def keys bo ch(2))
    qed
  qed
  then have "assoc_rep hash h' t' (m(key := None))" using ok unfolding assoc_rep_def by metis
  then show ?thesis using del eff by blast
qed

section \<open>Growing the table\<close>

lemma assoc_expand_map:
  assumes rep: "assoc_rep hash h t m" and idle: "\<not> expanding t" and room: "hashpower t + 1 < 32"
  shows "assoc_rep hash h (assoc_expand calloc_ok t) m"
proof -
  obtain ch where ch: "chains_ok hash h t ch" "m = chains_map hash h t ch" using rep by (auto simp: assoc_rep_def)
  show ?thesis
  proof (cases calloc_ok)
    case False
    have "sizes_ok (assoc_expand calloc_ok t) = sizes_ok t" "bucket_of (assoc_expand calloc_ok t) = bucket_of t"
      "in_use t b \<Longrightarrow> bucket_head (assoc_expand calloc_ok t) b = bucket_head t b"
      "in_use (assoc_expand calloc_ok t) b = in_use t b" for b
      using False idle by (auto simp: assoc_expand_def sizes_ok_def bucket_of_def Let_def in_use_def valid_bucket_def bucket_head_def fun_eq_iff split: bucket.splits)
    then show ?thesis using ch by (auto simp: assoc_rep_def chains_ok_def chains_map_def fun_eq_iff)
  next
    case True
    let ?t = "assoc_expand calloc_ok t"
    define ch' where "ch' b = (case b of Old i \<Rightarrow> ch (Prim i) | Prim i \<Rightarrow> [])" for b
    have t: "hashpower ?t = hashpower t + 1" "expanding ?t" "expand_bucket ?t = 0" "old_hashtable ?t = primary_hashtable t"
      "primary_hashtable ?t = replicate (2 ^ (hashpower t + 1)) None"
      using True room unat_hashsize [of "hashpower t + 1"] by (simp_all add: assoc_expand_def Let_def)
    have b: "bucket_of ?t hv = Old (unat hv mod 2 ^ hashpower t)" "bucket_of t hv = Prim (unat hv mod 2 ^ hashpower t)" for hv
      using room t idle by (simp_all add: bucket_of_nat)
    have c: "chain h (bucket_head t (Prim i)) (ch (Prim i))" if "i < length (primary_hashtable t)" for i
      using ch(1) that by (auto simp: chains_ok_def in_use_def valid_bucket_def)
    have "chains_ok hash h ?t ch'"
      using ch(1) t room c unfolding chains_ok_def b
      by (auto simp: sizes_ok_def in_use_def valid_bucket_def bucket_head_def ch'_def split: bucket.splits)
    moreover have "chains_map hash h ?t ch' = m" unfolding ch(2) chains_map_def b ch'_def by simp
    ultimately show ?thesis by (auto simp: assoc_rep_def)
  qed
qed

text \<open>The loop over one old bucket: every item goes to the front of its new bucket.\<close>

lemma move_loop_chain:
  assumes "chain h p as" and "distinct as" and "\<And>i. set as \<inter> set (c i) = {}"
    and "\<And>i. i < 2 ^ hashpower t \<Longrightarrow> chain h (bucket_head t (Prim i)) (c i)"
    and "hashpower t < 32" and "length (primary_hashtable t) = 2 ^ hashpower t"
  shows "\<exists>h' t'. move_loop hash (h, t) p = Some (Inr (h', t')) \<and> same_items h h' \<and> (\<forall>x. x \<notin> set as \<longrightarrow> h' x = h x)
     \<and> t' = t\<lparr>primary_hashtable := primary_hashtable t'\<rparr> \<and> length (primary_hashtable t') = length (primary_hashtable t)
     \<and> (\<forall>i < 2 ^ hashpower t. chain h' (bucket_head t' (Prim i)) (rev (filter (\<lambda>a. unat (hash (ikey (h a))) mod 2 ^ hashpower t = i) as) @ c i))"
  using assms
proof (induction as arbitrary: h t p c)
  case Nil
  then show ?case by (subst move_loop.simps) auto
next
  case (Cons a as)
  let ?i = "unat (hash (ikey (h a))) mod 2 ^ hashpower t"
  let ?h = "h(a := (h a)\<lparr>h_next := bucket_head t (Prim ?i)\<rparr>)" and ?t = "set_bucket t (Prim ?i) (Some a)" and ?c = "c(?i := a # c ?i)"
  have v: "valid_bucket t (Prim ?i)" using Cons.prems(6) by (simp add: valid_bucket_def)
  have mv: "move_item hash h t a = Inr (?h, ?t)"
    using v Cons.prems(5) by (simp add: move_item_def Let_def unat_hashmask)
  have keys: "ikey (?h x) = ikey (h x)" for x by simp
  have cs: "chain ?h (bucket_head ?t (Prim i)) (?c i)" if "i < 2 ^ hashpower t" for i
    using Cons.prems(3) [of i] Cons.prems(4) [OF that] v by (auto simp: set_bucket_head intro!: chain_upd)
  have "\<exists>h' t'. move_loop hash (?h, ?t) (h_next (h a)) = Some (Inr (h', t')) \<and> same_items ?h h' \<and> (\<forall>x. x \<notin> set as \<longrightarrow> h' x = ?h x)
     \<and> t' = ?t\<lparr>primary_hashtable := primary_hashtable t'\<rparr> \<and> length (primary_hashtable t') = length (primary_hashtable ?t)
     \<and> (\<forall>i < 2 ^ hashpower ?t. chain h' (bucket_head t' (Prim i))
          (rev (filter (\<lambda>x. unat (hash (ikey (?h x))) mod 2 ^ hashpower ?t = i) as) @ ?c i))"
  proof (rule Cons.IH)
    show "chain ?h (h_next (h a)) as" using Cons.prems(1,2) by (auto intro: chain_upd)
    show "set as \<inter> set (?c i) = {}" for i using Cons.prems(2,3) by auto
    show "chain ?h (bucket_head ?t (Prim i)) (?c i)" if "i < 2 ^ hashpower ?t" for i using cs that by simp
  qed (use Cons.prems in simp_all)
  then obtain h' t' where IH: "move_loop hash (?h, ?t) (h_next (h a)) = Some (Inr (h', t'))" "same_items ?h h'"
    "\<forall>x. x \<notin> set as \<longrightarrow> h' x = ?h x" "t' = ?t\<lparr>primary_hashtable := primary_hashtable t'\<rparr>"
    "length (primary_hashtable t') = length (primary_hashtable ?t)"
    "\<forall>i < 2 ^ hashpower t. chain h' (bucket_head t' (Prim i)) (rev (filter (\<lambda>x. unat (hash (ikey (h x))) mod 2 ^ hashpower t = i) as) @ ?c i)"
    by (simp only: keys set_bucket_simps) blast
  have "move_loop hash (h, t) p = Some (Inr (h', t'))"
    using Cons.prems(1) mv IH(1) by (subst move_loop.simps) simp
  moreover have "same_items h h'" using same_items_trans [OF same_items_upd IH(2)] .
  moreover have "t' = t\<lparr>primary_hashtable := primary_hashtable t'\<rparr>" using IH(4) by (simp add: set_bucket_def)
  moreover have "\<forall>i < 2 ^ hashpower t. chain h' (bucket_head t' (Prim i))
      (rev (filter (\<lambda>x. unat (hash (ikey (h x))) mod 2 ^ hashpower t = i) (a # as)) @ c i)" using IH(6) by auto
  ultimately show ?case using IH(3,5) by auto
qed

text \<open>
  The state while one old bucket is moved: the items of bucket \<open>e\<close> go to the front of their new buckets.
\<close>

definition moved_chains :: "(byte list \<Rightarrow> u32) \<Rightarrow> heap \<Rightarrow> assoc \<Rightarrow> (bucket \<Rightarrow> addr list) \<Rightarrow> bucket \<Rightarrow> addr list" where
  "moved_chains hash h t ch b =
     (let e = unat (expand_bucket t) in case b of
        Old i \<Rightarrow> if i = e then [] else ch (Old i)
      | Prim i \<Rightarrow> rev (filter (\<lambda>a. unat (hash (ikey (h a))) mod 2 ^ hashpower t = i) (ch (Old e))) @ ch (Prim i))"

definition move_done :: "assoc \<Rightarrow> assoc \<Rightarrow> assoc" where
  "move_done t t' =
     (let t1 = (set_bucket t' (Old (unat (expand_bucket t))) None)\<lparr>expand_bucket := expand_bucket t + 1\<rparr> in
      if expand_bucket t1 = hashsize (hashpower t - 1) then
        t1\<lparr>expanding := False, old_hashtable := [], hash_bytes := hash_bytes t1 - ucast (hashsize (hashpower t - 1)) * 8,
           hash_is_expanding := False\<rparr>
      else t1)"

lemma chains_home: "chains_ok hash h t ch \<Longrightarrow> a \<in> set (ch b) \<Longrightarrow> bucket_of t (hash (ikey (h a))) = b"
  unfolding chains_ok_def by blast

lemma chains_distinct: "chains_ok hash h t ch \<Longrightarrow> distinct (map (\<lambda>a. ikey (h a)) (ch b))"
  unfolding chains_ok_def by blast

lemma chains_chain: "chains_ok hash h t ch \<Longrightarrow> in_use t b \<Longrightarrow> chain h (bucket_head t b) (ch b)"
  unfolding chains_ok_def by blast

lemma expanding_sizes:
  assumes "chains_ok hash h t ch" and "expanding t"
  shows "hashpower t < 32" "0 < hashpower t" "length (primary_hashtable t) = 2 ^ hashpower t"
    "length (old_hashtable t) = 2 ^ (hashpower t - 1)" "unat (expand_bucket t) < 2 ^ (hashpower t - 1)"
  using assms by (auto simp: chains_ok_def sizes_ok_def)

lemma expanding_in_use:
  assumes "chains_ok hash h t ch" and "expanding t"
  shows "in_use t (Old i) = (i < 2 ^ (hashpower t - 1))" and "in_use t (Prim i) = (i < 2 ^ hashpower t)"
  using expanding_sizes [OF assms] assms(2) by (simp_all add: in_use_def valid_bucket_def)

lemma expanding_bucket_of:
  assumes "chains_ok hash h t ch" and "expanding t"
  shows "bucket_of t hv = (if unat (expand_bucket t) \<le> unat hv mod 2 ^ (hashpower t - 1)
     then Old (unat hv mod 2 ^ (hashpower t - 1)) else Prim (unat hv mod 2 ^ hashpower t))"
  using expanding_sizes(1) [OF assms] assms(2) by (simp add: bucket_of_nat)

text \<open>The fields of the table after the move.\<close>

lemma move_done_fields:
  assumes "chains_ok hash h t ch" and "expanding t" and "t' = t\<lparr>primary_hashtable := p\<rparr>"
  defines "e \<equiv> unat (expand_bucket t)" and "n \<equiv> hashpower t"
  shows "unat (expand_bucket (move_done t t')) = e + 1" and "hashpower (move_done t t') = n"
    and "expanding (move_done t t') = (e + 1 \<noteq> 2 ^ (n - 1))" and "primary_hashtable (move_done t t') = p"
    and "e + 1 \<noteq> 2 ^ (n - 1) \<Longrightarrow> old_hashtable (move_done t t') = (old_hashtable t)[e := None]"
proof -
  note sz = expanding_sizes [OF assms(1,2), folded e_def n_def]
  have "(2::nat) ^ (n - 1) \<le> 2 ^ 31" using sz(1) by (intro power_increasing) simp_all
  then have e1: "unat (expand_bucket t + 1) = e + 1"
    using sz(5) unfolding e_def by (subst unat_add_no_wrap) simp_all
  have fin: "expand_bucket t + 1 = hashsize (n - 1) \<longleftrightarrow> e + 1 = 2 ^ (n - 1)"
    using e1 unat_hashsize [of "n - 1"] sz(1) by (simp add: word_unat_eq_iff)
  show "unat (expand_bucket (move_done t t')) = e + 1" "hashpower (move_done t t') = n"
    "expanding (move_done t t') = (e + 1 \<noteq> 2 ^ (n - 1))" "primary_hashtable (move_done t t') = p"
    "e + 1 \<noteq> 2 ^ (n - 1) \<Longrightarrow> old_hashtable (move_done t t') = (old_hashtable t)[e := None]"
    using assms(2) e1 fin by (simp_all add: move_done_def Let_def assms(3) set_bucket_def flip: e_def n_def)
qed

lemma move_done_bucket_of:
  assumes "chains_ok hash h t ch" and "expanding t" and "t' = t\<lparr>primary_hashtable := p\<rparr>"
  shows "bucket_of (move_done t t') hv = (if unat (expand_bucket t) + 1 \<le> unat hv mod 2 ^ (hashpower t - 1)
     then Old (unat hv mod 2 ^ (hashpower t - 1)) else Prim (unat hv mod 2 ^ hashpower t))"
proof -
  have "\<not> 2 ^ (hashpower t - 1) \<le> unat hv mod 2 ^ (hashpower t - 1)" by (simp add: not_le)
  then show ?thesis using expanding_sizes(1) [OF assms(1,2)]
    by (cases "unat (expand_bucket t) + 1 = 2 ^ (hashpower t - 1)") (simp_all add: bucket_of_nat move_done_fields [OF assms])
qed

lemma moved_chains_home:
  assumes ok: "chains_ok hash h t ch" and ex: "expanding t" and t': "t' = t\<lparr>primary_hashtable := p\<rparr>"
    and a: "a \<in> set (moved_chains hash h t ch b)"
  shows "bucket_of (move_done t t') (hash (ikey (h a))) = b"
proof (cases b)
  case (Old i)
  then have "a \<in> set (ch (Old i))" "i \<noteq> unat (expand_bucket t)"
    using a by (auto simp: moved_chains_def Let_def split: if_splits)
  then show ?thesis using chains_home [OF ok, of a "Old i"] Old
    by (auto simp: expanding_bucket_of [OF ok ex] move_done_bucket_of [OF ok ex t'] split: if_splits)
next
  case (Prim i)
  then consider "a \<in> set (ch (Prim i))" | "a \<in> set (ch (Old (unat (expand_bucket t))))" "unat (hash (ikey (h a))) mod 2 ^ hashpower t = i"
    using a by (auto simp: moved_chains_def Let_def)
  then show ?thesis
  proof cases
    case 1
    then show ?thesis using chains_home [OF ok, of a "Prim i"] Prim
      by (auto simp: expanding_bucket_of [OF ok ex] move_done_bucket_of [OF ok ex t'] split: if_splits)
  next
    case 2
    then show ?thesis using chains_home [OF ok, of a "Old (unat (expand_bucket t))"] Prim
      by (auto simp: expanding_bucket_of [OF ok ex] move_done_bucket_of [OF ok ex t'] split: if_splits)
  qed
qed

lemma moved_chains_distinct:
  assumes ok: "chains_ok hash h t ch"
  shows "distinct (map (\<lambda>a. ikey (h a)) (moved_chains hash h t ch b))"
proof -
  note d = chains_distinct [OF ok]
  have "ikey (h x) \<noteq> ikey (h y)" if "x \<in> set (ch (Old e))" "y \<in> set (ch (Prim i))" for x y e i
    using chains_home [OF ok that(1)] chains_home [OF ok that(2)] by auto
  then show ?thesis using d by (auto simp: moved_chains_def Let_def distinct_map_filter simp flip: rev_map split: bucket.splits)
qed

lemma moved_chains_items: "(\<Union>b. set (moved_chains hash h t ch b)) = (\<Union>b. set (ch b))"
proof (intro equalityI subsetI)
  fix x assume "x \<in> (\<Union>b. set (moved_chains hash h t ch b))"
  then obtain b where "x \<in> set (moved_chains hash h t ch b)" by blast
  then have "\<exists>b. x \<in> set (ch b)" by (cases b) (auto simp: moved_chains_def Let_def split: if_splits)
  then show "x \<in> (\<Union>b. set (ch b))" by blast
next
  let ?e = "unat (expand_bucket t)"
  fix x assume "x \<in> (\<Union>b. set (ch b))"
  then obtain b where x: "x \<in> set (ch b)" by blast
  have "x \<in> set (moved_chains hash h t ch (if b = Old ?e then Prim (unat (hash (ikey (h x))) mod 2 ^ hashpower t) else b))"
    using x by (auto simp: moved_chains_def Let_def split: bucket.splits)
  then show "x \<in> (\<Union>b. set (moved_chains hash h t ch b))" by blast
qed

text \<open>One round of the move keeps the map.\<close>

lemma assoc_move_map:
  assumes rep: "assoc_rep hash h t m"
  shows "\<exists>h' t'. assoc_move_bucket hash trylock h t = Some (Inr (h', t')) \<and> assoc_rep hash h' t' m \<and> same_items h h'
     \<and> hashpower t' = hashpower t
     \<and> (expanding t \<and> trylock \<longrightarrow> (if unat (expand_bucket t) + 1 = 2 ^ (hashpower t - 1) then \<not> expanding t'
          else expanding t' \<and> unat (expand_bucket t') = unat (expand_bucket t) + 1))"
proof (cases "expanding t \<and> trylock")
  case True
  obtain ch where ch: "chains_ok hash h t ch" "m = chains_map hash h t ch" using rep by (auto simp: assoc_rep_def)
  let ?e = "unat (expand_bucket t)" and ?n = "hashpower t"
  note ex = conjunct1 [OF True] and sz = expanding_sizes [OF ch(1) conjunct1 [OF True]]
  let ?as = "ch (Old ?e)"
  have d: "distinct ?as" using chains_distinct [OF ch(1)] by (auto simp: distinct_map)
  have disj: "set ?as \<inter> set (ch b) = {}" if "b \<noteq> Old ?e" for b using chains_home [OF ch(1)] that by blast
  obtain h' t' where mv: "move_loop hash (h, t) (bucket_head t (Old ?e)) = Some (Inr (h', t'))" "same_items h h'"
      "\<forall>x. x \<notin> set ?as \<longrightarrow> h' x = h x" "t' = t\<lparr>primary_hashtable := primary_hashtable t'\<rparr>"
      "length (primary_hashtable t') = 2 ^ ?n"
      "\<forall>i < 2 ^ ?n. chain h' (bucket_head t' (Prim i)) (rev (filter (\<lambda>a. unat (hash (ikey (h a))) mod 2 ^ ?n = i) ?as) @ ch (Prim i))"
    using move_loop_chain [of h "bucket_head t (Old ?e)" ?as "\<lambda>i. ch (Prim i)" t hash] chains_chain [OF ch(1)]
      expanding_in_use [OF ch(1) ex] d disj sz by auto
  note fields = move_done_fields [OF ch(1) ex mv(4)]
  have "assoc_move_bucket hash trylock h t = Some (Inr (h', move_done t t'))"
  proof -
    have "hashpower t' = ?n" "expand_bucket t' = expand_bucket t" by (subst mv(4), simp)+
    then show ?thesis using True mv(1) sz by (simp add: assoc_move_bucket_def Let_def valid_bucket_def move_done_def)
  qed
  moreover have ok: "chains_ok hash h' (move_done t t') (moved_chains hash h t ch)"
    unfolding chains_ok_def same_items_key [OF mv(2)]
  proof (intro conjI allI impI ballI)
    show "sizes_ok (move_done t t')" using sz mv(5) by (auto simp: sizes_ok_def fields)
    show "chain h' (bucket_head (move_done t t') b) (moved_chains hash h t ch b)" if "in_use (move_done t t') b" for b
    proof (cases b)
      case (Old i)
      then have i: "i < 2 ^ (?n - 1)" "?e + 1 \<noteq> 2 ^ (?n - 1)" using that sz(4) by (auto simp: in_use_def valid_bucket_def fields)
      have "chain h' (bucket_head t (Old i)) (ch (Old i))" if "i \<noteq> ?e"
      proof (rule chain_frame)
        show "chain h (bucket_head t (Old i)) (ch (Old i))"
          using chains_chain [OF ch(1)] expanding_in_use(1) [OF ch(1) ex] i(1) by blast
        show "h_next (h' x) = h_next (h x)" if "x \<in> set (ch (Old i))" for x
          using mv(3) disj [of "Old i"] \<open>i \<noteq> ?e\<close> that by auto
      qed
      then show ?thesis using Old i sz(4) by (auto simp: moved_chains_def Let_def bucket_head_def fields)
    next
      case (Prim i)
      then show ?thesis using that mv(5,6) by (auto simp: in_use_def valid_bucket_def moved_chains_def Let_def bucket_head_def fields)
    qed
  qed (use moved_chains_home [OF ch(1) ex mv(4)] moved_chains_distinct [OF ch(1)] in auto)
  moreover have "chains_map hash h' (move_done t t') (moved_chains hash h t ch) = m"
    unfolding ch(2) by (rule chains_map_eqI [OF ch(1) ok moved_chains_items]) (rule same_items_key [OF mv(2)])
  ultimately show ?thesis using mv(2) fields(1,2,3) unfolding assoc_rep_def by (intro exI [of _ h'] exI [of _ "move_done t t'"]) auto
qed (use rep in \<open>auto simp: assoc_move_bucket_def\<close>)

section \<open>The table as a map\<close>

text \<open>
  The contract of the table towards the item layer: \<open>rep\<close> relates a table to the map it holds, an insertion
  needs a new key, a deletion an existing one.
\<close>

locale item_table =
  fixes rep :: "heap \<Rightarrow> 't \<Rightarrow> (byte list \<rightharpoonup> addr) \<Rightarrow> bool"
    and find :: "heap \<Rightarrow> 't \<Rightarrow> byte list \<Rightarrow> addr option res option"
    and insert :: "heap \<Rightarrow> 't \<Rightarrow> addr \<Rightarrow> (heap \<times> 't) res"
    and delete :: "heap \<Rightarrow> 't \<Rightarrow> byte list \<Rightarrow> (heap \<times> 't) res option"
  assumes find_rep: "rep h t m \<Longrightarrow> find h t key = Some (Inr (m key))"
    and insert_rep: "rep h t m \<Longrightarrow> m (ikey (h a)) = None \<Longrightarrow> a \<notin> ran m \<Longrightarrow>
      \<exists>h' t'. insert h t a = Inr (h', t') \<and> rep h' t' (m(ikey (h a) \<mapsto> a)) \<and> same_items h h'"
    and delete_rep: "rep h t m \<Longrightarrow> m key = Some a \<Longrightarrow>
      \<exists>h' t'. delete h t key = Some (Inr (h', t')) \<and> rep h' t' (m(key := None)) \<and> same_items h h'"
begin

text \<open>Replacing the item of a key, as a store over an existing key does.\<close>

lemma replace_rep:
  assumes "rep h t m" and "m (ikey (h new)) = Some old" and "new \<notin> ran m"
  shows "\<exists>h1 t1 h2 t2. delete h t (ikey (h new)) = Some (Inr (h1, t1)) \<and> insert h1 t1 new = Inr (h2, t2)
     \<and> find h2 t2 (ikey (h new)) = Some (Inr (Some new)) \<and> rep h2 t2 (m(ikey (h new) \<mapsto> new)) \<and> same_items h h2"
proof -
  obtain h1 t1 where 1: "delete h t (ikey (h new)) = Some (Inr (h1, t1))" "rep h1 t1 (m(ikey (h new) := None))" "same_items h h1"
    using delete_rep [OF assms(1,2)] by blast
  have k: "ikey (h1 new) = ikey (h new)" by (rule same_items_key [OF 1(3)])
  have "new \<notin> ran (m(ikey (h new) := None))" using assms(3) by (auto simp: ran_def)
  then obtain h2 t2 where 2: "insert h1 t1 new = Inr (h2, t2)" "rep h2 t2 (m(ikey (h new) := None, ikey (h new) \<mapsto> new))" "same_items h1 h2"
    using insert_rep [OF 1(2), of new] unfolding k by auto
  then have "rep h2 t2 (m(ikey (h new) \<mapsto> new))" by simp
  then show ?thesis using 1 2 find_rep same_items_trans [OF 1(3) 2(3)] by fastforce
qed

end

interpretation table: item_table "assoc_rep hash" "\<lambda>h t key. assoc_find h t key (hash key)"
    "\<lambda>h t a. assoc_insert h t a (hash (ikey (h a)))" "\<lambda>h t key. assoc_delete h t key (hash key)" for hash
  by unfold_locales (simp_all add: assoc_find_map assoc_insert_map assoc_delete_map)

text \<open>
  Operations of the workers and of the maintenance thread, in any order. The maintenance thread expands only
  when no expansion is under way.
\<close>

datatype assoc_op = Insert addr | Delete "byte list" | Expand bool | MoveBucket bool

definition assoc_exec :: "(byte list \<Rightarrow> u32) \<Rightarrow> assoc_op \<Rightarrow> heap \<Rightarrow> assoc \<Rightarrow> (heap \<times> assoc) res option" where
  "assoc_exec hash opn h t = (case opn of
     Insert a \<Rightarrow> Some (assoc_insert h t a (hash (ikey (h a))))
   | Delete key \<Rightarrow> assoc_delete h t key (hash key)
   | Expand calloc_ok \<Rightarrow> Some (Inr (h, if expanding t then t else assoc_expand calloc_ok t))
   | MoveBucket trylock \<Rightarrow> assoc_move_bucket hash trylock h t)"

fun assoc_run :: "(byte list \<Rightarrow> u32) \<Rightarrow> assoc_op list \<Rightarrow> heap \<Rightarrow> assoc \<Rightarrow> (heap \<times> assoc) res option" where
  "assoc_run hash [] h t = Some (Inr (h, t))"
| "assoc_run hash (opn # ops) h t =
     (case assoc_exec hash opn h t of
        None \<Rightarrow> None
      | Some (Inl e) \<Rightarrow> Some (Inl e)
      | Some (Inr (h, t)) \<Rightarrow> assoc_run hash ops h t)"

text \<open>The same operations on the map; \<open>None\<close> when one breaks the contract.\<close>

definition map_exec :: "heap \<Rightarrow> assoc_op \<Rightarrow> (byte list \<rightharpoonup> addr) \<Rightarrow> (byte list \<rightharpoonup> addr) option" where
  "map_exec h opn m = (case opn of
     Insert a \<Rightarrow> if m (ikey (h a)) = None \<and> a \<notin> ran m then Some (m(ikey (h a) \<mapsto> a)) else None
   | Delete key \<Rightarrow> if m key = None then None else Some (m(key := None))
   | _ \<Rightarrow> Some m)"

fun map_run :: "heap \<Rightarrow> assoc_op list \<Rightarrow> (byte list \<rightharpoonup> addr) \<Rightarrow> (byte list \<rightharpoonup> addr) option" where
  "map_run h [] m = Some m"
| "map_run h (opn # ops) m = (case map_exec h opn m of None \<Rightarrow> None | Some m \<Rightarrow> map_run h ops m)"

definition expansions :: "assoc_op list \<Rightarrow> nat" where
  "expansions ops = length (filter (\<lambda>opn. case opn of Expand ok \<Rightarrow> True | _ \<Rightarrow> False) ops)"

lemma map_exec_cong: "same_items h h' \<Longrightarrow> map_exec h' opn m = map_exec h opn m"
  by (cases opn) (simp_all add: map_exec_def same_items_key)

lemma map_run_cong: "same_items h h' \<Longrightarrow> map_run h' ops m = map_run h ops m"
  by (induction ops arbitrary: m) (auto simp: map_exec_cong split: option.splits)

lemma write_slot_hashpower: "write_slot h t s p = (h', t') \<Longrightarrow> hashpower t' = hashpower t"
  by (auto simp: write_slot_def split: slot.splits)

lemma assoc_insert_hashpower: "assoc_insert h t a hv = Inr (h', t') \<Longrightarrow> hashpower t' = hashpower t"
  by (auto simp: assoc_insert_def Let_def split: if_splits)

lemma assoc_delete_hashpower: "assoc_delete h t key hv = Some (Inr (h', t')) \<Longrightarrow> hashpower t' = hashpower t"
  by (auto simp: assoc_delete_def Let_def split: option.splits sum.splits dest: write_slot_hashpower)

lemma assoc_expand_hashpower: "hashpower (assoc_expand ok t) \<le> hashpower t + 1"
  by (simp add: assoc_expand_def Let_def)

lemma assoc_exec_refines:
  assumes rep: "assoc_rep hash h t m" and spec: "map_exec h opn m = Some m'" and room: "hashpower t + expansions [opn] < 32"
  shows "\<exists>h' t'. assoc_exec hash opn h t = Some (Inr (h', t')) \<and> assoc_rep hash h' t' m' \<and> same_items h h'
     \<and> hashpower t' \<le> hashpower t + expansions [opn]"
proof (cases opn)
  case (Insert a)
  then have "m (ikey (h a)) = None" "a \<notin> ran m" "m' = m(ikey (h a) \<mapsto> a)" using spec by (auto simp: map_exec_def split: if_splits)
  then show ?thesis using table.insert_rep [OF rep, of a] assoc_insert_hashpower by (fastforce simp: Insert assoc_exec_def)
next
  case (Delete key)
  then obtain a where "m key = Some a" "m' = m(key := None)" using spec by (auto simp: map_exec_def split: if_splits)
  then show ?thesis using table.delete_rep [OF rep, of key a] assoc_delete_hashpower by (fastforce simp: Delete assoc_exec_def)
next
  case (Expand ok)
  then have "m' = m" "hashpower t + 1 < 32" using spec room by (auto simp: map_exec_def expansions_def)
  then show ?thesis using assoc_expand_map [OF rep] assoc_expand_hashpower [of ok t] rep
    by (auto simp: Expand assoc_exec_def expansions_def)
next
  case (MoveBucket trylock)
  then have "m' = m" using spec by (auto simp: map_exec_def)
  then show ?thesis using assoc_move_map [OF rep, of trylock] by (auto simp: MoveBucket assoc_exec_def)
qed

lemma assoc_run_map:
  assumes "assoc_rep hash h t m" and "map_run h ops m = Some m'" and "hashpower t + expansions ops < 32"
  shows "\<exists>h' t'. assoc_run hash ops h t = Some (Inr (h', t')) \<and> assoc_rep hash h' t' m' \<and> same_items h h'"
  using assms
proof (induction ops arbitrary: h t m)
  case (Cons opn ops)
  then obtain m1 where m1: "map_exec h opn m = Some m1" "map_run h ops m1 = Some m'" by (auto split: option.splits)
  have n: "expansions (opn # ops) = expansions [opn] + expansions ops" by (simp add: expansions_def)
  then obtain h1 t1 where 1: "assoc_exec hash opn h t = Some (Inr (h1, t1))" "assoc_rep hash h1 t1 m1" "same_items h h1"
    "hashpower t1 \<le> hashpower t + expansions [opn]"
    using assoc_exec_refines [OF Cons.prems(1) m1(1)] Cons.prems(3) by auto
  have "map_run h1 ops m1 = Some m'" using m1(2) by (simp add: map_run_cong [OF 1(3)])
  then obtain h2 t2 where "assoc_run hash ops h1 t1 = Some (Inr (h2, t2))" "assoc_rep hash h2 t2 m'" "same_items h1 h2"
    using Cons.IH [OF 1(2)] 1(4) Cons.prems(3) n by auto
  then show ?case using 1 same_items_trans by auto
qed simp

lemma assoc_init_map:
  assumes "assoc_init ok n t0 = Some t" and "hashpower t < 32" and "\<not> expanding t0"
  shows "assoc_rep hash h t Map.empty"
proof -
  have t: "primary_hashtable t = replicate (2 ^ hashpower t) None" "\<not> expanding t"
    using assms unat_hashsize [of "hashpower t"] by (auto simp: assoc_init_def Let_def split: if_splits)
  then have "chains_ok hash h t (\<lambda>b. [])" using assms(2)
    by (auto simp: chains_ok_def sizes_ok_def in_use_def valid_bucket_def bucket_head_def split: bucket.splits)
  moreover have "chains_map hash h t (\<lambda>b. []) = Map.empty" by (simp add: chains_map_def fun_eq_iff)
  ultimately show ?thesis unfolding assoc_rep_def by metis
qed

text \<open>C28: the table refines a map: from initialisation, any sequence of insertions of new keys, deletions of
  existing keys, expansions and bucket moves runs to its end without fault, and a lookup then gives what
  the same operations give on a map. Expansions and moves change nothing a worker can see.\<close>

theorem assoc_refines_map:
  assumes "assoc_init ok n t0 = Some t" and "hashpower t + expansions ops < 32" and "\<not> expanding t0"
    and "map_run h ops Map.empty = Some m"
  shows "\<exists>h' t'. assoc_run hash ops h t = Some (Inr (h', t'))
     \<and> (\<forall>key. assoc_find h' t' key (hash key) = Some (Inr (m key)))"
  using assoc_run_map [OF assoc_init_map [OF assms(1) _ assms(3)] assms(4,2)] assms(2) table.find_rep by fastforce

text \<open>C29: an expansion finishes: as many rounds of the maintenance thread as old buckets are left, each with the
  bucket's lock free, end it, without changing the map.\<close>

theorem assoc_expansion_finishes:
  assumes "assoc_rep hash h t m" and "expanding t"
  shows "\<exists>h' t'. assoc_run hash (replicate (2 ^ (hashpower t - 1) - unat (expand_bucket t)) (MoveBucket True)) h t
       = Some (Inr (h', t')) \<and> \<not> expanding t' \<and> assoc_rep hash h' t' m"
  using assms
proof (induction "2 ^ (hashpower t - 1) - unat (expand_bucket t)" arbitrary: h t)
  case 0
  then have "unat (expand_bucket t) < 2 ^ (hashpower t - 1)"
    by (auto simp: assoc_rep_def chains_ok_def sizes_ok_def)
  then show ?case using 0 by simp
next
  case (Suc k)
  obtain h1 t1 where 1: "assoc_move_bucket hash True h t = Some (Inr (h1, t1))" "assoc_rep hash h1 t1 m" "hashpower t1 = hashpower t"
    "if unat (expand_bucket t) + 1 = 2 ^ (hashpower t - 1) then \<not> expanding t1
     else expanding t1 \<and> unat (expand_bucket t1) = unat (expand_bucket t) + 1"
    using assoc_move_map [OF Suc.prems(1), of True] Suc.prems(2) by auto
  have ex: "assoc_exec hash (MoveBucket True) h t = Some (Inr (h1, t1))" using 1(1) by (simp add: assoc_exec_def)
  show ?case
  proof (cases "unat (expand_bucket t) + 1 = 2 ^ (hashpower t - 1)")
    case True
    then have "2 ^ (hashpower t - 1) - unat (expand_bucket t) = Suc 0" by linarith
    then show ?thesis unfolding \<open>2 ^ (hashpower t - 1) - unat (expand_bucket t) = Suc 0\<close> using 1 ex True by simp
  next
    case False
    then have k: "k = 2 ^ (hashpower t1 - 1) - unat (expand_bucket t1)" "expanding t1" using 1(3,4) Suc.hyps(2) by auto
    from Suc.hyps(1) [OF k(1) 1(2) k(2)] show ?thesis
      unfolding Suc.hyps(2) [symmetric] k(1) [symmetric] replicate_Suc assoc_run.simps ex by simp
  qed
qed

text \<open>A small table for the witnesses.\<close>

definition tiny_assoc :: assoc where
  "tiny_assoc = \<lparr>hashpower = 1, primary_hashtable = [], old_hashtable = [], expanding = False, expand_bucket = 0,
     hash_power_level = 0, hash_bytes = 0, hash_is_expanding = False\<rparr>"

definition tiny_item :: "byte \<Rightarrow> item" where
  "tiny_item k = \<lparr>it_next = None, it_prev = None, h_next = None, it_time = 0, exptime = 0, nbytes = 2, refcount = 1,
     it_flags = 0, slabs_clsid = 1, ikey = [k], mac = [], mt_index = 0, cas = 0, client_flags = 0, idata = []\<rparr>"

lemma tiny_init: "\<exists>t. assoc_init True 1 tiny_assoc = Some t \<and> hashpower t = 1 \<and> \<not> expanding t"
  by (simp add: assoc_init_def tiny_assoc_def)

theorem assoc_refines_map_witness:
  "\<exists>t h' t'. assoc_init True 1 tiny_assoc = Some t
     \<and> assoc_run (\<lambda>k. ucast (hd k)) [Insert 5, Expand True, Insert 6, MoveBucket True, Delete [5], MoveBucket True]
         (\<lambda>a. tiny_item (word_of_nat a)) t = Some (Inr (h', t'))
     \<and> assoc_find h' t' [6] 6 = Some (Inr (Some 6)) \<and> assoc_find h' t' [5] 5 = Some (Inr None)"
proof -
  let ?h = "\<lambda>a. tiny_item (word_of_nat a)" and ?hash = "\<lambda>k. ucast (hd k) :: u32"
  let ?ops = "[Insert 5, Expand True, Insert 6, MoveBucket True, Delete [5], MoveBucket True]"
  obtain t where t: "assoc_init True 1 tiny_assoc = Some t" "hashpower t = 1" using tiny_init by blast
  have "map_run ?h ?ops Map.empty = Some [[6] \<mapsto> 6]"
    by (simp add: map_exec_def tiny_item_def fun_eq_iff)
  moreover have "hashpower t + expansions ?ops < 32" "\<not> expanding tiny_assoc"
    using t(2) by (simp_all add: tiny_assoc_def expansions_def)
  ultimately obtain h' t' where r: "assoc_run ?hash ?ops ?h t = Some (Inr (h', t'))"
    "\<And>key. assoc_find h' t' key (?hash key) = Some (Inr ([[6] \<mapsto> 6] key))"
    using assoc_refines_map [OF t(1), of ?ops ?h _ ?hash] by blast
  show ?thesis using t(1) r(1) r(2) [of "[6]"] r(2) [of "[5]"] by auto
qed

theorem assoc_expansion_finishes_witness:
  "\<exists>t h' t'. assoc_init True 1 tiny_assoc = Some t
     \<and> assoc_run (\<lambda>k. 0) (replicate (2 ^ 1 - 0) (MoveBucket True)) (\<lambda>a. tiny_item 0) (assoc_expand True t)
         = Some (Inr (h', t')) \<and> \<not> expanding t'"
proof -
  obtain t where t: "assoc_init True 1 tiny_assoc = Some t" "hashpower t = 1" "\<not> expanding t" using tiny_init by blast
  let ?t = "assoc_expand True t"
  have "assoc_rep (\<lambda>k. 0) (\<lambda>a. tiny_item 0) t Map.empty"
    by (rule assoc_init_map [OF t(1)]) (simp_all add: t(2) tiny_assoc_def)
  then have rep: "assoc_rep (\<lambda>k. 0) (\<lambda>a. tiny_item 0) ?t Map.empty" using t(2,3) by (intro assoc_expand_map) simp_all
  have f: "expanding ?t" "hashpower ?t - 1 = 1" "unat (expand_bucket ?t) = 0"
    using t(2) by (simp_all add: assoc_expand_def Let_def)
  show ?thesis using t(1) assoc_expansion_finishes [OF rep f(1)] unfolding f(2,3) by blast
qed

lemma iterate_chain:
  assumes "chain h (iter_next iter) as" and "bucket_locked iter"
  shows "\<exists>iter'. iterate_loop h t (iter, acc) = iterate_loop h t (iter', acc @ as)
     \<and> iter_bucket iter' = iter_bucket iter + 1 \<and> \<not> bucket_locked iter'"
  using assms
proof (induction as arbitrary: iter acc)
  case Nil
  then show ?case by (subst iterate_loop.simps) (auto simp: assoc_iterate_def)
next
  case (Cons a as)
  let ?i = "iter\<lparr>iter_it := Some a, iter_next := h_next (h a)\<rparr>"
  have "iterate_loop h t (iter, acc) = iterate_loop h t (?i, acc @ [a])"
    using Cons.prems by (subst iterate_loop.simps) (simp add: assoc_iterate_def)
  moreover have "chain h (iter_next ?i) as" "bucket_locked ?i" using Cons.prems by simp_all
  ultimately show ?case using Cons.IH [of ?i "acc @ [a]"] by simp
qed

lemma iterate_bucket:
  assumes "chain h (primary_hashtable t ! unat (iter_bucket iter)) as" and "\<not> bucket_locked iter"
    and "unat (iter_bucket iter) < length (primary_hashtable t)" and "iter_bucket iter \<noteq> hashsize (hashpower t)"
  shows "\<exists>iter'. iterate_loop h t (iter, acc) = iterate_loop h t (iter', acc @ as)
     \<and> iter_bucket iter' = iter_bucket iter + 1 \<and> \<not> bucket_locked iter'"
proof (cases as)
  case Nil
  then show ?thesis using assms by (subst iterate_loop.simps) (auto simp: assoc_iterate_def)
next
  case (Cons a as')
  let ?i = "iter\<lparr>bucket_locked := True, iter_it := Some a, iter_next := h_next (h a)\<rparr>"
  have "iterate_loop h t (iter, acc) = iterate_loop h t (?i, acc @ [a])"
    using Cons assms by (subst iterate_loop.simps) (simp add: assoc_iterate_def)
  then show ?thesis using iterate_chain [of h ?i as' t "acc @ [a]"] Cons assms(1) by simp
qed

lemma iterate_buckets:
  assumes "chains_ok hash h t ch" and "\<not> bucket_locked iter" and "unat (iter_bucket iter) + k = 2 ^ hashpower t"
  shows "iterate_loop h t (iter, acc)
     = Some (Inr (acc @ concat (map (\<lambda>i. ch (Prim i)) [unat (iter_bucket iter)..<2 ^ hashpower t])))"
  using assms(2,3)
proof (induction k arbitrary: iter acc)
  case 0
  have n: "hashpower t < 32" using assms(1) by (simp add: chains_ok_def sizes_ok_def)
  have "iter_bucket iter = hashsize (hashpower t)"
    using 0 unat_hashsize [OF n] by (intro word_unat_eq_iff [THEN iffD2]) simp
  then show ?case using 0 by (subst iterate_loop.simps) (simp add: assoc_iterate_def)
next
  case (Suc k)
  let ?b = "unat (iter_bucket iter)"
  have n: "hashpower t < 32" "length (primary_hashtable t) = 2 ^ hashpower t"
    using assms(1) by (simp_all add: chains_ok_def sizes_ok_def)
  have b: "?b < 2 ^ hashpower t" using Suc.prems(2) by simp
  then have ne: "iter_bucket iter \<noteq> hashsize (hashpower t)" using unat_hashsize [OF n(1)] by auto
  have "(2::nat) ^ hashpower t \<le> 2 ^ 31" using n(1) by (intro power_increasing) simp_all
  then have nxt: "unat (iter_bucket iter + 1) = Suc ?b"
    using b by (subst unat_add_no_wrap) simp_all
  have "in_use t (Prim ?b)" using b n by (simp add: in_use_def valid_bucket_def)
  then have "chain h (primary_hashtable t ! ?b) (ch (Prim ?b))" using chains_chain [OF assms(1)] by (fastforce simp: bucket_head_def)
  from iterate_bucket [OF this Suc.prems(1) _ ne] b n(2)
  obtain iter' where i: "iterate_loop h t (iter, acc) = iterate_loop h t (iter', acc @ ch (Prim ?b))"
    "iter_bucket iter' = iter_bucket iter + 1" "\<not> bucket_locked iter'" by auto
  moreover have "unat (iter_bucket iter') + k = 2 ^ hashpower t" using Suc.prems(2) i(2) nxt by simp
  ultimately show ?case using Suc.IH [OF i(3)] b nxt by (simp add: upt_conv_Cons)
qed

lemma distinct_concat_upt:
  assumes "\<And>i. distinct (f i)" and "\<And>i j x. x \<in> set (f i) \<Longrightarrow> x \<in> set (f j) \<Longrightarrow> i = j"
  shows "distinct (concat (map f [0..<n]))"
proof (induction n)
  case (Suc n)
  have "set (f i) \<inter> set (f n) = {}" if "i < n" for i using assms(2) [of _ i n] that by blast
  then have "(\<Union>i\<in>{0..<n}. set (f i)) \<inter> set (f n) = {}" by (intro equals0I) (auto, blast)
  then show ?case using Suc assms(1) by simp
qed simp

text \<open>C30: a walk over the table with the iterator ends, with every item of the table seen exactly once.\<close>

theorem assoc_iterate_all:
  assumes "assoc_rep hash h t m" and "\<not> expanding t" and "assoc_get_iterator True = Some iter"
  shows "\<exists>items. iterate_loop h t (iter, []) = Some (Inr items) \<and> distinct items \<and> set items = ran m"
proof -
  obtain ch where ch: "chains_ok hash h t ch" "m = chains_map hash h t ch" using assms(1) by (auto simp: assoc_rep_def)
  let ?items = "concat (map (\<lambda>i. ch (Prim i)) [0..<2 ^ hashpower t])"
  have "\<not> bucket_locked iter" "iter_bucket iter = 0" using assms(3) by (auto simp: assoc_get_iterator_def)
  then have "iterate_loop h t (iter, []) = Some (Inr ?items)"
    using iterate_buckets [OF ch(1), of iter "2 ^ hashpower t" "[]"] by simp
  moreover have "distinct ?items"
  proof (rule distinct_concat_upt)
    show "distinct (ch (Prim i))" for i using chains_distinct [OF ch(1)] distinct_map by blast
    show "i = j" if "x \<in> set (ch (Prim i))" "x \<in> set (ch (Prim j))" for i j x
      using chains_home [OF ch(1) that(1)] chains_home [OF ch(1) that(2)] by simp
  qed
  moreover have "set ?items = ran m"
  proof (intro equalityI subsetI)
    show "a \<in> ran m" if "a \<in> set ?items" for a
      using that chains_mapI [OF ch(1)] unfolding ch(2) by (fastforce intro: ranI)
    show "a \<in> set ?items" if "a \<in> ran m" for a
    proof -
      obtain key where "m key = Some a" using \<open>a \<in> ran m\<close> by (auto simp: ran_def)
      moreover obtain i where "bucket_of t (hash key) = Prim i" "i < 2 ^ hashpower t"
        using assms(2) ch(1) by (auto simp: bucket_of_nat chains_ok_def sizes_ok_def)
      ultimately show ?thesis using chains_mapD(1) [OF ch(1)] unfolding ch(2) by fastforce
    qed
  qed
  ultimately show ?thesis by blast
qed

theorem assoc_iterate_all_witness:
  "\<exists>t iter items. assoc_init True 1 tiny_assoc = Some t \<and> assoc_get_iterator True = Some iter
     \<and> iterate_loop (\<lambda>a. tiny_item 0) t (iter, []) = Some (Inr items) \<and> set items = {}"
proof -
  obtain t where t: "assoc_init True 1 tiny_assoc = Some t" "hashpower t = 1" "\<not> expanding t" using tiny_init by blast
  have rep: "assoc_rep (\<lambda>k. 0) (\<lambda>a. tiny_item 0) t Map.empty"
    by (rule assoc_init_map [OF t(1)]) (simp_all add: t(2) tiny_assoc_def)
  obtain iter where i: "assoc_get_iterator True = Some iter" by (simp add: assoc_get_iterator_def)
  show ?thesis using t(1) i assoc_iterate_all [OF rep t(3) i] by auto
qed

end
