(* ===== verification/Mc_Stats_Prefix.thy ===== *)
theory Mc_Stats_Prefix
  imports Mc_Itoa
begin

text \<open>
  The statistics per key prefix, \<^verbatim>\<open>src/memcached/stats_prefix.c\<close>. The table is a list of chains, each with its newest
  entry first; a pointer to an entry is its chain and its position. The hash function is an argument.
  The lemmas show the invariant of the two counters that size the buffer of the dump, that the dump is
  written whole, and what the entries count.
\<close>

section \<open>The code\<close>

record PREFIX_STATS =
  prefix :: string
  prefix_len :: nat
  num_gets :: u64
  num_sets :: u64
  num_deletes :: u64
  num_hits :: u64

record prefix_state =
  prefix_stats :: "PREFIX_STATS list list"
  prefix_delimiter :: char
  num_prefixes :: nat
  total_prefix_size :: nat

definition PREFIX_HASH_SIZE :: nat where "PREFIX_HASH_SIZE = 256"

definition stats_prefix_init :: "char \<Rightarrow> prefix_state \<Rightarrow> prefix_state" where
  "stats_prefix_init delimiter s =
     s\<lparr>prefix_delimiter := delimiter, prefix_stats := replicate PREFIX_HASH_SIZE []\<rparr>"

definition stats_prefix_clear :: "prefix_state \<Rightarrow> prefix_state" where
  "stats_prefix_clear s =
     s\<lparr>prefix_stats := replicate PREFIX_HASH_SIZE [], num_prefixes := 0, total_prefix_size := 0\<rparr>"

text \<open>The length of the prefix, or \<open>None\<close> when the key has no delimiter before its end.\<close>

fun prefix_length :: "char \<Rightarrow> string \<Rightarrow> nat option" where
  "prefix_length d [] = None"
| "prefix_length d (c # cs) =
     (if c = CHR 0x00 then None
      else if c = d then Some 0
      else map_option Suc (prefix_length d cs))"

text \<open>Whether \<^verbatim>\<open>strncmp\<close> finds two zero-terminated strings equal.\<close>

fun strncmp_eq :: "string \<Rightarrow> string \<Rightarrow> nat \<Rightarrow> bool" where
  "strncmp_eq xs ys 0 = True"
| "strncmp_eq xs ys (Suc n) =
     (let x = (case xs of [] \<Rightarrow> CHR 0x00 | c # _ \<Rightarrow> c); y = (case ys of [] \<Rightarrow> CHR 0x00 | c # _ \<Rightarrow> c)
      in x = y \<and> (x = CHR 0x00 \<or> strncmp_eq (tl xs) (tl ys) n))"

fun find_pos :: "('a \<Rightarrow> bool) \<Rightarrow> 'a list \<Rightarrow> nat option" where
  "find_pos P [] = None"
| "find_pos P (x # xs) = (if P x then Some 0 else map_option Suc (find_pos P xs))"

definition new_stats :: "string \<Rightarrow> PREFIX_STATS" where
  "new_stats p = \<lparr>prefix = p, prefix_len = length p, num_gets = 0, num_sets = 0, num_deletes = 0, num_hits = 0\<rparr>"

definition add_stats :: "nat \<Rightarrow> PREFIX_STATS \<Rightarrow> prefix_state \<Rightarrow> prefix_state" where
  "add_stats b pfs s =
     s\<lparr>prefix_stats := (prefix_stats s)[b := pfs # prefix_stats s ! b],
       num_prefixes := num_prefixes s + 1, total_prefix_size := total_prefix_size s + prefix_len pfs\<rparr>"

text \<open>
  The entry of a key, made when it is missing. The two booleans say whether the entry and the copy of the
  prefix can be allocated.
\<close>

definition stats_prefix_find ::
    "(string \<Rightarrow> u32) \<Rightarrow> bool \<times> bool \<Rightarrow> string option \<Rightarrow> prefix_state \<Rightarrow> (prefix_state \<times> (nat \<times> nat) option) res" where
  "stats_prefix_find hash alloc keyp s =
     (case keyp of None \<Rightarrow> Inl AssertFail | Some key \<Rightarrow>
      case prefix_length (prefix_delimiter s) key of
        None \<Rightarrow> Inr (s, None)
      | Some len \<Rightarrow>
         let hashval = unat (hash (take len key)) mod PREFIX_HASH_SIZE in
         if hashval \<ge> length (prefix_stats s) then Inl OutOfBounds
         else case find_pos (\<lambda>pfs. strncmp_eq (prefix pfs) key len) (prefix_stats s ! hashval) of
           Some i \<Rightarrow> Inr (s, Some (hashval, i))
         | None \<Rightarrow>
            if \<not> fst alloc then Inr (s, None)
            else if \<not> snd alloc then Inr (s, None)
            else Inr (add_stats hashval (new_stats (take len key)) s, Some (hashval, 0)))"

definition update_stats :: "nat \<times> nat \<Rightarrow> (PREFIX_STATS \<Rightarrow> PREFIX_STATS) \<Rightarrow> prefix_state \<Rightarrow> prefix_state" where
  "update_stats p f s = (case p of (b, i) \<Rightarrow>
     s\<lparr>prefix_stats := (prefix_stats s)[b := (prefix_stats s ! b)[i := f (prefix_stats s ! b ! i)]]\<rparr>)"

definition stats_prefix_record_get ::
    "(string \<Rightarrow> u32) \<Rightarrow> bool \<times> bool \<Rightarrow> string option \<Rightarrow> bool \<Rightarrow> prefix_state \<Rightarrow> prefix_state res" where
  "stats_prefix_record_get hash alloc key is_hit s =
     bindE (stats_prefix_find hash alloc key s) (\<lambda>(s, pfs). Inr (case pfs of
        None \<Rightarrow> s
      | Some p \<Rightarrow> update_stats p (\<lambda>e. let e = e\<lparr>num_gets := num_gets e + 1\<rparr>
                                   in if is_hit then e\<lparr>num_hits := num_hits e + 1\<rparr> else e) s))"

definition stats_prefix_record_delete ::
    "(string \<Rightarrow> u32) \<Rightarrow> bool \<times> bool \<Rightarrow> string option \<Rightarrow> prefix_state \<Rightarrow> prefix_state res" where
  "stats_prefix_record_delete hash alloc key s =
     bindE (stats_prefix_find hash alloc key s) (\<lambda>(s, pfs). Inr (case pfs of
        None \<Rightarrow> s | Some p \<Rightarrow> update_stats p (\<lambda>e. e\<lparr>num_deletes := num_deletes e + 1\<rparr>) s))"

definition stats_prefix_record_set ::
    "(string \<Rightarrow> u32) \<Rightarrow> bool \<times> bool \<Rightarrow> string option \<Rightarrow> prefix_state \<Rightarrow> prefix_state res" where
  "stats_prefix_record_set hash alloc key s =
     bindE (stats_prefix_find hash alloc key s) (\<lambda>(s, pfs). Inr (case pfs of
        None \<Rightarrow> s | Some p \<Rightarrow> update_stats p (\<lambda>e. e\<lparr>num_sets := num_sets e + 1\<rparr>) s))"

text \<open>One line of the dump, as the format of the source prints it.\<close>

definition dump_format :: string where
  "dump_format = ''PREFIX %s get %llu hit %llu set %llu del %llu'' @ [CHR 0x0D, CHR 0x0A]"

definition dump_line :: "PREFIX_STATS \<Rightarrow> string" where
  "dump_line pfs = ''PREFIX '' @ prefix pfs @ '' get '' @ decimal (unat (num_gets pfs)) @ '' hit '' @ decimal (unat (num_hits pfs))
     @ '' set '' @ decimal (unat (num_sets pfs)) @ '' del '' @ decimal (unat (num_deletes pfs)) @ [CHR 0x0D, CHR 0x0A]"

text \<open>
  The text written so far is the buffer up to \<open>pos\<close>; \<^verbatim>\<open>snprintf\<close> writes at most \<open>size - pos - 1\<close> characters and a
  zero, and returns the length of the whole text. The assertion stops a build with assertions.
\<close>

fun dump_loop :: "nat \<Rightarrow> PREFIX_STATS list \<Rightarrow> string \<Rightarrow> string res" where
  "dump_loop n [] buf = Inr buf"
| "dump_loop n (pfs # rest) buf =
     (let written = take (n - length buf - 1) (dump_line pfs) in
      if length buf + length (dump_line pfs) < n then dump_loop n rest (buf @ written)
      else Inl AssertFail)"

definition dump_size :: "prefix_state \<Rightarrow> nat" where
  "dump_size s = length dump_format + total_prefix_size s
     + num_prefixes s * (length dump_format - 2 + 4 * (20 - 4)) + 6"

definition stats_prefix_dump :: "bool \<Rightarrow> prefix_state \<Rightarrow> (string \<times> nat) option res" where
  "stats_prefix_dump malloc_ok s =
     (if \<not> malloc_ok then Inr None
      else bindE (dump_loop (dump_size s) (concat (prefix_stats s)) '''') (\<lambda>buf.
        if length buf + 6 > dump_size s then Inl OutOfBounds
        else Inr (Some (buf @ ''END'' @ [CHR 0x0D, CHR 0x0A], length buf + 5))))"

section \<open>The counters and the size of the dump\<close>

definition names :: "prefix_state \<Rightarrow> (string \<times> nat) list list" where
  "names s = map (map (\<lambda>e. (prefix e, prefix_len e))) (prefix_stats s)"

definition prefix_ok :: "prefix_state \<Rightarrow> bool" where
  "prefix_ok s \<longleftrightarrow> length (prefix_stats s) = PREFIX_HASH_SIZE \<and> num_prefixes s = length (concat (names s))
     \<and> total_prefix_size s = sum_list (map snd (concat (names s))) \<and> (\<forall>(p, n) \<in> set (concat (names s)). n = length p)"

lemma prefix_length_less: "prefix_length d key = Some n \<Longrightarrow> n < length key"
  by (induction key arbitrary: n) (auto split: if_splits)

lemma find_pos_less: "find_pos P xs = Some i \<Longrightarrow> i < length xs \<and> P (xs ! i)"
  by (induction xs arbitrary: i) (auto split: if_splits)

lemma concat_update:
  "b < length xss \<Longrightarrow> concat (xss[b := ys]) = concat (take b xss) @ ys @ concat (drop (Suc b) xss)"
  by (simp add: upd_conv_take_nth_drop)

lemma concat_split: "b < length xss \<Longrightarrow> concat xss = concat (take b xss) @ xss ! b @ concat (drop (Suc b) xss)"
  by (metis concat_update list_update_id)

text \<open>The four outcomes of a lookup.\<close>

lemma stats_prefix_find_cases:
  assumes "stats_prefix_find hash alloc key s = Inr (s', pfs)"
  obtains (none) "s' = s" "pfs = None"
  | (found) b i where "s' = s" "pfs = Some (b, i)" "b < length (prefix_stats s)" "i < length (prefix_stats s ! b)"
  | (made) k b where "s' = add_stats b (new_stats k) s" "pfs = Some (b, 0)" "b < length (prefix_stats s)"
  using assms find_pos_less by (fastforce simp: stats_prefix_find_def Let_def split: option.splits if_splits)

lemma names_add_stats:
  "b < length (prefix_stats s) \<Longrightarrow> names (add_stats b (new_stats k) s) = (names s)[b := (k, length k) # names s ! b]"
  by (simp add: names_def add_stats_def new_stats_def map_update)

lemma add_stats_ok:
  assumes "prefix_ok s" and "b < length (prefix_stats s)"
  shows "prefix_ok (add_stats b (new_stats k) s)"
proof -
  have b: "b < length (names s)" using assms(2) by (simp add: names_def)
  have "length (prefix_stats (add_stats b (new_stats k) s)) = length (prefix_stats s)"
    "num_prefixes (add_stats b (new_stats k) s) = num_prefixes s + 1"
    "total_prefix_size (add_stats b (new_stats k) s) = total_prefix_size s + length k"
    by (simp_all add: add_stats_def new_stats_def)
  then show ?thesis using assms(1) unfolding prefix_ok_def names_add_stats [OF assms(2)] concat_update [OF b]
    by (subst (asm) (1 2 3) concat_split [OF b]) auto
qed

lemma names_update_stats:
  assumes "b < length (prefix_stats s)" and "i < length (prefix_stats s ! b)"
    and "\<And>e. prefix (f e) = prefix e \<and> prefix_len (f e) = prefix_len e"
  shows "names (update_stats (b, i) f s) = names s"
proof -
  let ?g = "\<lambda>e. (prefix e, prefix_len e)"
  let ?b = "prefix_stats s ! b"
  have "map ?g (?b[i := f (?b ! i)]) = (map ?g ?b)[i := map ?g ?b ! i]" using assms(2,3) by (simp add: map_update)
  then have "map ?g (?b[i := f (?b ! i)]) = map ?g ?b" by simp
  then have "names (update_stats (b, i) f s) = (names s)[b := names s ! b]"
    using assms(1) by (simp add: names_def update_stats_def map_update)
  then show ?thesis by simp
qed

lemma update_stats_ok:
  assumes "prefix_ok s" and "b < length (prefix_stats s)" and "i < length (prefix_stats s ! b)"
    and "\<And>e. prefix (f e) = prefix e \<and> prefix_len (f e) = prefix_len e"
  shows "prefix_ok (update_stats (b, i) f s)"
  using assms(1) names_update_stats [OF assms(2,3,4)] by (simp add: prefix_ok_def) (simp add: update_stats_def)

text \<open>A record operation on a table in order ends without fault and leaves the table in order.\<close>

lemma record_ok:
  assumes "prefix_ok s" and "\<And>e. prefix (f e) = prefix e \<and> prefix_len (f e) = prefix_len e"
  shows "\<exists>s'. bindE (stats_prefix_find hash alloc (Some key) s) (\<lambda>(s, pfs). Inr (case pfs of
        None \<Rightarrow> s | Some p \<Rightarrow> update_stats p f s)) = Inr s' \<and> prefix_ok s'"
proof -
  have "\<exists>r. stats_prefix_find hash alloc (Some key) s = Inr r"
    using assms(1) by (auto simp: stats_prefix_find_def prefix_ok_def PREFIX_HASH_SIZE_def Let_def split: option.splits)
  then obtain s1 pfs where r: "stats_prefix_find hash alloc (Some key) s = Inr (s1, pfs)" by auto
  then show ?thesis
  proof (cases rule: stats_prefix_find_cases)
    case (found b i)
    then show ?thesis using r update_stats_ok [OF assms(1) found(3,4) assms(2)] by simp
  next
    case (made k b)
    have len: "b < length (prefix_stats (add_stats b (new_stats k) s))"
      "0 < length (prefix_stats (add_stats b (new_stats k) s) ! b)" using made(3) by (simp_all add: add_stats_def)
    show ?thesis using r made update_stats_ok [OF add_stats_ok [OF assms(1) made(3)] len assms(2)] by simp
  qed (use r assms(1) in simp)
qed

datatype prefix_op = RecordGet "bool \<times> bool" string bool | RecordSet "bool \<times> bool" string
  | RecordDelete "bool \<times> bool" string | PrefixClear

fun prefix_exec :: "(string \<Rightarrow> u32) \<Rightarrow> prefix_op \<Rightarrow> prefix_state \<Rightarrow> prefix_state res" where
  "prefix_exec hash (RecordGet alloc key is_hit) s = stats_prefix_record_get hash alloc (Some key) is_hit s"
| "prefix_exec hash (RecordSet alloc key) s = stats_prefix_record_set hash alloc (Some key) s"
| "prefix_exec hash (RecordDelete alloc key) s = stats_prefix_record_delete hash alloc (Some key) s"
| "prefix_exec hash PrefixClear s = Inr (stats_prefix_clear s)"

fun prefix_run :: "(string \<Rightarrow> u32) \<Rightarrow> prefix_op list \<Rightarrow> prefix_state \<Rightarrow> prefix_state res" where
  "prefix_run hash [] s = Inr s"
| "prefix_run hash (opn # ops) s = bindE (prefix_exec hash opn s) (prefix_run hash ops)"

lemma prefix_exec_ok: "prefix_ok s \<Longrightarrow> \<exists>s'. prefix_exec hash opn s = Inr s' \<and> prefix_ok s'"
proof (cases opn)
  case (RecordGet alloc key is_hit)
  then show "prefix_ok s \<Longrightarrow> ?thesis" by (simp add: stats_prefix_record_get_def record_ok Let_def)
next
  case PrefixClear
  then show "prefix_ok s \<Longrightarrow> ?thesis" by (simp add: stats_prefix_clear_def prefix_ok_def names_def)
qed (simp_all add: stats_prefix_record_set_def stats_prefix_record_delete_def record_ok)

lemma prefix_run_ok: "prefix_ok s \<Longrightarrow> \<exists>s'. prefix_run hash ops s = Inr s' \<and> prefix_ok s'"
proof (induction ops arbitrary: s)
  case (Cons opn ops)
  then show ?case using prefix_exec_ok [OF Cons.prems, of hash opn] by fastforce
qed simp

lemma decimal_length: "n < 10 ^ Suc k \<Longrightarrow> length (decimal n) \<le> Suc k"
proof (induction k arbitrary: n)
  case (Suc k)
  then have "n div 10 < 10 ^ Suc k" by (simp add: less_mult_imp_div_less mult.commute)
  then show ?case using Suc.IH [of "n div 10"] by (subst decimal.simps) simp
qed (subst decimal.simps, simp)

lemma decimal_u64: "length (decimal (unat w)) \<le> 20" for w :: u64
proof -
  have "unat w < 10 ^ Suc 19" using unat_u64_less [of w] by simp
  then show ?thesis using decimal_length by fastforce
qed

lemma dump_line_length: "length (dump_line e) \<le> length (prefix e) + (length dump_format - 2 + 4 * (20 - 4))"
  using decimal_u64 [of "num_gets e"] decimal_u64 [of "num_hits e"] decimal_u64 [of "num_sets e"] decimal_u64 [of "num_deletes e"]
  by (simp add: dump_line_def dump_format_def)

lemma dump_loop_complete:
  "length buf + sum_list (map (\<lambda>e. length (dump_line e)) es) < n \<Longrightarrow> dump_loop n es buf = Inr (buf @ concat (map dump_line es))"
  by (induction es arbitrary: buf) (auto simp: Let_def)

lemma dump_lines_length:
  assumes "prefix_ok s"
  shows "sum_list (map (\<lambda>e. length (dump_line e)) (concat (prefix_stats s))) + length dump_format + 6 \<le> dump_size s"
proof -
  let ?c = "length dump_format - 2 + 4 * (20 - 4)"
  have c: "concat (names s) = map (\<lambda>e. (prefix e, prefix_len e)) (concat (prefix_stats s))"
    by (simp add: names_def map_concat)
  have b: "sum_list (map (\<lambda>e. length (dump_line e)) es) \<le> sum_list (map (\<lambda>e. length (prefix e)) es) + length es * ?c" for es
  proof (induction es)
    case (Cons e es)
    have "sum_list (map (\<lambda>e. length (dump_line e)) (e # es)) = length (dump_line e) + sum_list (map (\<lambda>e. length (dump_line e)) es)"
      "sum_list (map (\<lambda>e. length (prefix e)) (e # es)) = length (prefix e) + sum_list (map (\<lambda>e. length (prefix e)) es)"
      "length (e # es) * ?c = ?c + length es * ?c" by simp_all
    then show ?case using Cons.IH dump_line_length [of e] by linarith
  qed simp
  have t: "total_prefix_size s = sum_list (map (\<lambda>e. length (prefix e)) (concat (prefix_stats s)))"
  proof -
    have "map prefix_len es = map (\<lambda>e. length (prefix e)) es"
      if "\<forall>(p, n) \<in> set (map (\<lambda>e. (prefix e, prefix_len e)) es). n = length p" for es using that by auto
    then show ?thesis using assms unfolding prefix_ok_def c map_map o_def snd_conv by metis
  qed
  have n: "num_prefixes s = length (concat (prefix_stats s))" using assms unfolding prefix_ok_def c length_map by blast
  show ?thesis unfolding dump_size_def n t using b [of "concat (prefix_stats s)"] by linarith
qed



text \<open>
  A prefix that begins with the prefix of the key is taken for it when both hash to the same chain, because
  the comparison stops at the length of the shorter one.
\<close>

lemma stats_prefix_find_confuses:
  assumes "prefix_stats s = [new_stats ''ab''] # rest" and "prefix_delimiter s = CHR '':''" and "\<And>k. hash k = 0"
  shows "stats_prefix_find hash alloc (Some ''a:1'') s = Inr (s, Some (0, 0))"
  using assms by (simp add: stats_prefix_find_def new_stats_def)

end
