(* ===== verification/Mc_Automove.thy ===== *)
theory Mc_Automove
  imports Complex_Main Kv_Prelude
begin

text \<open>
  The automatic mover of slab pages, \<^verbatim>\<open>src/memcached/slab_automove.c\<close>. One run looks at the statistics of every slab
  class, keeps a window of the last measurements of each and decides which class gives a page to which.
  The statistics of the items and the slabs are arguments of a run. The floating-point operations
  are arguments too, collected in \<open>float_ops\<close>: the sum and the quotient of the eviction ratios in single precision,
  their comparison with a quarter, and the comparison of two ages by the ratio of the settings. The factor 2.5
  is exact in double precision and is written as a comparison of integers. The lemmas show
  that a run neither leaves the arrays nor divides by zero, and which decisions it can take.
\<close>

section \<open>The code\<close>

record item_stats_automove =
  am_evicted :: int
  am_outofmemory :: int
  am_age :: u32

record slab_stats_automove =
  chunks_per_page :: u32
  chunk_size :: u32
  free_chunks :: int
  total_pages :: int

record 'f float_ops =
  f_zero :: 'f
  f_add :: "'f \<Rightarrow> 'f \<Rightarrow> 'f"
  f_ratio :: "u64 \<Rightarrow> u64 \<Rightarrow> 'f"
  f_quarter :: "'f \<Rightarrow> u32 \<Rightarrow> bool"
  f_younger :: "u64 \<Rightarrow> u64 \<Rightarrow> bool"

definition POWER_SMALLEST :: nat where "POWER_SMALLEST = 1"
definition MAX_NUMBER_OF_SLAB_CLASSES :: nat where "MAX_NUMBER_OF_SLAB_CLASSES = 64"
definition MIN_PAGES_FOR_SOURCE :: int where "MIN_PAGES_FOR_SOURCE = 2"

definition enough_to_reclaim :: "slab_stats_automove \<Rightarrow> bool" where
  "enough_to_reclaim sam \<longleftrightarrow> 2 * free_chunks sam > 5 * int (unat (chunks_per_page sam))"

record 'f window_data =
  w_age :: u64
  w_dirty :: u64
  evicted_ratio :: 'f
  evicted_seen :: u64

record 'f slab_automove =
  window_data :: "'f window_data list"
  window_size :: u32
  window_cur :: u32
  iam_before :: "item_stats_automove list"
  iam_after :: "item_stats_automove list"
  sam_before :: "slab_stats_automove list"
  sam_after :: "slab_stats_automove list"

definition empty_window :: "'f float_ops \<Rightarrow> 'f window_data" where
  "empty_window F = \<lparr>w_age = 0, w_dirty = 0, evicted_ratio = f_zero F, evicted_seen = 0\<rparr>"

text \<open>Initialisation; the booleans say whether the two allocations succeed.\<close>

definition slab_automove_init ::
    "'f float_ops \<Rightarrow> bool \<Rightarrow> bool \<Rightarrow> u32 \<Rightarrow> item_stats_automove list \<Rightarrow> slab_stats_automove list \<Rightarrow> 'f slab_automove option" where
  "slab_automove_init F ok1 ok2 wsize iam sam =
     (if \<not> ok1 then None
      else if \<not> ok2 then None
      else Some \<lparr>window_data = replicate (unat (wsize * 64)) (empty_window F), window_size = wsize, window_cur = 0,
                 iam_before = iam, iam_after = [], sam_before = sam, sam_after = []\<rparr>)"

definition add_window :: "'f float_ops \<Rightarrow> 'f window_data \<Rightarrow> 'f window_data \<Rightarrow> 'f window_data" where
  "add_window F w d = \<lparr>w_age = w_age w + w_age d, w_dirty = w_dirty w + w_dirty d,
     evicted_ratio = f_add F (evicted_ratio w) (evicted_ratio d), evicted_seen = evicted_seen w + evicted_seen d\<rparr>"

text \<open>The sum over the window of a class, \<open>wds\<close> being the array from its start.\<close>

fun window_sum :: "'f float_ops \<Rightarrow> 'f window_data list \<Rightarrow> 'f window_data \<Rightarrow> nat \<Rightarrow> 'f window_data res" where
  "window_sum F wds w 0 = Inr w"
| "window_sum F [] w (Suc n) = Inl OutOfBounds"
| "window_sum F (d # wds) w (Suc n) = window_sum F wds (add_window F w d) n"

text \<open>The local variables of the loop over the classes.\<close>

record decision =
  oldest :: int
  oldest_age :: u64
  youngest :: int
  youngest_age :: u64
  youngest_evicting :: bool
  src :: int
  dst :: int

text \<open>The measurement of a class in this run.\<close>

definition new_window ::
    "'f float_ops \<Rightarrow> u64 \<Rightarrow> item_stats_automove \<Rightarrow> item_stats_automove \<Rightarrow> slab_stats_automove \<Rightarrow> slab_stats_automove \<Rightarrow> 'f window_data" where
  "new_window F evicted_total ib ia sb sa =
     (let wd = empty_window F;
          evicted_delta = word_of_int (am_evicted ia - am_evicted ib);
          wd = (if evicted_delta > 0
                then wd\<lparr>evicted_ratio := f_ratio F evicted_delta evicted_total, evicted_seen := 1, w_dirty := 1\<rparr> else wd);
          wd = (if am_outofmemory ia - am_outofmemory ib > 0 then wd\<lparr>w_dirty := 1\<rparr> else wd);
          wd = (if total_pages sa - total_pages sb > 0 then wd\<lparr>w_dirty := 1\<rparr> else wd)
      in wd\<lparr>w_age := ucast (am_age ia)\<rparr>)"

text \<open>The rest of the body of the loop: the decision with the sum of the window. The boolean tells a \<^verbatim>\<open>break\<close>.\<close>

definition judge ::
    "'f float_ops \<Rightarrow> u32 \<Rightarrow> nat \<Rightarrow> slab_stats_automove \<Rightarrow> 'f window_data \<Rightarrow> 'f window_data \<Rightarrow> decision \<Rightarrow> decision \<times> bool" where
  "judge F wsize n sa w_sum wd d =
     (let age = w_age w_sum div ucast wsize in
      if enough_to_reclaim sa \<and> w_dirty w_sum = 0 then (d\<lparr>src := int n, dst := 0\<rparr>, True)
      else let d = (if age > oldest_age d \<and> total_pages sa > MIN_PAGES_FOR_SOURCE
                    then d\<lparr>oldest := int n, oldest_age := age\<rparr> else d)
           in (if age < youngest_age d \<and> (evicted_seen w_sum > ucast (wsize div 2) \<or> f_quarter F (evicted_ratio w_sum) wsize)
               then d\<lparr>youngest := int n, youngest_age := age, youngest_evicting := (evicted_seen wd \<noteq> 0)\<rparr>
               else d, False))"

definition automove_class ::
    "'f float_ops \<Rightarrow> u64 \<Rightarrow> nat \<Rightarrow> 'f slab_automove \<times> decision \<Rightarrow> (('f slab_automove \<times> decision) \<times> bool) res" where
  "automove_class F evicted_total n st = (case st of (a, d) \<Rightarrow>
     let w_offset = n * unat (window_size a) in
     if window_size a = 0 then Inl DivByZero
     else let pos = w_offset + unat (window_cur a mod window_size a) in
     bindE (upd (window_data a) pos (empty_window F)) (\<lambda>wds.
     bindE (window_sum F (drop w_offset wds) (empty_window F) (unat (window_size a))) (\<lambda>w_sum.
     bindE (idx (iam_before a) n) (\<lambda>ib. bindE (idx (iam_after a) n) (\<lambda>ia.
     bindE (idx (sam_before a) n) (\<lambda>sb. bindE (idx (sam_after a) n) (\<lambda>sa.
       let wd = new_window F evicted_total ib ia sb sa;
           (d, stop) = judge F (window_size a) n sa w_sum wd d
       in Inr ((a\<lparr>window_data := wds[pos := wd]\<rparr>, d), stop))))))))"

fun automove_loop ::
    "'f float_ops \<Rightarrow> u64 \<Rightarrow> nat list \<Rightarrow> 'f slab_automove \<times> decision \<Rightarrow> ('f slab_automove \<times> decision) res" where
  "automove_loop F tot [] st = Inr st"
| "automove_loop F tot (n # ns) st =
     bindE (automove_class F tot n st) (\<lambda>(st, stop). if stop then Inr st else automove_loop F tot ns st)"

fun evicted_sum :: "item_stats_automove list \<Rightarrow> item_stats_automove list \<Rightarrow> nat list \<Rightarrow> u64 \<Rightarrow> u64 res" where
  "evicted_sum ib ia [] tot = Inr tot"
| "evicted_sum ib ia (n # ns) tot =
     bindE (idx ib n) (\<lambda>b. bindE (idx ia n) (\<lambda>e.
       evicted_sum ib ia ns (tot + word_of_int (am_evicted e - am_evicted b))))"

definition classes :: "nat list" where
  "classes = [POWER_SMALLEST..<MAX_NUMBER_OF_SLAB_CLASSES]"

definition slab_automove_run ::
    "'f float_ops \<Rightarrow> item_stats_automove list \<Rightarrow> slab_stats_automove list \<Rightarrow> 'f slab_automove \<Rightarrow> ('f slab_automove \<times> int \<times> int) res" where
  "slab_automove_run F iam sam a =
     (let d = \<lparr>oldest = -1, oldest_age = 0, youngest = -1, youngest_age = -1, youngest_evicting = False, src = -1, dst = -1\<rparr>;
          a = a\<lparr>iam_after := iam, sam_after := sam\<rparr> in
      bindE (evicted_sum (iam_before a) (iam_after a) classes 0) (\<lambda>evicted_total.
      let a = a\<lparr>window_cur := window_cur a + 1\<rparr> in
      bindE (automove_loop F evicted_total classes (a, d)) (\<lambda>(a, d).
      let a = a\<lparr>iam_before := iam_after a, sam_before := sam_after a\<rparr>;
          d = (if youngest d \<noteq> -1 \<and> oldest d \<noteq> -1 \<and> window_cur a > window_size a
                  \<and> f_younger F (youngest_age d) (oldest_age d) \<and> youngest_evicting d
               then d\<lparr>src := oldest d, dst := youngest d\<rparr> else d)
      in Inr (a, src d, dst d))))"

section \<open>Safety and the decisions\<close>

definition automove_ok :: "'f slab_automove \<Rightarrow> bool" where
  "automove_ok a \<longleftrightarrow> window_size a \<noteq> 0 \<and> length (window_data a) = 64 * unat (window_size a)
     \<and> length (iam_before a) = 64 \<and> length (sam_before a) = 64"

definition after_ok :: "item_stats_automove list \<Rightarrow> slab_stats_automove list \<Rightarrow> 'f slab_automove \<Rightarrow> bool" where
  "after_ok iam sam a \<longleftrightarrow> iam_after a = iam \<and> sam_after a = sam \<and> length iam = 64 \<and> length sam = 64"

lemma window_sum_total: "n \<le> length wds \<Longrightarrow> \<exists>w'. window_sum F wds w n = Inr w'"
  by (induction F wds w n rule: window_sum.induct) auto

lemma evicted_sum_total:
  "length ib = 64 \<Longrightarrow> length ia = 64 \<Longrightarrow> \<forall>n \<in> set ns. n < 64 \<Longrightarrow> \<exists>t. evicted_sum ib ia ns tot = Inr t"
  by (induction ns arbitrary: tot) auto

text \<open>
  What is known of the local variables once the classes below \<open>k\<close> have been seen: a source has pages to give,
  and a class that is both the oldest and the youngest has one age.
\<close>

definition oldest_ok :: "slab_stats_automove list \<Rightarrow> nat \<Rightarrow> int \<Rightarrow> bool" where
  "oldest_ok sam k n \<longleftrightarrow> n = -1 \<or> 1 \<le> n \<and> n < int k \<and> total_pages (sam ! nat n) > 2"

definition youngest_ok :: "nat \<Rightarrow> int \<Rightarrow> bool" where
  "youngest_ok k n \<longleftrightarrow> n = -1 \<or> 1 \<le> n \<and> n < int k"

definition reclaim_ok :: "slab_stats_automove list \<Rightarrow> nat \<Rightarrow> int \<Rightarrow> int \<Rightarrow> bool" where
  "reclaim_ok sam k s t \<longleftrightarrow> s = -1 \<and> t = -1 \<or> t = 0 \<and> 1 \<le> s \<and> s < int k \<and> enough_to_reclaim (sam ! nat s)"

definition decision_ok :: "slab_stats_automove list \<Rightarrow> nat \<Rightarrow> decision \<Rightarrow> bool" where
  "decision_ok sam k d \<longleftrightarrow> oldest_ok sam k (oldest d) \<and> youngest_ok k (youngest d) \<and> reclaim_ok sam k (src d) (dst d)
     \<and> (oldest d = youngest d \<and> oldest d \<noteq> -1 \<longrightarrow> oldest_age d = youngest_age d)"

lemma ok_mono:
  assumes "k \<le> m"
  shows "oldest_ok sam k n \<Longrightarrow> oldest_ok sam m n" and "youngest_ok k n \<Longrightarrow> youngest_ok m n"
    and "reclaim_ok sam k n t \<Longrightarrow> reclaim_ok sam m n t"
  using assms by (auto simp: oldest_ok_def youngest_ok_def reclaim_ok_def)

lemma ok_new:
  assumes "1 \<le> k"
  shows "total_pages (sam ! k) > 2 \<Longrightarrow> oldest_ok sam (Suc k) (int k)" and "youngest_ok (Suc k) (int k)"
    and "enough_to_reclaim (sam ! k) \<Longrightarrow> reclaim_ok sam (Suc k) (int k) 0"
    and "\<not> oldest_ok sam k (int k)" and "\<not> youngest_ok k (int k)"
  using assms by (auto simp: oldest_ok_def youngest_ok_def reclaim_ok_def)

lemma decision_ok_mono: "decision_ok sam k d \<Longrightarrow> k \<le> m \<Longrightarrow> decision_ok sam m d"
  by (simp add: decision_ok_def ok_mono)

lemma decision_ok_Suc:
  assumes "decision_ok sam k d" and "1 \<le> k"
  shows "decision_ok sam (Suc k) d"
    and "enough_to_reclaim (sam ! k) \<Longrightarrow> decision_ok sam (Suc k) (d\<lparr>src := int k, dst := 0\<rparr>)"
    and "total_pages (sam ! k) > 2 \<Longrightarrow> decision_ok sam (Suc k) (d\<lparr>oldest := int k, oldest_age := age\<rparr>)"
    and "decision_ok sam (Suc k) (d\<lparr>youngest := int k, youngest_age := age, youngest_evicting := e\<rparr>)"
    and "total_pages (sam ! k) > 2 \<Longrightarrow>
      decision_ok sam (Suc k) (d\<lparr>oldest := int k, oldest_age := age, youngest := int k, youngest_age := age, youngest_evicting := e\<rparr>)"
proof -
  have d: "oldest_ok sam (Suc k) (oldest d)" "youngest_ok (Suc k) (youngest d)" "reclaim_ok sam (Suc k) (src d) (dst d)"
    "int k \<noteq> youngest d" "oldest d \<noteq> int k"
    using assms(1) ok_mono [of k "Suc k"] ok_new(4,5) [OF assms(2)] by (auto simp: decision_ok_def)
  have same: "oldest d = youngest d \<and> oldest d \<noteq> -1 \<longrightarrow> oldest_age d = youngest_age d" using assms(1) by (simp add: decision_ok_def)
  note up = decision_ok_def ok_new [OF assms(2)] d
  show "decision_ok sam (Suc k) d" using same by (simp add: up)
  show "decision_ok sam (Suc k) (d\<lparr>src := int k, dst := 0\<rparr>)" if "enough_to_reclaim (sam ! k)" using same that by (simp add: up)
  show "decision_ok sam (Suc k) (d\<lparr>oldest := int k, oldest_age := age\<rparr>)" if "total_pages (sam ! k) > 2" using that by (simp add: up)
  show "decision_ok sam (Suc k) (d\<lparr>youngest := int k, youngest_age := age, youngest_evicting := e\<rparr>)" by (simp add: up)
  show "decision_ok sam (Suc k) (d\<lparr>oldest := int k, oldest_age := age, youngest := int k, youngest_age := age, youngest_evicting := e\<rparr>)"
    if "total_pages (sam ! k) > 2" using that by (simp add: up)
qed

lemma judge_ok:
  assumes "decision_ok sam k d" and "1 \<le> k" and "judge F ws k (sam ! k) w_sum wd d = (d', stop)"
  shows "decision_ok sam (Suc k) d'"
proof -
  let ?age = "w_age w_sum div ucast ws"
  let ?o = "?age > oldest_age d \<and> total_pages (sam ! k) > 2"
  let ?y = "?age < youngest_age d \<and> (evicted_seen w_sum > ucast (ws div 2) \<or> f_quarter F (evicted_ratio w_sum) ws)"
  have d': "d' = fst (judge F ws k (sam ! k) w_sum wd d)" using assms(3) by simp
  show ?thesis unfolding d' judge_def Let_def MIN_PAGES_FOR_SOURCE_def using decision_ok_Suc [OF assms(1,2)]
    by (cases "enough_to_reclaim (sam ! k) \<and> w_dirty w_sum = 0"; cases ?o; cases ?y) simp_all
qed

lemma automove_class_ok:
  assumes "automove_ok a" and "after_ok iam sam a" and "decision_ok sam k d" and "1 \<le> k" and "k < 64"
  shows "\<exists>a' d' stop. automove_class F tot k (a, d) = Inr ((a', d'), stop)
     \<and> automove_ok a' \<and> after_ok iam sam a' \<and> decision_ok sam (Suc k) d'"
proof -
  let ?w = "unat (window_size a)" and ?pos = "k * unat (window_size a) + unat (window_cur a mod window_size a)"
  have "0 < ?w" using assms(1) by (simp add: automove_ok_def unat_gt_0)
  then have m: "unat (window_cur a mod window_size a) < ?w" by (simp add: unat_mod)
  have le: "k * ?w + ?w \<le> 64 * ?w" using assms(5) mult_le_mono1 [of "Suc k" 64 ?w] by simp
  have len: "length (window_data a) = 64 * ?w" using assms(1) by (simp add: automove_ok_def)
  have p: "?pos < length (window_data a)" "?w \<le> length (drop (k * ?w) ((window_data a)[?pos := empty_window F]))"
    unfolding length_drop length_list_update len using m le by linarith+
  obtain w_sum where w: "window_sum F (drop (k * ?w) ((window_data a)[?pos := empty_window F])) (empty_window F) ?w = Inr w_sum"
    using window_sum_total [OF p(2)] by blast
  let ?wd = "new_window F tot (iam_before a ! k) (iam ! k) (sam_before a ! k) (sam ! k)"
  obtain d' stop where j: "judge F (window_size a) k (sam ! k) w_sum ?wd d = (d', stop)" by fastforce
  have "automove_class F tot k (a, d) = Inr ((a\<lparr>window_data := (window_data a)[?pos := empty_window F, ?pos := ?wd]\<rparr>, d'), stop)"
    using assms(1,2,5) p(1) w j by (simp add: automove_class_def automove_ok_def after_ok_def Let_def)
  then show ?thesis using assms(1,2) judge_ok [OF assms(3,4) j] by (simp add: automove_ok_def after_ok_def)
qed

lemma automove_loop_ok:
  assumes "automove_ok a" and "after_ok iam sam a" and "decision_ok sam k d" and "1 \<le> k" and "k + j = 64"
  shows "\<exists>a' d'. automove_loop F tot [k..<64] (a, d) = Inr (a', d')
     \<and> automove_ok a' \<and> after_ok iam sam a' \<and> decision_ok sam 64 d'"
  using assms
proof (induction j arbitrary: k a d)
  case (Suc j)
  then have k: "k < 64" by simp
  obtain a1 d1 stop where s: "automove_class F tot k (a, d) = Inr ((a1, d1), stop)"
    "automove_ok a1" "after_ok iam sam a1" "decision_ok sam (Suc k) d1"
    using automove_class_ok [OF Suc.prems(1-4) k] by blast
  have "decision_ok sam 64 d1" using decision_ok_mono [OF s(4)] k by simp
  then show ?case using Suc.IH [OF s(2,3,4)] s Suc.prems(4,5) k by (cases stop) (auto simp: upt_conv_Cons)
qed auto

text \<open>
  The decision of a run: none, a class with free pages gives to the global pool, or the oldest class, which has
  pages to give, to another one.
\<close>

definition good_decision :: "slab_stats_automove list \<Rightarrow> int \<Rightarrow> int \<Rightarrow> bool" where
  "good_decision sam s d \<longleftrightarrow> s = -1 \<and> d = -1
     \<or> 1 \<le> s \<and> s < 64 \<and> d = 0 \<and> enough_to_reclaim (sam ! nat s)
     \<or> 1 \<le> s \<and> s < 64 \<and> 1 \<le> d \<and> d < 64 \<and> s \<noteq> d \<and> total_pages (sam ! nat s) > 2"

lemma slab_automove_run_ok:
  assumes "automove_ok a" and "length iam = 64" and "length sam = 64" and younger: "\<And>y old. f_younger F y old \<Longrightarrow> y < old"
  shows "\<exists>a' s d. slab_automove_run F iam sam a = Inr (a', s, d) \<and> automove_ok a' \<and> good_decision sam s d"
proof -
  let ?a = "a\<lparr>iam_after := iam, sam_after := sam\<rparr>"
  let ?d = "\<lparr>oldest = -1, oldest_age = 0, youngest = -1, youngest_age = -1, youngest_evicting = False, src = -1, dst = -1\<rparr>"
  have cl: "classes = [1..<64]" by (simp add: classes_def POWER_SMALLEST_def MAX_NUMBER_OF_SLAB_CLASSES_def)
  obtain tot where t: "evicted_sum (iam_before ?a) (iam_after ?a) classes 0 = Inr tot"
    using evicted_sum_total [of "iam_before a" iam "[1..<64]" 0] assms(1,2) by (auto simp: cl automove_ok_def)
  let ?a1 = "?a\<lparr>window_cur := window_cur ?a + 1\<rparr>"
  have "automove_ok ?a1" "after_ok iam sam ?a1" "decision_ok sam 1 ?d"
    using assms(1-3) by (simp_all add: automove_ok_def after_ok_def decision_ok_def oldest_ok_def youngest_ok_def reclaim_ok_def)
  from automove_loop_ok [OF this, of 63 F tot]
  obtain a2 d2 where l: "automove_loop F tot [1..<64] (?a1, ?d) = Inr (a2, d2)"
    "automove_ok a2" "after_ok iam sam a2" "decision_ok sam 64 d2" by auto
  have "y = old \<Longrightarrow> \<not> f_younger F y old" for y old using younger [of y old] by blast
  then show ?thesis using t l unfolding slab_automove_run_def Let_def cl
    by (auto simp: automove_ok_def after_ok_def good_decision_def decision_ok_def oldest_ok_def youngest_ok_def reclaim_ok_def)
qed

fun automove_runs ::
    "'f float_ops \<Rightarrow> (item_stats_automove list \<times> slab_stats_automove list) list \<Rightarrow> 'f slab_automove \<Rightarrow> 'f slab_automove res" where
  "automove_runs F [] a = Inr a"
| "automove_runs F ((iam, sam) # rest) a = bindE (slab_automove_run F iam sam a) (\<lambda>(a, s, d). automove_runs F rest a)"

lemma automove_runs_ok:
  assumes "automove_ok a" and "\<forall>(iam, sam) \<in> set hist. length iam = 64 \<and> length sam = 64"
    and "\<And>y old. f_younger F y old \<Longrightarrow> y < old"
  shows "\<exists>a'. automove_runs F hist a = Inr a' \<and> automove_ok a'"
  using assms(1,2)
proof (induction hist arbitrary: a)
  case (Cons x hist)
  obtain iam sam where x: "x = (iam, sam)" by fastforce
  then have l: "length iam = 64" "length sam = 64" using Cons.prems(2) by auto
  show ?case using slab_automove_run_ok [OF Cons.prems(1) l assms(3)] Cons.IH Cons.prems(2) x by fastforce
qed simp

lemma slab_automove_init_ok:
  assumes "slab_automove_init F ok1 ok2 wsize iam sam = Some a" and "0 < wsize" and "wsize < 67108864"
    and "length iam = 64" and "length sam = 64"
  shows "automove_ok a"
proof -
  have "unat wsize < 67108864" using assms(3) by (simp add: word_less_nat_alt)
  then have "unat (wsize * 64) = unat wsize * 64" by (subst unat_mult_lem [THEN iffD1]) simp_all
  then show ?thesis using assms by (auto simp: slab_automove_init_def automove_ok_def split: if_splits)
qed


definition idle_items :: "item_stats_automove list" where
  "idle_items = replicate 64 \<lparr>am_evicted = 0, am_outofmemory = 0, am_age = 0\<rparr>"

definition idle_slabs :: "slab_stats_automove list" where
  "idle_slabs = replicate 64 \<lparr>chunks_per_page = 10, chunk_size = 96, free_chunks = 40, total_pages = 4\<rparr>"

definition exact_floats :: "rat float_ops" where
  "exact_floats = \<lparr>f_zero = 0, f_add = (+), f_ratio = (\<lambda>x y. rat_of_nat (unat x) / rat_of_nat (unat y)),
     f_quarter = (\<lambda>x n. x / rat_of_nat (unat n) > 1 / 4), f_younger = (\<lambda>y old. rat_of_nat (unat y) < rat_of_nat (unat old) * (4 / 5))\<rparr>"


end
