(* ===== verification/Mc_Automove_Ext.thy ===== *)
theory Mc_Automove_Ext
  imports Mc_Automove
begin

text \<open>
  The mover of slab pages with external storage, \<^verbatim>\<open>src/memcached/slab_automove_extstore.c\<close>. Beside the ages it watches
  the global page pool and the free chunks of each class. The products with the configured ratios are
  arguments: \<open>scale\<close> for the share of memory kept free, \<open>younger\<close> for the comparison of ages. The factors 2.5
  and 1.5 are exact in double precision and are comparisons of integers.
\<close>

section \<open>The code\<close>

definition MEMCHECK_PERIOD :: u32 where "MEMCHECK_PERIOD = 60"

record xwindow_data =
  x_age :: u64
  x_dirty :: u64
  x_evicted :: u64
  excess_free :: u32
  relaxed :: u32

record window_global =
  pool_low :: u32
  pool_high :: u32

record slab_automove_ext =
  xwindow_data :: "xwindow_data list"
  xwindow_global :: "window_global list"
  ext_free_memchunks :: "u32 list"
  xwindow_size :: u32
  xwindow_cur :: u32
  item_size :: u32
  last_memcheck_run :: u32
  pool_filled_once :: bool
  free_mem :: "u32 list"
  xiam_before :: "item_stats_automove list"
  xiam_after :: "item_stats_automove list"
  xsam_before :: "slab_stats_automove list"
  xsam_after :: "slab_stats_automove list"

definition empty_xwindow :: xwindow_data where
  "empty_xwindow = \<lparr>x_age = 0, x_dirty = 0, x_evicted = 0, excess_free = 0, relaxed = 0\<rparr>"

definition empty_global :: window_global where
  "empty_global = \<lparr>pool_low = 0, pool_high = 0\<rparr>"

definition slab_automove_extstore_init ::
    "bool \<Rightarrow> bool \<Rightarrow> bool \<Rightarrow> u32 \<Rightarrow> u32 \<Rightarrow> u32 list \<Rightarrow> item_stats_automove list \<Rightarrow> slab_stats_automove list \<Rightarrow> slab_automove_ext option" where
  "slab_automove_extstore_init ok1 ok2 ok3 wsize isize memchunks iam sam =
     (if \<not> ok1 then None
      else if \<not> ok2 \<or> \<not> ok3 then None
      else Some \<lparr>xwindow_data = replicate (unat (wsize * 64)) empty_xwindow, xwindow_global = replicate (unat wsize) empty_global,
        ext_free_memchunks = memchunks, xwindow_size = wsize, xwindow_cur = 0, item_size = isize, last_memcheck_run = 0,
        pool_filled_once = False, free_mem = replicate 64 0, xiam_before = iam, xiam_after = [], xsam_before = sam, xsam_after = []\<rparr>)"

definition add_xwindow :: "xwindow_data \<Rightarrow> xwindow_data \<Rightarrow> xwindow_data" where
  "add_xwindow w d = \<lparr>x_age = x_age w + x_age d, x_dirty = x_dirty w + x_dirty d, x_evicted = x_evicted w + x_evicted d,
     excess_free = excess_free w + excess_free d, relaxed = relaxed w + relaxed d\<rparr>"

fun xwindow_sum :: "xwindow_data list \<Rightarrow> xwindow_data \<Rightarrow> nat \<Rightarrow> xwindow_data res" where
  "xwindow_sum wds w 0 = Inr w"
| "xwindow_sum [] w (Suc n) = Inl OutOfBounds"
| "xwindow_sum (d # wds) w (Suc n) = xwindow_sum wds (add_xwindow w d) n"

fun window_global_sum :: "window_global list \<Rightarrow> window_global \<Rightarrow> nat \<Rightarrow> window_global res" where
  "window_global_sum wgs w 0 = Inr w"
| "window_global_sum [] w (Suc n) = Inl OutOfBounds"
| "window_global_sum (d # wgs) w (Suc n) =
     window_global_sum wgs \<lparr>pool_low = pool_low w + pool_low d, pool_high = pool_high w + pool_high d\<rparr> n"

text \<open>\<open>count\<close> and \<open>mem_limit_reached\<close> are what \<open>global_page_pool_size\<close> gives.\<close>

definition global_pool_check :: "u32 \<Rightarrow> bool \<Rightarrow> slab_automove_ext \<Rightarrow> slab_automove_ext res" where
  "global_pool_check count mem_limit_reached a =
     bindE (idx (free_mem a) 0) (\<lambda>free.
     if xwindow_size a = 0 then Inl DivByZero
     else let pos = unat (xwindow_cur a mod xwindow_size a) in
     bindE (upd (xwindow_global a) pos empty_global) (\<lambda>wgs.
       let a = a\<lparr>xwindow_global := wgs\<rparr> in
       Inr (if \<not> mem_limit_reached then a
            else if count < free div 2 then a\<lparr>xwindow_global := wgs[pos := empty_global\<lparr>pool_low := 1\<rparr>], pool_filled_once := True\<rparr>
            else if count > free then a\<lparr>xwindow_global := wgs[pos := empty_global\<lparr>pool_high := 1\<rparr>]\<rparr>
            else a\<lparr>pool_filled_once := True\<rparr>)))"

text \<open>The number of chunks of a class to hold free.\<close>

definition hold_free :: "(int \<Rightarrow> u32) \<Rightarrow> slab_stats_automove \<Rightarrow> u32" where
  "hold_free scale sam =
     (let h = scale (total_pages sam * int (unat (chunks_per_page sam))) in
      if 3 * unat (chunks_per_page sam) > 2 * unat h then word_of_nat (3 * unat (chunks_per_page sam) div 2) else h)"

fun memcheck_loop :: "(int \<Rightarrow> u32) \<Rightarrow> nat list \<Rightarrow> slab_automove_ext \<times> u32 \<Rightarrow> (slab_automove_ext \<times> u32) res" where
  "memcheck_loop scale [] st = Inr st"
| "memcheck_loop scale (n # ns) (a, tot) =
     bindE (idx (xsam_after a) n) (\<lambda>sam.
       let tot = tot + word_of_int (total_pages sam); h = hold_free scale sam in
       bindE (upd (free_mem a) n h) (\<lambda>fm.
       let a = a\<lparr>free_mem := fm\<rparr> in
       bindE (idx (ext_free_memchunks a) n) (\<lambda>old.
       if old \<noteq> h \<and> pool_filled_once a
       then bindE (upd (ext_free_memchunks a) n h) (\<lambda>ms. memcheck_loop scale ns (a\<lparr>ext_free_memchunks := ms\<rparr>, tot))
       else memcheck_loop scale ns (a, tot))))"

definition memcheck :: "(int \<Rightarrow> u32) \<Rightarrow> u32 \<Rightarrow> slab_automove_ext \<Rightarrow> slab_automove_ext res" where
  "memcheck scale current_time a =
     (if current_time < last_memcheck_run a + MEMCHECK_PERIOD then Inr a
      else let a = a\<lparr>last_memcheck_run := current_time\<rparr> in
      bindE (memcheck_loop scale [1..<MAX_NUMBER_OF_SLAB_CLASSES] (a, 0)) (\<lambda>(a, tot).
      bindE (idx (xsam_after a) 0) (\<lambda>sam0.
      let tot = tot + word_of_int (total_pages sam0) in
      bindE (upd (free_mem a) 0 (scale (int (unat tot)))) (\<lambda>fm. Inr (a\<lparr>free_mem := fm\<rparr>)))))"

definition get_window_data :: "slab_automove_ext \<Rightarrow> nat \<Rightarrow> nat res" where
  "get_window_data a cls =
     (if xwindow_size a = 0 then Inl DivByZero
      else Inr (cls * unat (xwindow_size a) + unat (xwindow_cur a mod xwindow_size a)))"

record choice =
  c_oldest :: int
  c_oldest_age :: u64
  c_youngest :: int
  c_youngest_age :: u64
  too_free :: bool
  c_src :: int
  c_dst :: int

definition xnew_window ::
    "u32 \<Rightarrow> item_stats_automove \<Rightarrow> item_stats_automove \<Rightarrow> slab_stats_automove \<Rightarrow> slab_stats_automove \<Rightarrow> xwindow_data" where
  "xnew_window fm ib ia sb sa =
     (let wd = empty_xwindow;
          wd = (if am_evicted ia - am_evicted ib > 0 \<or> am_outofmemory ia - am_outofmemory ib > 0
                then wd\<lparr>x_evicted := 1, x_dirty := 1\<rparr> else wd);
          wd = (if total_pages sa - total_pages sb > 0 then wd\<lparr>x_dirty := 1\<rparr> else wd);
          wd = (if free_chunks sa > int (unat (fm * 2)) \<and> fm > 0 then wd\<lparr>excess_free := 1\<rparr> else wd)
      in wd\<lparr>x_age := ucast (am_age ia)\<rparr>)"

definition xjudge ::
    "u32 \<Rightarrow> bool \<Rightarrow> bool \<Rightarrow> nat \<Rightarrow> slab_stats_automove \<Rightarrow> xwindow_data \<Rightarrow> choice \<Rightarrow> choice" where
  "xjudge wsize small_slab free_enough n sa w_sum c =
     (let age = x_age w_sum div ucast wsize;
          c = (if enough_to_reclaim sa \<and> x_dirty w_sum = 0 then
                 if small_slab then c\<lparr>c_src := int n, c_dst := 0, too_free := True\<rparr>
                 else if excess_free w_sum \<ge> wsize then c\<lparr>c_src := int n, c_dst := 0, too_free := True\<rparr>
                 else c
               else c)
      in if \<not> small_slab then
           let c = (if age > c_oldest_age c \<and> total_pages sa > MIN_PAGES_FOR_SOURCE
                    then c\<lparr>c_oldest := int n, c_oldest_age := age\<rparr> else c)
           in if age < c_youngest_age c \<and> total_pages sa \<noteq> 0 \<and> excess_free w_sum < wsize \<and> \<not> (relaxed w_sum \<noteq> 0 \<and> free_enough)
              then c\<lparr>c_youngest := int n, c_youngest_age := age\<rparr> else c
         else c)"

definition xclass :: "nat \<Rightarrow> slab_automove_ext \<times> choice \<Rightarrow> (slab_automove_ext \<times> choice) res" where
  "xclass n st = (case st of (a, c) \<Rightarrow>
     bindE (idx (xsam_before a) n) (\<lambda>sb.
     let small_slab = chunk_size sb < item_size a in
     bindE (get_window_data a n) (\<lambda>pos.
     bindE (xwindow_sum (drop (n * unat (xwindow_size a)) (xwindow_data a)) empty_xwindow (unat (xwindow_size a))) (\<lambda>w_sum.
     bindE (idx (xiam_before a) n) (\<lambda>ib. bindE (idx (xiam_after a) n) (\<lambda>ia. bindE (idx (xsam_after a) n) (\<lambda>sa.
     bindE (idx (free_mem a) n) (\<lambda>fm.
     let free_enough = free_chunks sa > int (unat fm) in
     bindE (upd (xwindow_data a) pos (xnew_window fm ib ia sb sa)) (\<lambda>wds.
       Inr (a\<lparr>xwindow_data := wds\<rparr>, xjudge (xwindow_size a) small_slab free_enough n sa w_sum c))))))))))"

fun xloop :: "nat list \<Rightarrow> slab_automove_ext \<times> choice \<Rightarrow> (slab_automove_ext \<times> choice) res" where
  "xloop [] st = Inr st"
| "xloop (n # ns) st = bindE (xclass n st) (xloop ns)"

definition relax :: "slab_automove_ext \<Rightarrow> nat \<Rightarrow> slab_automove_ext res" where
  "relax a n = bindE (get_window_data a n) (\<lambda>pos. bindE (idx (xwindow_data a) pos) (\<lambda>wd.
     bindE (upd (xwindow_data a) pos (wd\<lparr>relaxed := 1\<rparr>)) (\<lambda>wds. Inr (a\<lparr>xwindow_data := wds\<rparr>))))"

text \<open>Whether the youngest class has used up the chunks it has.\<close>

definition absorbed :: "slab_automove_ext \<Rightarrow> nat \<Rightarrow> bool res" where
  "absorbed a n = bindE (idx (xsam_after a) n) (\<lambda>sa. bindE (idx (free_mem a) n) (\<lambda>fm. Inr (free_chunks sa \<le> int (unat fm))))"

text \<open>The decision after the loop.\<close>

definition xdecide ::
    "(u64 \<Rightarrow> u64 \<Rightarrow> bool) \<Rightarrow> window_global \<Rightarrow> slab_automove_ext \<Rightarrow> choice \<Rightarrow> (slab_automove_ext \<times> int \<times> int) res" where
  "xdecide younger wg a c =
     (if xwindow_cur a < xwindow_size a then Inr (a, c_src c, c_dst c)
      else if pool_high wg \<ge> xwindow_size a \<and> pool_low wg = 0 \<and> c_youngest c \<noteq> -1 then
        bindE (absorbed a (nat (c_youngest c))) (\<lambda>full.
        let (s, d) = (if full then (0, c_youngest c) else (c_src c, c_dst c)) in
        bindE (relax a (nat (c_youngest c))) (\<lambda>a. Inr (a, s, d)))
      else if \<not> too_free c \<and> pool_low wg \<noteq> 0 \<and> c_oldest c \<noteq> -1 then Inr (a, c_oldest c, 0)
      else if \<not> too_free c \<and> c_youngest c \<noteq> -1 \<and> c_oldest c \<noteq> -1 \<and> c_youngest c \<noteq> c_oldest c
              \<and> younger (c_youngest_age c) (c_oldest_age c) then
        bindE (relax a (nat (c_youngest c))) (\<lambda>a.
        bindE (absorbed a (nat (c_youngest c))) (\<lambda>full.
          Inr (if full then (a, 0, c_youngest c) else (a, c_src c, c_dst c))))
      else Inr (a, c_src c, c_dst c))"

definition slab_automove_extstore_run ::
    "(int \<Rightarrow> u32) \<Rightarrow> (u64 \<Rightarrow> u64 \<Rightarrow> bool) \<Rightarrow> u32 \<Rightarrow> bool \<Rightarrow> u32 \<Rightarrow> item_stats_automove list \<Rightarrow> slab_stats_automove list
       \<Rightarrow> slab_automove_ext \<Rightarrow> (slab_automove_ext \<times> int \<times> int) res" where
  "slab_automove_extstore_run scale younger count mem_limit_reached current_time iam sam a =
     (let c = \<lparr>c_oldest = -1, c_oldest_age = 0, c_youngest = -1, c_youngest_age = -1, too_free = False, c_src = -1, c_dst = -1\<rparr> in
      bindE (global_pool_check count mem_limit_reached a) (\<lambda>a.
      bindE (window_global_sum (xwindow_global a) empty_global (unat (xwindow_size a))) (\<lambda>wg_sum.
      let a = a\<lparr>xiam_after := iam, xsam_after := sam\<rparr>;
          a = a\<lparr>xwindow_cur := xwindow_cur a + 1\<rparr> in
      bindE (memcheck scale current_time a) (\<lambda>a.
      bindE (xloop classes (a, c)) (\<lambda>(a, c).
        xdecide younger wg_sum (a\<lparr>xiam_before := xiam_after a, xsam_before := xsam_after a\<rparr>) c)))))"

section \<open>Safety and the decisions\<close>

definition ext_ok :: "slab_automove_ext \<Rightarrow> bool" where
  "ext_ok a \<longleftrightarrow> xwindow_size a \<noteq> 0 \<and> length (xwindow_data a) = 64 * unat (xwindow_size a)
     \<and> length (xwindow_global a) = unat (xwindow_size a) \<and> length (ext_free_memchunks a) = 64 \<and> length (free_mem a) = 64
     \<and> length (xiam_before a) = 64 \<and> length (xsam_before a) = 64"

definition ext_after :: "item_stats_automove list \<Rightarrow> slab_stats_automove list \<Rightarrow> slab_automove_ext \<Rightarrow> bool" where
  "ext_after iam sam a \<longleftrightarrow> xiam_after a = iam \<and> xsam_after a = sam \<and> length iam = 64 \<and> length sam = 64"

lemma xwindow_sum_total: "n \<le> length wds \<Longrightarrow> \<exists>w'. xwindow_sum wds w n = Inr w'"
  by (induction wds w n rule: xwindow_sum.induct) auto

lemma window_global_sum_total: "n \<le> length wgs \<Longrightarrow> \<exists>w'. window_global_sum wgs w n = Inr w'"
  by (induction wgs w n rule: window_global_sum.induct) auto

lemma mod_window: "w \<noteq> 0 \<Longrightarrow> unat (c mod w) < unat w" for c w :: u32
  by (simp add: unat_mod unat_gt_0)

lemma global_pool_check_ok: "ext_ok a \<Longrightarrow> \<exists>a'. global_pool_check count reached a = Inr a' \<and> ext_ok a'"
  using mod_window [of "xwindow_size a" "xwindow_cur a"]
  by (simp add: ext_ok_def global_pool_check_def Let_def)

lemma memcheck_loop_ok:
  assumes "ext_ok a" and "ext_after iam sam a" and "\<forall>n \<in> set ns. n < 64"
  shows "\<exists>a' tot'. memcheck_loop scale ns (a, tot) = Inr (a', tot') \<and> ext_ok a' \<and> ext_after iam sam a'"
  using assms
proof (induction ns arbitrary: a tot)
  case (Cons n ns)
  let ?h = "hold_free scale (sam ! n)" and ?tot = "tot + word_of_int (total_pages (sam ! n))"
  let ?a1 = "a\<lparr>free_mem := (free_mem a)[n := ?h]\<rparr>"
  let ?a2 = "?a1\<lparr>ext_free_memchunks := (ext_free_memchunks a)[n := ?h]\<rparr>"
  have "ext_ok ?a1" "ext_after iam sam ?a1" "ext_ok ?a2" "ext_after iam sam ?a2"
    using Cons.prems by (simp_all add: ext_ok_def ext_after_def)
  then have "\<exists>a' tot'. memcheck_loop scale ns (?a1, ?tot) = Inr (a', tot') \<and> ext_ok a' \<and> ext_after iam sam a'"
    "\<exists>a' tot'. memcheck_loop scale ns (?a2, ?tot) = Inr (a', tot') \<and> ext_ok a' \<and> ext_after iam sam a'"
    using Cons.IH Cons.prems(3) by simp_all
  then show ?case using Cons.prems by (simp add: ext_ok_def ext_after_def Let_def)
qed simp

lemma memcheck_ok:
  assumes "ext_ok a" and "ext_after iam sam a"
  shows "\<exists>a'. memcheck scale now a = Inr a' \<and> ext_ok a' \<and> ext_after iam sam a'"
proof -
  let ?a = "a\<lparr>last_memcheck_run := now\<rparr>"
  have "ext_ok ?a" "ext_after iam sam ?a" using assms by (simp_all add: ext_ok_def ext_after_def)
  then obtain a1 tot where "memcheck_loop scale [1..<64] (?a, 0) = Inr (a1, tot)" "ext_ok a1" "ext_after iam sam a1"
    using memcheck_loop_ok [of ?a iam sam "[1..<64]"] by fastforce
  then show ?thesis using assms by (simp add: memcheck_def MAX_NUMBER_OF_SLAB_CLASSES_def Let_def ext_ok_def ext_after_def)
qed

lemma window_pos:
  assumes "ext_ok a" and "k < 64"
  shows "\<exists>pos. get_window_data a k = Inr pos \<and> pos < length (xwindow_data a)"
    and "unat (xwindow_size a) \<le> length (drop (k * unat (xwindow_size a)) (xwindow_data a))"
proof -
  let ?w = "unat (xwindow_size a)"
  have le: "k * ?w + ?w \<le> 64 * ?w" using assms(2) mult_le_mono1 [of "Suc k" 64 ?w] by simp
  have len: "length (xwindow_data a) = 64 * ?w" "xwindow_size a \<noteq> 0" using assms(1) by (simp_all add: ext_ok_def)
  have "k * ?w + unat (xwindow_cur a mod xwindow_size a) < 64 * ?w" using le mod_window [OF len(2), of "xwindow_cur a"] by linarith
  then show "\<exists>pos. get_window_data a k = Inr pos \<and> pos < length (xwindow_data a)" using len by (simp add: get_window_data_def)
  show "?w \<le> length (drop (k * ?w) (xwindow_data a))" unfolding length_drop len(1) using le by linarith
qed

definition choice_ok :: "slab_stats_automove list \<Rightarrow> nat \<Rightarrow> choice \<Rightarrow> bool" where
  "choice_ok sam k c \<longleftrightarrow> oldest_ok sam k (c_oldest c) \<and> youngest_ok k (c_youngest c) \<and> reclaim_ok sam k (c_src c) (c_dst c)"

lemma choice_ok_Suc: "choice_ok sam k c \<Longrightarrow> choice_ok sam (Suc k) c"
  using ok_mono [of k "Suc k"] by (simp add: choice_ok_def)

lemma choice_ok_upd:
  assumes "choice_ok sam (Suc k) c" and "1 \<le> k"
  shows "enough_to_reclaim (sam ! k) \<Longrightarrow> choice_ok sam (Suc k) (c\<lparr>c_src := int k, c_dst := 0, too_free := True\<rparr>)"
    and "total_pages (sam ! k) > 2 \<Longrightarrow> choice_ok sam (Suc k) (c\<lparr>c_oldest := int k, c_oldest_age := age\<rparr>)"
    and "choice_ok sam (Suc k) (c\<lparr>c_youngest := int k, c_youngest_age := age\<rparr>)"
  using assms ok_new [OF assms(2)] by (simp_all add: choice_ok_def)

lemma xjudge_ok:
  assumes "choice_ok sam k c" and "1 \<le> k"
  shows "choice_ok sam (Suc k) (xjudge ws small enough k (sam ! k) w_sum c)"
  using choice_ok_Suc [OF assms(1)] choice_ok_upd [OF _ assms(2)]
  by (simp add: xjudge_def Let_def MIN_PAGES_FOR_SOURCE_def)

lemma xclass_ok:
  assumes "ext_ok a" and "ext_after iam sam a" and "choice_ok sam k c" and "1 \<le> k" and "k < 64"
  shows "\<exists>a' c'. xclass k (a, c) = Inr (a', c') \<and> ext_ok a' \<and> ext_after iam sam a' \<and> choice_ok sam (Suc k) c'"
proof -
  obtain pos where p: "get_window_data a k = Inr pos" "pos < length (xwindow_data a)" using window_pos(1) [OF assms(1,5)] by blast
  obtain w where w: "xwindow_sum (drop (k * unat (xwindow_size a)) (xwindow_data a)) empty_xwindow (unat (xwindow_size a)) = Inr w"
    using xwindow_sum_total [OF window_pos(2) [OF assms(1,5)]] by blast
  show ?thesis using assms(1,2,5) p w xjudge_ok [OF assms(3,4)] by (simp add: xclass_def ext_ok_def ext_after_def Let_def)
qed

lemma xloop_ok:
  assumes "ext_ok a" and "ext_after iam sam a" and "choice_ok sam k c" and "1 \<le> k" and "k + j = 64"
  shows "\<exists>a' c'. xloop [k..<64] (a, c) = Inr (a', c') \<and> ext_ok a' \<and> ext_after iam sam a' \<and> choice_ok sam 64 c'"
  using assms
proof (induction j arbitrary: k a c)
  case (Suc j)
  then have k: "k < 64" by simp
  obtain a1 c1 where s: "xclass k (a, c) = Inr (a1, c1)" "ext_ok a1" "ext_after iam sam a1" "choice_ok sam (Suc k) c1"
    using xclass_ok [OF Suc.prems(1-4) k] by blast
  show ?case using Suc.IH [OF s(2,3,4)] s(1) Suc.prems(5) k by (auto simp: upt_conv_Cons)
qed auto

lemma relax_ok:
  assumes "ext_ok a" and "ext_after iam sam a" and "n < 64"
  shows "\<exists>a'. relax a n = Inr a' \<and> ext_ok a' \<and> ext_after iam sam a'"
  using window_pos(1) [OF assms(1,3)] assms(1,2) by (auto simp: relax_def ext_ok_def ext_after_def)

lemma absorbed_ok: "ext_ok a \<Longrightarrow> ext_after iam sam a \<Longrightarrow> n < 64 \<Longrightarrow> \<exists>b. absorbed a n = Inr b"
  by (simp add: absorbed_def ext_ok_def ext_after_def)

text \<open>The decisions: none, free pages or a page of the oldest class to the pool, or a page of the pool to a class.\<close>

definition good_choice :: "slab_stats_automove list \<Rightarrow> int \<Rightarrow> int \<Rightarrow> bool" where
  "good_choice sam s d \<longleftrightarrow> s = -1 \<and> d = -1
     \<or> 1 \<le> s \<and> s < 64 \<and> d = 0 \<and> (enough_to_reclaim (sam ! nat s) \<or> total_pages (sam ! nat s) > 2)
     \<or> s = 0 \<and> 1 \<le> d \<and> d < 64"

lemma xdecide_ok:
  assumes "ext_ok a" and "ext_after iam sam a" and "choice_ok sam 64 c"
  shows "\<exists>a' s d. xdecide younger wg a c = Inr (a', s, d) \<and> ext_ok a' \<and> good_choice sam s d"
proof -
  have now: "good_choice sam (c_src c) (c_dst c)" using assms(3) by (auto simp: choice_ok_def reclaim_ok_def good_choice_def)
  have old: "good_choice sam (c_oldest c) 0" if "c_oldest c \<noteq> -1"
    using that assms(3) by (auto simp: choice_ok_def oldest_ok_def good_choice_def)
  show ?thesis
  proof (cases "c_youngest c = -1")
    case True
    then show ?thesis using now old assms(1) by (auto simp: xdecide_def)
  next
    case False
    then have y: "nat (c_youngest c) < 64" "good_choice sam 0 (c_youngest c)"
      using assms(3) by (auto simp: choice_ok_def youngest_ok_def good_choice_def)
    obtain b where b: "absorbed a (nat (c_youngest c)) = Inr b" using absorbed_ok [OF assms(1,2) y(1)] by blast
    obtain a' where a': "relax a (nat (c_youngest c)) = Inr a'" "ext_ok a'" "ext_after iam sam a'"
      using relax_ok [OF assms(1,2) y(1)] by blast
    obtain b' where b': "absorbed a' (nat (c_youngest c)) = Inr b'" using absorbed_ok [OF a'(2,3) y(1)] by blast
    show ?thesis using now old y(2) b a' b' assms(1) False by (auto simp: xdecide_def Let_def)
  qed
qed

lemma slab_automove_extstore_run_ok:
  assumes "ext_ok a" and "length iam = 64" and "length sam = 64"
  shows "\<exists>a' s d. slab_automove_extstore_run scale younger count reached now iam sam a = Inr (a', s, d)
     \<and> ext_ok a' \<and> good_choice sam s d"
proof -
  let ?c = "\<lparr>c_oldest = -1, c_oldest_age = 0, c_youngest = -1, c_youngest_age = -1, too_free = False, c_src = -1, c_dst = -1\<rparr>"
  have cl: "classes = [1..<64]" by (simp add: classes_def POWER_SMALLEST_def MAX_NUMBER_OF_SLAB_CLASSES_def)
  obtain a1 where a1: "global_pool_check count reached a = Inr a1" "ext_ok a1" using global_pool_check_ok [OF assms(1)] by blast
  obtain wg where wg: "window_global_sum (xwindow_global a1) empty_global (unat (xwindow_size a1)) = Inr wg"
    using window_global_sum_total [of "unat (xwindow_size a1)" "xwindow_global a1"] a1(2) by (auto simp: ext_ok_def)
  let ?a2 = "a1\<lparr>xiam_after := iam, xsam_after := sam, xwindow_cur := xwindow_cur a1 + 1\<rparr>"
  have a2: "ext_ok ?a2" "ext_after iam sam ?a2" using a1(2) assms(2,3) by (simp_all add: ext_ok_def ext_after_def)
  obtain a3 where a3: "memcheck scale now ?a2 = Inr a3" "ext_ok a3" "ext_after iam sam a3" using memcheck_ok [OF a2] by blast
  have "choice_ok sam 1 ?c" by (simp add: choice_ok_def oldest_ok_def youngest_ok_def reclaim_ok_def)
  from xloop_ok [OF a3(2,3) this, of 63] obtain a4 c4 where a4: "xloop [1..<64] (a3, ?c) = Inr (a4, c4)" "ext_ok a4"
    "ext_after iam sam a4" "choice_ok sam 64 c4" by auto
  let ?a5 = "a4\<lparr>xiam_before := xiam_after a4, xsam_before := xsam_after a4\<rparr>"
  have "ext_ok ?a5" "ext_after iam sam ?a5" using a4(2,3) by (simp_all add: ext_ok_def ext_after_def)
  from xdecide_ok [OF this a4(4), of younger wg] show ?thesis
    using a1(1) wg a3(1) a4(1) by (simp add: slab_automove_extstore_run_def Let_def cl)
qed

record snapshot =
  pool_count :: u32
  limit_reached :: bool
  time_now :: u32
  snap_items :: "item_stats_automove list"
  snap_slabs :: "slab_stats_automove list"

definition ext_run :: "(int \<Rightarrow> u32) \<Rightarrow> (u64 \<Rightarrow> u64 \<Rightarrow> bool) \<Rightarrow> snapshot \<Rightarrow> slab_automove_ext \<Rightarrow> (slab_automove_ext \<times> int \<times> int) res" where
  "ext_run scale younger x a = slab_automove_extstore_run scale younger (pool_count x) (limit_reached x) (time_now x)
     (snap_items x) (snap_slabs x) a"

fun ext_runs :: "(int \<Rightarrow> u32) \<Rightarrow> (u64 \<Rightarrow> u64 \<Rightarrow> bool) \<Rightarrow> snapshot list \<Rightarrow> slab_automove_ext \<Rightarrow> slab_automove_ext res" where
  "ext_runs scale younger [] a = Inr a"
| "ext_runs scale younger (x # xs) a = bindE (ext_run scale younger x a) (\<lambda>(a, s, d). ext_runs scale younger xs a)"

lemma ext_runs_ok:
  assumes "ext_ok a" and "\<forall>x \<in> set hist. length (snap_items x) = 64 \<and> length (snap_slabs x) = 64"
  shows "\<exists>a'. ext_runs scale younger hist a = Inr a' \<and> ext_ok a'"
  using assms
proof (induction hist arbitrary: a)
  case (Cons x hist)
  then have l: "length (snap_items x) = 64" "length (snap_slabs x) = 64" by auto
  then obtain a1 s d where "ext_run scale younger x a = Inr (a1, s, d)" "ext_ok a1"
    using slab_automove_extstore_run_ok [OF Cons.prems(1) l] unfolding ext_run_def by blast
  then show ?case using Cons.IH [of a1] Cons.prems(2) by simp
qed simp

lemma slab_automove_extstore_init_ok:
  assumes "slab_automove_extstore_init ok1 ok2 ok3 wsize isize memchunks iam sam = Some a" and "0 < wsize" and "wsize < 67108864"
    and "length iam = 64" and "length sam = 64" and "length memchunks = 64"
  shows "ext_ok a"
proof -
  have "unat wsize < 67108864" using assms(3) by (simp add: word_less_nat_alt)
  then have "unat (wsize * 64) = unat wsize * 64" by (subst unat_mult_lem [THEN iffD1]) simp_all
  then show ?thesis using assms by (auto simp: slab_automove_extstore_init_def ext_ok_def split: if_splits)
qed



end
