(* ===== verification/Mc_Slabs.thy ===== *)
theory Mc_Slabs
  imports Mc_Item Mc_Automove
begin

text \<open>
  The slab allocator, \<^verbatim>\<open>src/memcached/slabs.c\<close>. Memory is a store of headers by address: \<^verbatim>\<open>struct _stritem\<close> and
  \<^verbatim>\<open>struct _strchunk\<close> have the fields the allocator uses at the same offsets, so one header serves for both, and the
  byte that holds \<open>nkey\<close> in an item holds \<open>orig_clsid\<close> in a chunk. The answers of \<open>malloc\<close> and \<open>realloc\<close> are
  arguments. The lemmas relate each free list, linked through the headers, to a list of chunks: an
  allocation takes the first chunk, a free puts a chunk in front, a new page adds its chunks, and no
  chunk is ever handed out twice.
\<close>

section \<open>The code\<close>

record hdr =
  hnext :: "addr option"
  hprev :: "addr option"
  hrefcount :: u16
  hflags :: u16
  hclsid :: byte
  hnkey :: byte

abbreviation orig_clsid :: "hdr \<Rightarrow> byte" where "orig_clsid \<equiv> hnkey"

definition zero_hdr :: hdr where
  "zero_hdr = \<lparr>hnext = None, hprev = None, hrefcount = 0, hflags = 0, hclsid = 0, hnkey = 0\<rparr>"

record slabclass_t =
  sc_size :: u32
  perslab :: u32
  slots :: "addr option"
  sl_curr :: u32
  slabs :: u32
  slab_list :: "addr option list"
  list_size :: u32

record slab_settings =
  set_chunk_size :: u32
  item_size_max :: u64
  slab_page_size :: u32
  slab_chunk_size_max :: u32
  slab_reassign :: bool

record slab_state =
  slabclass :: "slabclass_t list"
  mem_limit :: u64
  mem_malloced :: u64
  mem_limit_reached :: bool
  power_largest :: nat
  mem_base :: "addr option"
  mem_current :: addr
  mem_avail :: u64
  mem :: "addr \<Rightarrow> hdr"

definition SLAB_GLOBAL_PAGE_POOL :: nat where "SLAB_GLOBAL_PAGE_POOL = 0"
definition CHUNK_ALIGN_BYTES :: nat where "CHUNK_ALIGN_BYTES = 8"
definition SIZEOF_ITEM :: nat where "SIZEOF_ITEM = 80"

definition empty_class :: slabclass_t where
  "empty_class = \<lparr>sc_size = 0, perslab = 0, slots = None, sl_curr = 0, slabs = 0, slab_list = [], list_size = 0\<rparr>"

definition set_class :: "nat \<Rightarrow> slabclass_t \<Rightarrow> slab_state \<Rightarrow> slab_state" where
  "set_class i p s = s\<lparr>slabclass := (slabclass s)[i := p]\<rparr>"

definition set_hdr :: "addr \<Rightarrow> (hdr \<Rightarrow> hdr) \<Rightarrow> slab_state \<Rightarrow> slab_state" where
  "set_hdr a f s = s\<lparr>mem := (mem s)(a := f (mem s a))\<rparr>"

definition clear_mem :: "addr \<Rightarrow> nat \<Rightarrow> slab_state \<Rightarrow> slab_state" where
  "clear_mem p n s = s\<lparr>mem := (\<lambda>a. if p \<le> a \<and> a < p + n then zero_hdr else mem s a)\<rparr>"

text \<open>The class of an object of a given size; the loop compares class after class.\<close>

fun clsid_loop :: "slabclass_t list \<Rightarrow> nat \<Rightarrow> u64 \<Rightarrow> nat list \<Rightarrow> nat res" where
  "clsid_loop cls largest sz [] = Inl OutOfBounds"
| "clsid_loop cls largest sz (r # rs) =
     bindE (idx cls r) (\<lambda>p.
       if sz > ucast (sc_size p) then if r = largest then Inr largest else clsid_loop cls largest sz rs
       else Inr r)"

definition slabs_clsid :: "slab_settings \<Rightarrow> u64 \<Rightarrow> slab_state \<Rightarrow> nat res" where
  "slabs_clsid cfg sz s =
     (if sz = 0 \<or> sz > item_size_max cfg then Inr 0
      else clsid_loop (slabclass s) (power_largest s) sz [POWER_SMALLEST..<Suc (length (slabclass s))])"

definition slabs_size :: "nat \<Rightarrow> slab_state \<Rightarrow> u32 res" where
  "slabs_size i s = bindE (idx (slabclass s) i) (\<lambda>p. Inr (sc_size p))"

text \<open>\<open>realloc_ok\<close> says whether the list of pages can grow; the new cells are not initialised.\<close>

definition grow_slab_list :: "bool \<Rightarrow> nat \<Rightarrow> slab_state \<Rightarrow> (slab_state \<times> bool) res" where
  "grow_slab_list realloc_ok i s =
     bindE (idx (slabclass s) i) (\<lambda>p.
       if slabs p = list_size p then
         let new_size = (if list_size p \<noteq> 0 then list_size p * 2 else 16) in
         if \<not> realloc_ok then Inr (s, False)
         else Inr (set_class i (p\<lparr>list_size := new_size,
                     slab_list := take (unat new_size) (slab_list p) @ replicate (unat new_size - length (slab_list p)) None\<rparr>) s, True)
       else Inr (s, True))"

text \<open>Putting a chunk in front of the free list of a class, as three places of the code do.\<close>

definition push_slot :: "nat \<Rightarrow> addr \<Rightarrow> slab_state \<Rightarrow> slab_state res" where
  "push_slot i a s =
     bindE (idx (slabclass s) i) (\<lambda>p.
       let s = set_hdr a (\<lambda>h. h\<lparr>hprev := None, hnext := slots p\<rparr>) s;
           s = (case slots p of None \<Rightarrow> s | Some b \<Rightarrow> set_hdr b (\<lambda>h. h\<lparr>hprev := Some a\<rparr>) s)
       in Inr (set_class i (p\<lparr>slots := Some a, sl_curr := sl_curr p + 1\<rparr>) s))"

definition ITEM_schunk :: "slab_state \<Rightarrow> addr \<Rightarrow> addr" where
  "ITEM_schunk s a = a + SIZEOF_ITEM + unat (hnkey (mem s a)) + 1
     + (if hflags (mem s a) AND ITEM_CFLAGS \<noteq> 0 then 4 else 0) + (if hflags (mem s a) AND ITEM_CAS \<noteq> 0 then 8 else 0)"

partial_function (option) free_chunks_loop :: "slab_state \<times> addr option \<Rightarrow> slab_state res option" where
  "free_chunks_loop st =
     (case snd st of
        None \<Rightarrow> Some (Inr (fst st))
      | Some c \<Rightarrow>
          if hflags (mem (fst st) c) \<noteq> ITEM_CHUNK then Some (Inl AssertFail)
          else (case push_slot (unat (hclsid (mem (fst st) c))) c (set_hdr c (\<lambda>h. h\<lparr>hflags := ITEM_SLABBED\<rparr>) (fst st)) of
                  Inl e \<Rightarrow> Some (Inl e)
                | Inr s' \<Rightarrow> free_chunks_loop (s', hnext (mem (fst st) c))))"

definition do_slabs_free_chunked :: "addr \<Rightarrow> slab_state \<Rightarrow> slab_state res option" where
  "do_slabs_free_chunked it s =
     (let chunk = ITEM_schunk s it;
          s = set_hdr it (\<lambda>h. h\<lparr>hflags := ITEM_SLABBED, hprev := None\<rparr>) s;
          cls = orig_clsid (mem s chunk);
          s = set_hdr it (\<lambda>h. h\<lparr>hclsid := cls\<rparr>) s;
          nxt = hnext (mem s chunk);
          s = (case nxt of None \<Rightarrow> s | Some c \<Rightarrow> set_hdr c (\<lambda>h. h\<lparr>hprev := None\<rparr>) s)
      in case push_slot (unat cls) it s of
           Inl e \<Rightarrow> Some (Inl e)
         | Inr s \<Rightarrow> free_chunks_loop (s, nxt))"

definition do_slabs_free :: "addr \<Rightarrow> nat \<Rightarrow> slab_state \<Rightarrow> slab_state res option" where
  "do_slabs_free a i s =
     (if i < POWER_SMALLEST \<or> i > power_largest s then Some (Inl AssertFail)
      else if hflags (mem s a) AND ITEM_CHUNKED = 0 then
        Some (push_slot i a (set_hdr a (\<lambda>h. h\<lparr>hflags := ITEM_SLABBED, hclsid := word_of_nat i\<rparr>) s))
      else do_slabs_free_chunked a s)"

fun split_loop :: "nat \<Rightarrow> nat \<Rightarrow> addr \<Rightarrow> nat \<Rightarrow> slab_state \<Rightarrow> slab_state res option" where
  "split_loop i sz p 0 s = Some (Inr s)"
| "split_loop i sz p (Suc n) s =
     (case do_slabs_free p i s of
        None \<Rightarrow> None
      | Some (Inl e) \<Rightarrow> Some (Inl e)
      | Some (Inr s) \<Rightarrow> split_loop i sz (p + sz) n s)"

definition split_slab_page_into_freelist :: "addr \<Rightarrow> nat \<Rightarrow> slab_state \<Rightarrow> slab_state res option" where
  "split_slab_page_into_freelist p i s =
     (case idx (slabclass s) i of
        Inl e \<Rightarrow> Some (Inl e)
      | Inr c \<Rightarrow> split_loop i (unat (sc_size c)) p (unat (perslab c)) s)"

definition get_page_from_global_pool :: "slab_state \<Rightarrow> (slab_state \<times> addr option) res" where
  "get_page_from_global_pool s =
     bindE (idx (slabclass s) SLAB_GLOBAL_PAGE_POOL) (\<lambda>p.
       if slabs p < 1 then Inr (s, None)
       else bindE (idx (slab_list p) (unat (slabs p - 1))) (\<lambda>cell.
         case cell of
           None \<Rightarrow> Inl UninitRead
         | Some ret \<Rightarrow> Inr (set_class SLAB_GLOBAL_PAGE_POOL (p\<lparr>slabs := slabs p - 1\<rparr>) s, Some ret)))"

text \<open>\<open>page\<close> is what \<open>malloc\<close> gives when there is no preallocated memory.\<close>

definition memory_allocate :: "addr option \<Rightarrow> u64 \<Rightarrow> slab_state \<Rightarrow> slab_state \<times> addr option" where
  "memory_allocate page sz s =
     (case mem_base s of
        None \<Rightarrow> (s\<lparr>mem_malloced := mem_malloced s + sz\<rparr>, page)
      | Some _ \<Rightarrow>
         let ret = mem_current s in
         if sz > mem_avail s then (s, None)
         else let sz = (if unat sz mod CHUNK_ALIGN_BYTES \<noteq> 0 then sz + word_of_nat (CHUNK_ALIGN_BYTES - unat sz mod CHUNK_ALIGN_BYTES) else sz);
                  s = s\<lparr>mem_current := mem_current s + unat sz\<rparr>;
                  s = s\<lparr>mem_avail := (if sz < mem_avail s then mem_avail s - sz else 0)\<rparr>
              in (s\<lparr>mem_malloced := mem_malloced s + sz\<rparr>, Some ret))"

definition add_page :: "nat \<Rightarrow> addr \<Rightarrow> slab_state \<Rightarrow> slab_state res" where
  "add_page i ptr s =
     bindE (idx (slabclass s) i) (\<lambda>p. bindE (upd (slab_list p) (unat (slabs p)) (Some ptr)) (\<lambda>l.
       Inr (set_class i (p\<lparr>slab_list := l, slabs := slabs p + 1\<rparr>) s)))"

definition page_len :: "slab_settings \<Rightarrow> slabclass_t \<Rightarrow> u64" where
  "page_len cfg p = (if slab_reassign cfg \<or> slab_chunk_size_max cfg \<noteq> slab_page_size cfg
     then ucast (slab_page_size cfg) else ucast (sc_size p * perslab p))"

text \<open>The part of \<open>do_slabs_newslab\<close> that gets a page: from the pool, else from memory.\<close>

definition find_page :: "bool \<times> addr option \<Rightarrow> nat \<Rightarrow> u64 \<Rightarrow> slab_state \<Rightarrow> (slab_state \<times> addr option) res" where
  "find_page orc i len s =
     bindE (grow_slab_list (fst orc) i s) (\<lambda>(s, grown).
       if \<not> grown then Inr (s, None)
       else bindE (get_page_from_global_pool s) (\<lambda>(s, ptr).
         case ptr of Some a \<Rightarrow> Inr (s, Some a) | None \<Rightarrow> Inr (memory_allocate (snd orc) len s)))"

definition do_slabs_newslab :: "slab_settings \<Rightarrow> bool \<times> addr option \<Rightarrow> nat \<Rightarrow> slab_state \<Rightarrow> (slab_state \<times> bool) res option" where
  "do_slabs_newslab cfg orc i s =
     (case bindE (idx (slabclass s) i) (\<lambda>p. bindE (idx (slabclass s) SLAB_GLOBAL_PAGE_POOL) (\<lambda>g. Inr (p, g))) of
        Inl e \<Rightarrow> Some (Inl e)
      | Inr (p, g) \<Rightarrow>
         let len = page_len cfg p in
         if mem_limit s \<noteq> 0 \<and> mem_malloced s + len > mem_limit s \<and> slabs p > 0 \<and> slabs g = 0
         then Some (Inr (s\<lparr>mem_limit_reached := True\<rparr>, False))
         else case find_page orc i len s of
             Inl e \<Rightarrow> Some (Inl e)
           | Inr (s, None) \<Rightarrow> Some (Inr (s, False))
           | Inr (s, Some ptr) \<Rightarrow>
              (case split_slab_page_into_freelist ptr i (clear_mem ptr (unat len) s) of
                 None \<Rightarrow> None
               | Some (Inl e) \<Rightarrow> Some (Inl e)
               | Some (Inr s) \<Rightarrow> Some (bindE (add_page i ptr s) (\<lambda>s. Inr (s, True)))))"

text \<open>Taking the first chunk off the free list of a class.\<close>

definition pop_slot :: "nat \<Rightarrow> slab_state \<Rightarrow> (slab_state \<times> addr option) res" where
  "pop_slot i s =
     bindE (idx (slabclass s) i) (\<lambda>p.
       if sl_curr p \<noteq> 0 then
         (case slots p of
            None \<Rightarrow> Inl NullDeref
          | Some it \<Rightarrow>
             let nxt = hnext (mem s it);
                 s = set_class i (p\<lparr>slots := nxt\<rparr>) s;
                 s = (case nxt of None \<Rightarrow> s | Some b \<Rightarrow> set_hdr b (\<lambda>h. h\<lparr>hprev := None\<rparr>) s);
                 s = set_hdr it (\<lambda>h. h\<lparr>hflags := hflags h AND NOT ITEM_SLABBED, hrefcount := 1\<rparr>) s
             in Inr (set_class i (p\<lparr>slots := nxt, sl_curr := sl_curr p - 1\<rparr>) s, Some it))
       else Inr (s, None))"

definition do_slabs_alloc ::
    "slab_settings \<Rightarrow> bool \<times> addr option \<Rightarrow> u64 \<Rightarrow> nat \<Rightarrow> bool \<Rightarrow> slab_state \<Rightarrow> (slab_state \<times> addr option) res option" where
  "do_slabs_alloc cfg orc sz i no_newpage s =
     (if i < POWER_SMALLEST \<or> i > power_largest s then Some (Inr (s, None))
      else case idx (slabclass s) i of
        Inl e \<Rightarrow> Some (Inl e)
      | Inr p \<Rightarrow>
         if sl_curr p \<noteq> 0 \<and> (case slots p of None \<Rightarrow> True | Some a \<Rightarrow> hflags (mem s a) AND ITEM_SLABBED = 0) then Some (Inl AssertFail)
         else if \<not> sz \<le> ucast (sc_size p) then Some (Inl AssertFail)
         else if sl_curr p = 0 \<and> \<not> no_newpage then
           (case do_slabs_newslab cfg orc i s of
              None \<Rightarrow> None
            | Some (Inl e) \<Rightarrow> Some (Inl e)
            | Some (Inr (s, _)) \<Rightarrow> Some (pop_slot i s))
         else Some (pop_slot i s))"

text \<open>
  Initialisation. The arithmetic with the growth factor is in floating point: \<open>too_big sz\<close> is the comparison of
  \<open>sz\<close> with the largest chunk over the factor, \<open>grow sz\<close> the product. \<open>large\<close> is the preallocated memory and
  \<open>initial\<close> the number from the environment, when there is one. A preallocation that fails exits.
\<close>

fun init_classes ::
    "slab_settings \<Rightarrow> (u32 \<Rightarrow> bool) \<Rightarrow> (u32 \<Rightarrow> u32) \<Rightarrow> u32 list option \<Rightarrow> nat list \<Rightarrow> u32 \<Rightarrow> slabclass_t list \<Rightarrow> (slabclass_t list \<times> nat) res" where
  "init_classes cfg too_big grow sizes [] sz cls = Inr (cls, MAX_NUMBER_OF_SLAB_CLASSES - 1)"
| "init_classes cfg too_big grow sizes (i # is) sz cls =
     bindE (case sizes of Some xs \<Rightarrow> idx xs (i - 1) | None \<Rightarrow> Inr sz) (\<lambda>sz'.
       if (case sizes of Some xs \<Rightarrow> sz' = 0 | None \<Rightarrow> too_big sz) then Inr (cls, i)
       else let sz = (if unat sz' mod CHUNK_ALIGN_BYTES \<noteq> 0
                      then sz' + word_of_nat (CHUNK_ALIGN_BYTES - unat sz' mod CHUNK_ALIGN_BYTES) else sz') in
         if sz = 0 then Inl DivByZero
         else bindE (upd cls i (empty_class\<lparr>sc_size := sz, perslab := slab_page_size cfg div sz\<rparr>)) (\<lambda>cls.
           init_classes cfg too_big grow sizes is (if sizes = None then grow sz else sz) cls))"

fun slabs_preallocate :: "slab_settings \<Rightarrow> (nat \<Rightarrow> bool \<times> addr option) \<Rightarrow> nat \<Rightarrow> nat list \<Rightarrow> slab_state \<Rightarrow> slab_state res option" where
  "slabs_preallocate cfg orc maxslabs [] s = Some (Inr s)"
| "slabs_preallocate cfg orc maxslabs (i # is) s =
     (if i > maxslabs then Some (Inr s)
      else case do_slabs_newslab cfg (orc i) i s of
          None \<Rightarrow> None
        | Some (Inl e) \<Rightarrow> Some (Inl e)
        | Some (Inr (s, ok)) \<Rightarrow> if ok then slabs_preallocate cfg orc maxslabs is s else Some (Inl ExitProcess))"

definition init_memory :: "u64 \<Rightarrow> bool \<Rightarrow> addr option \<Rightarrow> addr option \<Rightarrow> bool \<Rightarrow> slab_state \<Rightarrow> slab_state \<times> bool" where
  "init_memory limit prealloc large external reuse_mem s =
     (let s = s\<lparr>mem_limit := limit\<rparr> in
      if prealloc \<and> external = None then
        (case large of
           Some a \<Rightarrow> (s\<lparr>mem_base := Some a, mem_current := a, mem_avail := limit\<rparr>, True)
         | None \<Rightarrow> (s\<lparr>mem_base := None\<rparr>, False))
      else if prealloc then
        (case external of
           Some b \<Rightarrow> if reuse_mem then (s\<lparr>mem_base := Some b, mem_current := b + unat limit, mem_avail := 0\<rparr>, True)
                     else (s\<lparr>mem_base := Some b, mem_current := b, mem_avail := limit\<rparr>, True)
         | None \<Rightarrow> (s, False))
      else (s, False))"

definition slabs_init ::
    "slab_settings \<Rightarrow> (u32 \<Rightarrow> bool) \<Rightarrow> (u32 \<Rightarrow> u32) \<Rightarrow> (nat \<Rightarrow> bool \<times> addr option) \<Rightarrow> u64 \<Rightarrow> bool \<Rightarrow> addr option \<Rightarrow> u64 option
       \<Rightarrow> u32 list option \<Rightarrow> addr option \<Rightarrow> bool \<Rightarrow> slab_state \<Rightarrow> slab_state res option" where
  "slabs_init cfg too_big grow orc limit prealloc large initial slab_sizes external reuse_mem s =
     (let (s, do_slab_prealloc) = init_memory limit prealloc large external reuse_mem s in
      case init_classes cfg too_big grow slab_sizes [POWER_SMALLEST..<MAX_NUMBER_OF_SLAB_CLASSES - 1]
             (word_of_nat SIZEOF_ITEM + set_chunk_size cfg) (replicate MAX_NUMBER_OF_SLAB_CLASSES empty_class) of
        Inl e \<Rightarrow> Some (Inl e)
      | Inr (cls, i) \<Rightarrow>
         if slab_chunk_size_max cfg = 0 then Some (Inl DivByZero)
         else let s = s\<lparr>slabclass := cls[i := (cls ! i)\<lparr>sc_size := slab_chunk_size_max cfg,
                                            perslab := slab_page_size cfg div slab_chunk_size_max cfg\<rparr>],
                        power_largest := i\<rparr>;
                  s = (case initial of None \<Rightarrow> s | Some n \<Rightarrow> s\<lparr>mem_malloced := n\<rparr>)
              in if do_slab_prealloc \<and> \<not> reuse_mem
                 then slabs_preallocate cfg orc (power_largest s) [POWER_SMALLEST..<MAX_NUMBER_OF_SLAB_CLASSES] s
                 else Some (Inr s))"

partial_function (option) prefill_loop ::
    "slab_settings \<Rightarrow> (nat \<Rightarrow> bool \<times> addr option) \<Rightarrow> nat \<times> slab_state \<Rightarrow> slab_state res option" where
  "prefill_loop cfg orc st =
     (if mem_malloced (snd st) < mem_limit (snd st) then
        (case memory_allocate (snd (orc (fst st))) (ucast (slab_page_size cfg)) (snd st) of
           (s, None) \<Rightarrow> Some (Inr s)
         | (s, Some ptr) \<Rightarrow>
            (case bindE (grow_slab_list (fst (orc (fst st))) 0 s) (\<lambda>(s, _). add_page 0 ptr (clear_mem ptr SIZEOF_ITEM s)) of
               Inl e \<Rightarrow> Some (Inl e)
             | Inr s \<Rightarrow> prefill_loop cfg orc (fst st + 1, s)))
      else Some (Inr (snd st)))"

definition slabs_prefill_global :: "slab_settings \<Rightarrow> (nat \<Rightarrow> bool \<times> addr option) \<Rightarrow> slab_state \<Rightarrow> slab_state res option" where
  "slabs_prefill_global cfg orc s =
     map_option (\<lambda>r. bindE r (\<lambda>s. Inr (s\<lparr>mem_limit_reached := True\<rparr>))) (prefill_loop cfg orc (0, s))"

text \<open>The loop ends with the pages of the pool, whose number bounds it.\<close>

fun release_loop :: "slab_settings \<Rightarrow> nat \<Rightarrow> slab_state \<Rightarrow> slab_state res" where
  "release_loop cfg 0 s = Inr s"
| "release_loop cfg (Suc n) s =
     (if mem_malloced s > mem_limit s then
        bindE (get_page_from_global_pool s) (\<lambda>(s, p). case p of
          None \<Rightarrow> Inr s
        | Some _ \<Rightarrow> release_loop cfg n (s\<lparr>mem_malloced := mem_malloced s - ucast (slab_page_size cfg)\<rparr>))
      else Inr s)"

definition memory_release :: "slab_settings \<Rightarrow> slab_state \<Rightarrow> slab_state res" where
  "memory_release cfg s =
     (if mem_base s \<noteq> None \<or> \<not> slab_reassign cfg then Inr s
      else bindE (idx (slabclass s) SLAB_GLOBAL_PAGE_POOL) (\<lambda>p. release_loop cfg (unat (slabs p)) s))"

definition do_slabs_adjust_mem_limit :: "slab_settings \<Rightarrow> u64 \<Rightarrow> slab_state \<Rightarrow> (slab_state \<times> bool) res" where
  "do_slabs_adjust_mem_limit cfg new_mem_limit s =
     (if mem_base s \<noteq> None then Inr (s, False)
      else bindE (memory_release cfg (s\<lparr>mem_limit := new_mem_limit, mem_limit_reached := False\<rparr>)) (\<lambda>s. Inr (s, True)))"

definition slabs_available_chunks :: "nat \<Rightarrow> slab_state \<Rightarrow> (u32 \<times> bool \<times> u32) res" where
  "slabs_available_chunks i s =
     bindE (idx (slabclass s) i) (\<lambda>p. Inr (sl_curr p, mem_malloced s \<ge> mem_limit s, perslab p))"

definition fill_slab_stats_automove :: "slab_state \<Rightarrow> slab_stats_automove list" where
  "fill_slab_stats_automove s = map (\<lambda>p. \<lparr>chunks_per_page = perslab p, chunk_size = sc_size p,
     free_chunks = int (unat (sl_curr p)), total_pages = int (unat (slabs p))\<rparr>) (slabclass s)"

definition global_page_pool_size :: "slab_state \<Rightarrow> (u32 \<times> bool) res" where
  "global_page_pool_size s =
     bindE (idx (slabclass s) SLAB_GLOBAL_PAGE_POOL) (\<lambda>p. Inr (slabs p, mem_malloced s \<ge> mem_limit s))"

text \<open>The start and the end of the move of a page, and the requests for one.\<close>

record slab_rebalance =
  slab_start :: "addr option"
  slab_end :: "addr option"
  slab_pos :: "addr option"
  s_clsid :: int
  d_clsid :: int
  busy_items :: u32
  rescues :: u32
  evictions_nomem :: u32
  inline_reclaim :: u32
  chunk_rescues :: u32
  busy_deletes :: u32
  busy_loops :: u32
  reb_done :: byte
  slab_rebalance_signal :: nat

definition class_at :: "slab_state \<Rightarrow> int \<Rightarrow> slabclass_t res" where
  "class_at s i = (if i < 0 then Inl OutOfBounds else idx (slabclass s) (nat i))"

definition slab_rebalance_start :: "bool \<Rightarrow> slab_rebalance \<Rightarrow> slab_state \<Rightarrow> (slab_rebalance \<times> slab_state \<times> int) res" where
  "slab_rebalance_start realloc_ok r s =
     (let no_go = (if s_clsid r < 0 \<or> s_clsid r > int (power_largest s) \<or> d_clsid r < 0 \<or> d_clsid r > int (power_largest s)
                      \<or> s_clsid r = d_clsid r then -2 else 0) in
      bindE (class_at s (d_clsid r)) (\<lambda>_.
      bindE (grow_slab_list realloc_ok (nat (d_clsid r)) s) (\<lambda>(s, grown).
      let no_go = (if \<not> grown then -1 else no_go) in
      bindE (class_at s (s_clsid r)) (\<lambda>s_cls.
      let no_go = (if slabs s_cls < 2 then -3 else no_go) in
      if no_go \<noteq> 0 then Inr (r, s, no_go)
      else bindE (idx (slab_list s_cls) 0) (\<lambda>cell. case cell of
          None \<Rightarrow> Inl UninitRead
        | Some start \<Rightarrow>
           Inr (r\<lparr>slab_start := Some start, slab_end := Some (start + unat (sc_size s_cls * perslab s_cls)),
                  slab_pos := Some start, reb_done := (if s_clsid r = int SLAB_GLOBAL_PAGE_POOL then 1 else 0),
                  slab_rebalance_signal := 2\<rparr>, s, 0))))))"

fun rebalance_alloc_loop ::
    "slab_settings \<Rightarrow> u64 \<Rightarrow> nat \<Rightarrow> nat \<Rightarrow> slab_rebalance \<Rightarrow> slab_state \<Rightarrow> (slab_rebalance \<times> slab_state \<times> addr option) res option" where
  "rebalance_alloc_loop cfg sz i 0 r s = Some (Inr (r, s, None))"
| "rebalance_alloc_loop cfg sz i (Suc n) r s =
     (case do_slabs_alloc cfg (False, None) sz i True s of
        None \<Rightarrow> None
      | Some (Inl e) \<Rightarrow> Some (Inl e)
      | Some (Inr (s, None)) \<Rightarrow> Some (Inr (r, s, None))
      | Some (Inr (s, Some a)) \<Rightarrow>
          if (case (slab_start r, slab_end r) of (Some st, Some en) \<Rightarrow> st \<le> a \<and> a < en | _ \<Rightarrow> False)
          then rebalance_alloc_loop cfg sz i n (r\<lparr>inline_reclaim := inline_reclaim r + 1\<rparr>)
                 (set_hdr a (\<lambda>h. h\<lparr>hrefcount := 0, hflags := ITEM_SLABBED OR ITEM_FETCHED\<rparr>) s)
          else Some (Inr (r, s, Some a)))"

definition slab_rebalance_alloc ::
    "slab_settings \<Rightarrow> u64 \<Rightarrow> nat \<Rightarrow> slab_rebalance \<Rightarrow> slab_state \<Rightarrow> (slab_rebalance \<times> slab_state \<times> addr option) res option" where
  "slab_rebalance_alloc cfg sz i r s =
     (case class_at s (s_clsid r) of
        Inl e \<Rightarrow> Some (Inl e)
      | Inr s_cls \<Rightarrow> rebalance_alloc_loop cfg sz i (unat (perslab s_cls)) r s)"

definition slab_rebalance_cut_free :: "nat \<Rightarrow> addr \<Rightarrow> slab_state \<Rightarrow> slab_state res" where
  "slab_rebalance_cut_free i a s =
     (if hflags (mem s a) \<noteq> ITEM_SLABBED then Inl AssertFail
      else bindE (idx (slabclass s) i) (\<lambda>p.
        let nxt = hnext (mem s a); prv = hprev (mem s a);
            p = (if slots p = Some a then p\<lparr>slots := nxt\<rparr> else p);
            s = (case nxt of None \<Rightarrow> s | Some b \<Rightarrow> set_hdr b (\<lambda>h. h\<lparr>hprev := prv\<rparr>) s);
            s = (case prv of None \<Rightarrow> s | Some b \<Rightarrow> set_hdr b (\<lambda>h. h\<lparr>hnext := nxt\<rparr>) s)
        in Inr (set_class i (p\<lparr>sl_curr := sl_curr p - 1\<rparr>) s)))"

text \<open>Moving the list of pages of the source down by one.\<close>

definition shift_pages :: "slabclass_t \<Rightarrow> slabclass_t res" where
  "shift_pages p =
     (let p = p\<lparr>slabs := slabs p - 1\<rparr>; n = unat (slabs p) in
      if n \<ge> length (slab_list p) \<and> n \<noteq> 0 then Inl OutOfBounds
      else Inr (p\<lparr>slab_list := take n (drop 1 (slab_list p)) @ drop n (slab_list p)\<rparr>))"

definition slab_rebalance_finish :: "slab_settings \<Rightarrow> slab_rebalance \<Rightarrow> slab_state \<Rightarrow> (slab_rebalance \<times> slab_state) res option" where
  "slab_rebalance_finish cfg r s =
     (case bindE (class_at s (s_clsid r)) (\<lambda>s_cls. bindE (shift_pages s_cls) (\<lambda>s_cls.
             let s = set_class (nat (s_clsid r)) s_cls s in
             bindE (class_at s (d_clsid r)) (\<lambda>_.
             case slab_start r of None \<Rightarrow> Inl NullDeref | Some start \<Rightarrow>
             bindE (add_page (nat (d_clsid r)) start s) (\<lambda>s. Inr (s, start))))) of
        Inl e \<Rightarrow> Some (Inl e)
      | Inr (s, start) \<Rightarrow>
         (case (if d_clsid r > int SLAB_GLOBAL_PAGE_POOL
                then split_slab_page_into_freelist start (nat (d_clsid r)) (clear_mem start (unat (slab_page_size cfg)) s)
                else Some (memory_release cfg (clear_mem start SIZEOF_ITEM s\<lparr>mem_limit_reached := False\<rparr>))) of
            None \<Rightarrow> None
          | Some (Inl e) \<Rightarrow> Some (Inl e)
          | Some (Inr s) \<Rightarrow>
             Some (Inr (r\<lparr>busy_loops := 0, reb_done := 0, s_clsid := 0, d_clsid := 0, slab_start := None, slab_end := None,
               slab_pos := None, evictions_nomem := 0, inline_reclaim := 0, rescues := 0, chunk_rescues := 0,
               busy_deletes := 0, slab_rebalance_signal := 0\<rparr>, s))))"

fun pick_loop :: "int \<Rightarrow> slab_state \<Rightarrow> nat \<Rightarrow> nat \<Rightarrow> (nat \<times> int) res" where
  "pick_loop d s 0 cur = Inr (cur, -1)"
| "pick_loop d s (Suc tries) cur =
     (let cur = cur + 1; cur = (if cur > power_largest s then POWER_SMALLEST else cur) in
      if int cur = d then pick_loop d s tries cur
      else bindE (idx (slabclass s) cur) (\<lambda>p. if slabs p > 1 then Inr (cur, int cur) else pick_loop d s tries cur))"

text \<open>\<open>cur\<close> is the static variable of the function.\<close>

definition slabs_reassign_pick_any :: "int \<Rightarrow> slab_state \<Rightarrow> nat \<Rightarrow> (nat \<times> int) res" where
  "slabs_reassign_pick_any d s cur = pick_loop d s (power_largest s - POWER_SMALLEST + 1) cur"

datatype reassign_result = REASSIGN_OK | REASSIGN_RUNNING | REASSIGN_BADCLASS | REASSIGN_NOSPARE | REASSIGN_SRC_DST_SAME

definition do_slabs_reassign :: "int \<Rightarrow> int \<Rightarrow> slab_state \<Rightarrow> nat \<Rightarrow> slab_rebalance \<Rightarrow> (nat \<times> slab_rebalance \<times> reassign_result) res" where
  "do_slabs_reassign sc d s cur r =
     (if slab_rebalance_signal r \<noteq> 0 then Inr (cur, r, REASSIGN_RUNNING)
      else if sc = d then Inr (cur, r, REASSIGN_SRC_DST_SAME)
      else bindE (if sc = -1 then slabs_reassign_pick_any d s cur else Inr (cur, sc)) (\<lambda>(cur, sc).
        if sc < 0 \<or> sc > int (power_largest s) \<or> d < 0 \<or> d > int (power_largest s) then Inr (cur, r, REASSIGN_BADCLASS)
        else bindE (class_at s sc) (\<lambda>p.
          if slabs p < 2 then Inr (cur, r, REASSIGN_NOSPARE)
          else Inr (cur, r\<lparr>s_clsid := sc, d_clsid := d, slab_rebalance_signal := 1\<rparr>, REASSIGN_OK))))"

section \<open>Free lists\<close>

text \<open>A doubly linked list through the headers.\<close>

fun dlist :: "(addr \<Rightarrow> hdr) \<Rightarrow> addr option \<Rightarrow> addr option \<Rightarrow> addr list \<Rightarrow> bool" where
  "dlist m prv p [] \<longleftrightarrow> p = None"
| "dlist m prv p (a # as) \<longleftrightarrow> p = Some a \<and> hprev (m a) = prv \<and> dlist m (Some a) (hnext (m a)) as"

lemma dlist_frame:
  "dlist m prv p as \<Longrightarrow> (\<And>a. a \<in> set as \<Longrightarrow> hnext (m' a) = hnext (m a) \<and> hprev (m' a) = hprev (m a)) \<Longrightarrow> dlist m' prv p as"
  by (induction as arbitrary: prv p) auto

text \<open>
  \<open>fl\<close> gives the free chunks of each class in order. A chunk is free in at most one class, is marked as free,
  and the counter of the class is the length of its list.
\<close>

definition class_free :: "(addr \<Rightarrow> hdr) \<Rightarrow> slabclass_t \<Rightarrow> addr list \<Rightarrow> bool" where
  "class_free m p as \<longleftrightarrow> dlist m None (slots p) as \<and> distinct as \<and> sl_curr p = word_of_nat (length as) \<and> length as < 2 ^ 32
     \<and> (\<forall>a \<in> set as. hflags (m a) = ITEM_SLABBED)"

definition slabs_rep :: "slab_state \<Rightarrow> (nat \<Rightarrow> addr list) \<Rightarrow> bool" where
  "slabs_rep s fl \<longleftrightarrow> length (slabclass s) = 64 \<and> power_largest s < 64
     \<and> (\<forall>i < 64. class_free (mem s) (slabclass s ! i) (fl i))
     \<and> (\<forall>i j a. a \<in> set (fl i) \<longrightarrow> a \<in> set (fl j) \<longrightarrow> i = j) \<and> (\<forall>i \<ge> 64. fl i = [])"

lemma class_free_frame:
  "class_free m p as \<Longrightarrow> (\<And>a. a \<in> set as \<Longrightarrow> m' a = m a) \<Longrightarrow> class_free m' p as"
  unfolding class_free_def by (auto intro: dlist_frame)

lemma class_free_fields:
  "slots q = slots p \<Longrightarrow> sl_curr q = sl_curr p \<Longrightarrow> class_free m q as = class_free m p as"
  by (simp add: class_free_def)

lemma slabs_repD:
  assumes "slabs_rep s fl"
  shows "length (slabclass s) = 64" and "power_largest s < 64" and "i < 64 \<Longrightarrow> class_free (mem s) (slabclass s ! i) (fl i)"
    and "a \<in> set (fl i) \<Longrightarrow> a \<in> set (fl j) \<Longrightarrow> i = j" and "64 \<le> i \<Longrightarrow> fl i = []"
  using assms by (simp_all add: slabs_rep_def)

text \<open>The headers of a list after a chunk has been put in front, and after the first has been taken off.\<close>

definition link_front :: "addr \<Rightarrow> addr option \<Rightarrow> (addr \<Rightarrow> hdr) \<Rightarrow> addr \<Rightarrow> hdr" where
  "link_front a p m = (let m = m(a := (m a)\<lparr>hprev := None, hnext := p\<rparr>)
     in case p of None \<Rightarrow> m | Some b \<Rightarrow> m(b := (m b)\<lparr>hprev := Some a\<rparr>))"

lemma class_free_push:
  assumes "class_free m p as" and "a \<notin> set as" and "hflags (m a) = ITEM_SLABBED" and "Suc (length as) < 2 ^ 32"
  shows "class_free (link_front a (slots p) m) (p\<lparr>slots := Some a, sl_curr := sl_curr p + 1\<rparr>) (a # as)"
proof (cases as)
  case Nil
  then show ?thesis using assms by (simp add: class_free_def link_front_def Let_def)
next
  case (Cons b bs)
  let ?m = "link_front a (slots p) m"
  have b: "slots p = Some b" "a \<noteq> b" "a \<notin> set bs" "b \<notin> set bs" using assms(1,2) Cons by (auto simp: class_free_def)
  have "dlist m (Some b) (hnext (m b)) bs" using assms(1) Cons by (simp add: class_free_def)
  then have "dlist ?m (Some b) (hnext (m b)) bs"
    by (rule dlist_frame) (use b in \<open>auto simp: link_front_def Let_def\<close>)
  then have "dlist ?m None (Some a) (a # as)" using b Cons by (simp add: link_front_def Let_def)
  moreover have "hflags (?m x) = hflags (m x)" for x using b by (simp add: link_front_def Let_def)
  ultimately show ?thesis using assms by (simp add: class_free_def)
qed

lemma link_front_other: "x \<noteq> a \<Longrightarrow> p \<noteq> Some x \<Longrightarrow> link_front a p m x = m x"
  by (auto simp: link_front_def Let_def split: option.splits)

definition pushed :: "nat \<Rightarrow> addr \<Rightarrow> slab_state \<Rightarrow> slab_state" where
  "pushed i a s = s\<lparr>mem := link_front a (slots (slabclass s ! i)) (mem s),
     slabclass := (slabclass s)[i := (slabclass s ! i)\<lparr>slots := Some a, sl_curr := sl_curr (slabclass s ! i) + 1\<rparr>]\<rparr>"

lemma push_slot_eq: "i < length (slabclass s) \<Longrightarrow> push_slot i a s = Inr (pushed i a s)"
  by (simp add: push_slot_def Let_def link_front_def pushed_def set_class_def set_hdr_def split: option.splits)

lemma pushed_mem:
  assumes "slabs_rep s fl" and "i < 64" and "x \<noteq> a" and "x \<notin> set (fl i)"
  shows "mem (pushed i a s) x = mem s x"
proof -
  have "slots (slabclass s ! i) \<noteq> Some x"
    using slabs_repD(3) [OF assms(1,2)] assms(4) by (cases "fl i") (auto simp: class_free_def)
  then show ?thesis using link_front_other [OF assms(3)] by (simp add: pushed_def)
qed

text \<open>A change to one class that leaves the headers of the other free lists alone.\<close>

lemma slabs_rep_upd:
  assumes "slabs_rep s fl" and "i < 64" and "class_free m p as"
    and frame: "\<And>j x. j \<noteq> i \<Longrightarrow> x \<in> set (fl j) \<Longrightarrow> m x = mem s x"
    and dis: "\<And>j x. j \<noteq> i \<Longrightarrow> x \<in> set (fl j) \<Longrightarrow> x \<notin> set as"
  shows "slabs_rep (s\<lparr>mem := m, slabclass := (slabclass s)[i := p]\<rparr>) (fl(i := as))"
proof -
  have rest: "class_free m (slabclass s ! j) (fl j)" if "j < 64" "j \<noteq> i" for j
    by (rule class_free_frame [OF slabs_repD(3) [OF assms(1) that(1)]]) (rule frame [OF that(2)])
  show ?thesis unfolding slabs_rep_def
  proof (intro conjI allI impI)
    show "class_free (mem (s\<lparr>mem := m, slabclass := (slabclass s)[i := p]\<rparr>))
        (slabclass (s\<lparr>mem := m, slabclass := (slabclass s)[i := p]\<rparr>) ! j) ((fl(i := as)) j)" if "j < 64" for j
      using rest [OF that] assms(3) that slabs_repD(1) [OF assms(1)] by (simp add: nth_list_update)
    show "y = z" if "x \<in> set ((fl(i := as)) y)" "x \<in> set ((fl(i := as)) z)" for y z x
      using that dis slabs_repD(4) [OF assms(1), of x y z] by (cases "y = i"; cases "z = i") auto
  qed (use slabs_repD(1,2,5) [OF assms(1)] assms(2) in simp_all)
qed

lemma pushed_rep:
  assumes "slabs_rep s fl" and "i < 64" and new: "\<And>j. a \<notin> set (fl j)" and "hflags (mem s a) = ITEM_SLABBED"
    and "Suc (length (fl i)) < 2 ^ 32"
  shows "slabs_rep (pushed i a s) (fl(i := a # fl i))"
  unfolding pushed_def
proof (rule slabs_rep_upd [OF assms(1,2) class_free_push [OF slabs_repD(3) [OF assms(1,2)] new assms(4,5)]])
  fix j x
  assume j: "j \<noteq> i" "x \<in> set (fl j)"
  then have x: "x \<noteq> a" "x \<notin> set (fl i)" using new slabs_repD(4) [OF assms(1), of x j i] by blast+
  then show "x \<notin> set (a # fl i)" by simp
  show "link_front a (slots (slabclass s ! i)) (mem s) x = mem s x" using pushed_mem [OF assms(1,2) x] by (simp add: pushed_def)
qed

definition unlink_front :: "addr \<Rightarrow> (addr \<Rightarrow> hdr) \<Rightarrow> addr \<Rightarrow> hdr" where
  "unlink_front a m = (let m' = (case hnext (m a) of None \<Rightarrow> m | Some b \<Rightarrow> m(b := (m b)\<lparr>hprev := None\<rparr>))
     in m'(a := (m' a)\<lparr>hflags := hflags (m' a) AND NOT ITEM_SLABBED, hrefcount := 1\<rparr>))"

lemma class_free_pop:
  assumes "class_free m p (a # as)"
  shows "class_free (unlink_front a m) (p\<lparr>slots := hnext (m a), sl_curr := sl_curr p - 1\<rparr>) as"
proof -
  have d: "dlist m (Some a) (hnext (m a)) as" "a \<notin> set as" "distinct as" using assms by (simp_all add: class_free_def)
  have "dlist (unlink_front a m) None (hnext (m a)) as"
  proof (cases as)
    case (Cons b bs)
    have b: "hnext (m a) = Some b" "dlist m (Some b) (hnext (m b)) bs" "b \<noteq> a" "a \<notin> set bs" "b \<notin> set bs" using d Cons by auto
    have "dlist (unlink_front a m) (Some b) (hnext (m b)) bs"
      by (rule dlist_frame [OF b(2)]) (use b in \<open>auto simp: unlink_front_def Let_def\<close>)
    then show ?thesis using b Cons by (simp add: unlink_front_def Let_def)
  qed (use d in simp)
  moreover have "hflags (unlink_front a m x) = hflags (m x)" if "x \<noteq> a" for x
    using that by (auto simp: unlink_front_def Let_def split: option.splits)
  then have "\<forall>x \<in> set as. hflags (unlink_front a m x) = ITEM_SLABBED" using assms d(2) unfolding class_free_def by (metis list.set_intros(2))
  moreover have "sl_curr p - 1 = word_of_nat (length as)" using assms by (simp add: class_free_def)
  ultimately show ?thesis using d(3) assms by (simp add: class_free_def)
qed

lemma unlink_front_other: "x \<noteq> a \<Longrightarrow> hnext (m a) \<noteq> Some x \<Longrightarrow> unlink_front a m x = m x"
  by (auto simp: unlink_front_def Let_def split: option.splits)

lemma sl_curr_0: "class_free m p as \<Longrightarrow> sl_curr p = 0 \<longleftrightarrow> as = []"
proof -
  assume "class_free m p as"
  then have "unat (sl_curr p) = length as" using unat_of_nat_eq [of "length as", where ?'a = 32] by (simp add: class_free_def)
  then show ?thesis using unsigned_eq_0_iff [of "sl_curr p"] by auto
qed

definition popped :: "nat \<Rightarrow> addr \<Rightarrow> slab_state \<Rightarrow> slab_state" where
  "popped i a s = s\<lparr>mem := unlink_front a (mem s),
     slabclass := (slabclass s)[i := (slabclass s ! i)\<lparr>slots := hnext (mem s a), sl_curr := sl_curr (slabclass s ! i) - 1\<rparr>]\<rparr>"

lemma pop_slot_eq:
  assumes "slabs_rep s fl" and "i < 64"
  shows "pop_slot i s = Inr (case fl i of [] \<Rightarrow> (s, None) | a # as \<Rightarrow> (popped i a s, Some a))"
proof -
  have cf: "class_free (mem s) (slabclass s ! i) (fl i)" by (rule slabs_repD(3) [OF assms])
  have len: "i < length (slabclass s)" using slabs_repD(1) [OF assms(1)] assms(2) by simp
  show ?thesis
  proof (cases "fl i")
    case Nil
    then show ?thesis using sl_curr_0 [OF cf] len by (simp add: pop_slot_def)
  next
    case (Cons a as)
    then have "slots (slabclass s ! i) = Some a" "sl_curr (slabclass s ! i) \<noteq> 0"
      using cf sl_curr_0 [OF cf] by (auto simp: class_free_def)
    then show ?thesis using len Cons
      by (simp add: pop_slot_def Let_def unlink_front_def popped_def set_class_def set_hdr_def split: option.splits)
  qed
qed

lemma unlink_first:
  assumes "class_free m p (a # as)"
  shows "x \<notin> set (a # as) \<Longrightarrow> unlink_front a m x = m x"
    and "hflags (unlink_front a m a) = 0" and "hrefcount (unlink_front a m a) = 1"
proof -
  have nxt: "hnext (m a) = Some x \<Longrightarrow> x \<in> set as" for x using assms by (cases as) (auto simp: class_free_def)
  show "x \<notin> set (a # as) \<Longrightarrow> unlink_front a m x = m x" using nxt [of x] unlink_front_other [of x a m] by auto
  have "hflags (m a) = ITEM_SLABBED" "hnext (m a) \<noteq> Some a" using assms nxt [of a] by (auto simp: class_free_def)
  then show "hflags (unlink_front a m a) = 0" "hrefcount (unlink_front a m a) = 1"
    by (auto simp: unlink_front_def Let_def ITEM_SLABBED_def split: option.splits)
qed

lemma popped_rep:
  assumes "slabs_rep s fl" and "i < 64" and fi: "fl i = a # as"
  shows "slabs_rep (popped i a s) (fl(i := as))"
  unfolding popped_def
proof -
  have cf: "class_free (mem s) (slabclass s ! i) (a # as)" using slabs_repD(3) [OF assms(1,2)] fi by simp
  show "slabs_rep (s\<lparr>mem := unlink_front a (mem s), slabclass := (slabclass s)[i := (slabclass s ! i)
      \<lparr>slots := hnext (mem s a), sl_curr := sl_curr (slabclass s ! i) - 1\<rparr>]\<rparr>) (fl(i := as))"
  proof (rule slabs_rep_upd [OF assms(1,2) class_free_pop [OF cf]])
    fix j x
    assume "j \<noteq> i" "x \<in> set (fl j)"
    then have x: "x \<notin> set (a # as)" using slabs_repD(4) [OF assms(1), of x j i] fi by auto
    then show "x \<notin> set as" by simp
    show "unlink_front a (mem s) x = mem s x" by (rule unlink_first(1) [OF cf x])
  qed
qed

section \<open>Allocation and freeing\<close>

lemma slabs_rep_frame:
  assumes "slabs_rep s fl" and "\<And>j x. x \<in> set (fl j) \<Longrightarrow> mem s' x = mem s x"
    and "map (\<lambda>p. (slots p, sl_curr p)) (slabclass s') = map (\<lambda>p. (slots p, sl_curr p)) (slabclass s)" and "power_largest s' = power_largest s"
  shows "slabs_rep s' fl"
proof -
  have len: "length (slabclass s') = 64" using map_eq_imp_length_eq [OF assms(3)] slabs_repD(1) [OF assms(1)] by simp
  have fields: "slots (slabclass s' ! i) = slots (slabclass s ! i)" "sl_curr (slabclass s' ! i) = sl_curr (slabclass s ! i)" if "i < 64" for i
    using arg_cong [OF assms(3), of "\<lambda>l. l ! i"] that len slabs_repD(1) [OF assms(1)] by simp_all
  show ?thesis unfolding slabs_rep_def
  proof (intro conjI allI impI)
    show "class_free (mem s') (slabclass s' ! i) (fl i)" if "i < 64" for i
      unfolding class_free_fields [OF fields [OF that]]
      by (rule class_free_frame [OF slabs_repD(3) [OF assms(1) that] assms(2)])
    show "i = j" if "a \<in> set (fl i)" "a \<in> set (fl j)" for i j a by (rule slabs_repD(4) [OF assms(1) that])
  qed (use len assms(4) slabs_repD(2,5) [OF assms(1)] in simp_all)
qed

definition freed :: "nat \<Rightarrow> addr \<Rightarrow> slab_state \<Rightarrow> slab_state" where
  "freed i a s = pushed i a (set_hdr a (\<lambda>h. h\<lparr>hflags := ITEM_SLABBED, hclsid := word_of_nat i\<rparr>) s)"

lemma do_slabs_free_rep:
  assumes rep: "slabs_rep s fl" and i: "1 \<le> i" "i \<le> power_largest s" and new: "\<And>j. a \<notin> set (fl j)"
    and "hflags (mem s a) AND ITEM_CHUNKED = 0" and room: "Suc (length (fl i)) < 2 ^ 32"
  shows "do_slabs_free a i s = Some (Inr (freed i a s))" and "slabs_rep (freed i a s) (fl(i := a # fl i))"
    and "x \<noteq> a \<Longrightarrow> x \<notin> set (fl i) \<Longrightarrow> mem (freed i a s) x = mem s x"
proof -
  let ?s = "set_hdr a (\<lambda>h. h\<lparr>hflags := ITEM_SLABBED, hclsid := word_of_nat i\<rparr>) s"
  have i64: "i < 64" using i(2) slabs_repD(2) [OF rep] by simp
  have rep': "slabs_rep ?s fl" by (rule slabs_rep_frame [OF rep]) (use new in \<open>auto simp: set_hdr_def\<close>)
  show "do_slabs_free a i s = Some (Inr (freed i a s))"
    using assms(5) i i64 push_slot_eq [of i ?s a] slabs_repD(1) [OF rep']
    by (simp add: do_slabs_free_def freed_def POWER_SMALLEST_def)
  show "slabs_rep (freed i a s) (fl(i := a # fl i))"
    unfolding freed_def by (rule pushed_rep [OF rep' i64 new _ room]) (simp add: set_hdr_def)
  show "mem (freed i a s) x = mem s x" if "x \<noteq> a" "x \<notin> set (fl i)"
    using pushed_mem [OF rep' i64 that] that by (simp add: freed_def set_hdr_def)
qed

text \<open>What no allocation and no free changes of the classes, and the state outside them.\<close>

definition geometry :: "slab_state \<Rightarrow> (u32 \<times> u32 \<times> u32 \<times> addr option list \<times> u32) list \<times> nat \<times> addr option" where
  "geometry s = (map (\<lambda>p. (sc_size p, perslab p, slabs p, slab_list p, list_size p)) (slabclass s), power_largest s, mem_base s)"

lemma geometry_upd:
  assumes "i < length (slabclass s)" and "sc_size p = sc_size (slabclass s ! i)" and "perslab p = perslab (slabclass s ! i)"
    and "slabs p = slabs (slabclass s ! i)" and "slab_list p = slab_list (slabclass s ! i)" and "list_size p = list_size (slabclass s ! i)"
  shows "geometry (s\<lparr>mem := m, slabclass := (slabclass s)[i := p]\<rparr>) = geometry s"
  using assms by (simp add: geometry_def map_update list_update_same_conv)

lemma freed_geometry: "i < length (slabclass s) \<Longrightarrow> geometry (freed i a s) = geometry s"
proof -
  assume i: "i < length (slabclass s)"
  let ?s = "set_hdr a (\<lambda>h. h\<lparr>hflags := ITEM_SLABBED, hclsid := word_of_nat i\<rparr>) s"
  have "geometry (pushed i a ?s) = geometry ?s" unfolding pushed_def by (rule geometry_upd) (use i in \<open>simp_all add: set_hdr_def\<close>)
  then show ?thesis by (simp add: freed_def geometry_def set_hdr_def)
qed

lemma popped_geometry: "i < length (slabclass s) \<Longrightarrow> geometry (popped i a s) = geometry s"
  unfolding popped_def by (rule geometry_upd) simp_all

text \<open>The chunks of a page.\<close>

fun chunks :: "addr \<Rightarrow> nat \<Rightarrow> nat \<Rightarrow> addr list" where
  "chunks p sz 0 = []"
| "chunks p sz (Suc n) = p # chunks (p + sz) sz n"

lemma chunks_range: "0 < sz \<Longrightarrow> x \<in> set (chunks p sz n) \<Longrightarrow> p \<le> x \<and> x < p + n * sz"
  by (induction n arbitrary: p) fastforce+

lemma split_loop_rep:
  assumes "slabs_rep s fl" and "1 \<le> i" and "i \<le> power_largest s" and "0 < sz" and "\<And>x j. x \<in> set (chunks p sz n) \<Longrightarrow> x \<notin> set (fl j)"
    and "\<And>x. x \<in> set (chunks p sz n) \<Longrightarrow> hflags (mem s x) = 0" and "length (fl i) + n < 2 ^ 32"
  shows "\<exists>s'. split_loop i sz p n s = Some (Inr s') \<and> slabs_rep s' (fl(i := rev (chunks p sz n) @ fl i)) \<and> geometry s' = geometry s
     \<and> (\<forall>x. x \<notin> set (chunks p sz n) \<longrightarrow> x \<notin> set (fl i) \<longrightarrow> mem s' x = mem s x)"
  using assms
proof (induction n arbitrary: p s fl)
  case (Suc n)
  let ?s = "freed i p s"
  have f: "hflags (mem s p) AND ITEM_CHUNKED = 0" "\<And>j. p \<notin> set (fl j)" "Suc (length (fl i)) < 2 ^ 32" using Suc.prems(5,6,7) by auto
  note fr = do_slabs_free_rep [OF Suc.prems(1-3) f(2) f(1) f(3)]
  have i64: "i < 64" using Suc.prems(3) slabs_repD(2) [OF Suc.prems(1)] by simp
  have g: "geometry ?s = geometry s" using freed_geometry slabs_repD(1) [OF Suc.prems(1)] i64 by simp
  have later: "x \<noteq> p" "x \<notin> set (fl j)" if "x \<in> set (chunks (p + sz) sz n)" for x j
    using chunks_range [OF Suc.prems(4) that] Suc.prems(4) Suc.prems(5) [of x j] that by auto
  have "\<exists>s'. split_loop i sz (p + sz) n ?s = Some (Inr s')
     \<and> slabs_rep s' ((fl(i := p # fl i))(i := rev (chunks (p + sz) sz n) @ (fl(i := p # fl i)) i)) \<and> geometry s' = geometry ?s
     \<and> (\<forall>x. x \<notin> set (chunks (p + sz) sz n) \<longrightarrow> x \<notin> set ((fl(i := p # fl i)) i) \<longrightarrow> mem s' x = mem ?s x)"
  proof (rule Suc.IH [OF fr(2) Suc.prems(2) _ Suc.prems(4)])
    show "i \<le> power_largest ?s" using g Suc.prems(3) by (simp add: geometry_def)
    show "x \<notin> set ((fl(i := p # fl i)) j)" if "x \<in> set (chunks (p + sz) sz n)" for x j using later [OF that] by simp
    show "hflags (mem ?s x) = 0" if "x \<in> set (chunks (p + sz) sz n)" for x
      using fr(3) [of x] later [OF that] Suc.prems(6) [of x] that by simp
  qed (use Suc.prems(7) in simp)
  then obtain s' where s': "split_loop i sz (p + sz) n ?s = Some (Inr s')"
    "slabs_rep s' (fl(i := rev (chunks (p + sz) sz n) @ p # fl i))" "geometry s' = geometry ?s"
    "\<And>x. x \<notin> set (chunks (p + sz) sz n) \<Longrightarrow> x \<noteq> p \<Longrightarrow> x \<notin> set (fl i) \<Longrightarrow> mem s' x = mem ?s x" by auto
  show ?case using s' fr(1,3) g by (simp add: fun_upd_def)
qed simp

text \<open>The classes as initialisation leaves them: chunks of a positive size, whole in the page; and the list of pages.\<close>

definition class_ok :: "slab_settings \<Rightarrow> slabclass_t \<Rightarrow> bool" where
  "class_ok cfg p \<longleftrightarrow> 0 < sc_size p \<and> unat (perslab p) * unat (sc_size p) \<le> unat (page_len cfg p)"

lemma class_ok_cong: "sc_size q = sc_size p \<Longrightarrow> perslab q = perslab p \<Longrightarrow> class_ok cfg q = class_ok cfg p"
  by (simp add: class_ok_def page_len_def)

definition pages_ok :: "slabclass_t \<Rightarrow> bool" where
  "pages_ok p \<longleftrightarrow> length (slab_list p) = unat (list_size p) \<and> slabs p \<le> list_size p"

definition classes_ok :: "slab_settings \<Rightarrow> slab_state \<Rightarrow> bool" where
  "classes_ok cfg s \<longleftrightarrow> (\<forall>i. 1 \<le> i \<longrightarrow> i \<le> power_largest s \<longrightarrow> class_ok cfg (slabclass s ! i) \<and> pages_ok (slabclass s ! i))
     \<and> slabs (slabclass s ! 0) = 0 \<and> mem_base s = None"

lemma grow_slab_list_rep:
  assumes "slabs_rep s fl" and "classes_ok cfg s" and "1 \<le> i" and "i \<le> power_largest s" and "unat (slabs (slabclass s ! i)) < 2 ^ 31"
  shows "\<exists>s' grown. grow_slab_list ok i s = Inr (s', grown) \<and> slabs_rep s' fl \<and> classes_ok cfg s' \<and> mem s' = mem s
     \<and> power_largest s' = power_largest s \<and> sc_size (slabclass s' ! i) = sc_size (slabclass s ! i) \<and> perslab (slabclass s' ! i) = perslab (slabclass s ! i)
     \<and> (grown \<longrightarrow> unat (slabs (slabclass s' ! i)) < length (slab_list (slabclass s' ! i)))"
proof -
  let ?p = "slabclass s ! i"
  have len: "i < length (slabclass s)" "0 < i" "power_largest s < 64" using slabs_repD(1,2) [OF assms(1)] assms(3,4) by auto
  have p: "class_ok cfg ?p" "pages_ok ?p" using assms(2-4) by (auto simp: classes_ok_def)
  consider (room) "slabs ?p \<noteq> list_size ?p" | (refused) "slabs ?p = list_size ?p" "\<not> ok" | (grown) "slabs ?p = list_size ?p" ok by blast
  then show ?thesis
  proof cases
    case room
    then have "unat (slabs ?p) < length (slab_list ?p)" using p(2) by (simp add: pages_ok_def word_le_nat_alt) (metis le_neq_implies_less word_unat_eq_iff)
    then show ?thesis using room len assms(1,2) by (auto simp: grow_slab_list_def)
  next
    case refused
    then show ?thesis using len assms(1,2) by (auto simp: grow_slab_list_def)
  next
    case grown
    define n where "n = (if list_size ?p \<noteq> 0 then list_size ?p * 2 else 16)"
    define q where "q = ?p\<lparr>list_size := n, slab_list := take (unat n) (slab_list ?p) @ replicate (unat n - length (slab_list ?p)) None\<rparr>"
    have n: "unat (slabs ?p) < unat n"
    proof (cases "list_size ?p = 0")
      case False
      have "unat (list_size ?p * 2) = unat (list_size ?p) * unat (2 :: u32)"
        by (rule unat_mult_lem [THEN iffD1]) (use grown(1) assms(5) in simp)
      then show ?thesis using False grown(1) by (simp add: n_def unat_gt_0)
    qed (use grown(1) in \<open>simp add: n_def\<close>)
    have q: "length (slab_list q) = unat n" "list_size q = n" "slabs q = slabs ?p" "sc_size q = sc_size ?p" "perslab q = perslab ?p"
      "slots q = slots ?p" "sl_curr q = sl_curr ?p" by (simp_all add: q_def)
    then have "class_ok cfg q" "pages_ok q" using p(1) n class_ok_cong [of q ?p] by (simp_all add: pages_ok_def word_le_nat_alt)
    then have "classes_ok cfg (set_class i q s)" using assms(2) len by (simp add: classes_ok_def set_class_def nth_list_update)
    moreover have "slabs_rep (set_class i q s) fl"
      by (rule slabs_rep_frame [OF assms(1)]) (use len q in \<open>simp_all add: set_class_def map_update list_update_same_conv\<close>)
    ultimately show ?thesis using grown len n q by (simp add: grow_slab_list_def Let_def n_def [symmetric] q_def [symmetric]) (auto simp: set_class_def)
  qed
qed

text \<open>A page that holds no chunk in use or free.\<close>

definition fresh_page :: "slab_settings \<Rightarrow> slabclass_t \<Rightarrow> addr set \<Rightarrow> addr option \<Rightarrow> bool" where
  "fresh_page cfg p used page = (case page of None \<Rightarrow> True
     | Some a \<Rightarrow> \<forall>x \<in> used. x < a \<or> a + unat (page_len cfg p) \<le> x)"

lemma classes_ok_mem [simp]: "classes_ok cfg (s\<lparr>mem := m\<rparr>) = classes_ok cfg s"
  by (simp add: classes_ok_def)

lemma geometry_classes:
  assumes "geometry s' = geometry s" and "length (slabclass s) = 64"
  shows "length (slabclass s') = 64" and "power_largest s' = power_largest s" and "mem_base s' = mem_base s"
    and "j < 64 \<Longrightarrow> (sc_size (slabclass s' ! j), perslab (slabclass s' ! j), slabs (slabclass s' ! j), slab_list (slabclass s' ! j), list_size (slabclass s' ! j))
       = (sc_size (slabclass s ! j), perslab (slabclass s ! j), slabs (slabclass s ! j), slab_list (slabclass s ! j), list_size (slabclass s ! j))"
proof -
  let ?g = "\<lambda>p. (sc_size p, perslab p, slabs p, slab_list p, list_size p)"
  have g: "map ?g (slabclass s') = map ?g (slabclass s)" "power_largest s' = power_largest s" "mem_base s' = mem_base s"
    using assms(1) unfolding geometry_def by simp_all
  show l: "length (slabclass s') = 64" "power_largest s' = power_largest s" "mem_base s' = mem_base s"
    using map_eq_imp_length_eq [OF g(1)] assms(2) g(2,3) by simp_all
  show "?g (slabclass s' ! j) = ?g (slabclass s ! j)" if "j < 64"
    using arg_cong [OF g(1), of "\<lambda>l. l ! j"] that l(1) assms(2) by simp
qed

lemma geometry_classes_ok:
  assumes "geometry s' = geometry s" and "slabs_rep s fl"
  shows "classes_ok cfg s' = classes_ok cfg s"
proof -
  note g = geometry_classes [OF assms(1) slabs_repD(1) [OF assms(2)]]
  have "class_ok cfg (slabclass s' ! j) = class_ok cfg (slabclass s ! j)" "pages_ok (slabclass s' ! j) = pages_ok (slabclass s ! j)"
    "slabs (slabclass s' ! j) = slabs (slabclass s ! j)" if "j < 64" for j
    using g(4) [OF that] by (simp_all add: class_ok_def pages_ok_def page_len_def)
  moreover have "power_largest s < 64" by (rule slabs_repD(2) [OF assms(2)])
  ultimately show ?thesis unfolding classes_ok_def g(2,3) by (metis le_less_trans zero_less_numeral)
qed

lemma add_page_rep:
  assumes "slabs_rep s fl" and "classes_ok cfg s" and "1 \<le> i" and "i \<le> power_largest s"
    and "unat (slabs (slabclass s ! i)) < length (slab_list (slabclass s ! i))"
  shows "\<exists>s'. add_page i a s = Inr s' \<and> slabs_rep s' fl \<and> classes_ok cfg s' \<and> mem s' = mem s \<and> power_largest s' = power_largest s"
proof -
  let ?p = "slabclass s ! i"
  let ?q = "?p\<lparr>slab_list := (slab_list ?p)[unat (slabs ?p) := Some a], slabs := slabs ?p + 1\<rparr>"
  have len: "i < length (slabclass s)" "0 < i" "power_largest s < 64" using slabs_repD(1,2) [OF assms(1)] assms(3,4) by auto
  have p: "class_ok cfg ?p" "pages_ok ?p" using assms(2-4) by (auto simp: classes_ok_def)
  have "unat (slabs ?p) < unat (list_size ?p)" using assms(5) p(2) by (simp add: pages_ok_def)
  then have "slabs ?p + 1 \<le> list_size ?p" by (simp add: word_less_nat_alt [symmetric] inc_le)
  then have "class_ok cfg ?q" "pages_ok ?q" using p class_ok_cong [of ?q ?p] by (simp_all add: pages_ok_def)
  then have "classes_ok cfg (set_class i ?q s)" using assms(2) len by (simp add: classes_ok_def set_class_def nth_list_update)
  moreover have "slabs_rep (set_class i ?q s) fl"
    by (rule slabs_rep_frame [OF assms(1)]) (use len in \<open>simp_all add: set_class_def map_update list_update_same_conv\<close>)
  ultimately show ?thesis using len assms(5) by (simp add: add_page_def) (simp add: set_class_def)
qed

text \<open>What an allocation that makes a page leaves: the same free chunks, or those of the page in front of them.\<close>

definition taken :: "(nat \<Rightarrow> addr list) \<Rightarrow> addr set" where
  "taken fl = (\<Union>i. set (fl i))"

lemma fill_page_rep:
  assumes rep: "slabs_rep s fl" and ok: "classes_ok cfg s" and i: "1 \<le> i" "i \<le> power_largest s"
    and fresh: "fresh_page cfg (slabclass s ! i) (taken fl) (Some a)" and full: "length (fl i) + unat (perslab (slabclass s ! i)) < 2 ^ 32"
    and room: "unat (slabs (slabclass s ! i)) < length (slab_list (slabclass s ! i))"
  defines "cs \<equiv> chunks a (unat (sc_size (slabclass s ! i))) (unat (perslab (slabclass s ! i)))" and "len \<equiv> page_len cfg (slabclass s ! i)"
  shows "\<exists>s'. (case split_slab_page_into_freelist a i (clear_mem a (unat len) s) of
         None \<Rightarrow> None | Some (Inl e) \<Rightarrow> Some (Inl e) | Some (Inr s) \<Rightarrow> Some (bindE (add_page i a s) (\<lambda>s. Inr (s, True)))) = Some (Inr (s', True))
     \<and> slabs_rep s' (fl(i := rev cs @ fl i)) \<and> classes_ok cfg s' \<and> power_largest s' = power_largest s
     \<and> (\<forall>x. x \<notin> taken fl \<longrightarrow> x < a \<or> a + unat len \<le> x \<longrightarrow> mem s' x = mem s x)"
proof -
  let ?p = "slabclass s ! i" and ?s = "clear_mem a (unat len) s"
  have len: "i < length (slabclass s)" using slabs_repD(1,2) [OF rep] i by simp
  have co: "0 < unat (sc_size ?p)" "unat (perslab ?p) * unat (sc_size ?p) \<le> unat len"
    using ok i by (auto simp: classes_ok_def class_ok_def len_def unat_gt_0)
  have rng: "a \<le> x \<and> x < a + unat len" if "x \<in> set cs" for x using chunks_range [OF co(1)] that co(2) unfolding cs_def by fastforce
  have out: "x < a \<or> a + unat len \<le> x" if "x \<in> set (fl j)" for x j using fresh that by (auto simp: fresh_page_def taken_def len_def)
  have "mem ?s x = mem s x" if "x \<in> set (fl j)" for x j using out [OF that] by (auto simp: clear_mem_def)
  then have rep1: "slabs_rep ?s fl" by (rule slabs_rep_frame [OF rep]) (simp_all add: clear_mem_def)
  have "\<exists>s'. split_loop i (unat (sc_size ?p)) a (unat (perslab ?p)) ?s = Some (Inr s') \<and> slabs_rep s' (fl(i := rev cs @ fl i)) \<and> geometry s' = geometry ?s
     \<and> (\<forall>x. x \<notin> set cs \<longrightarrow> x \<notin> set (fl i) \<longrightarrow> mem s' x = mem ?s x)"
    unfolding cs_def
  proof (rule split_loop_rep [OF rep1 i(1) _ co(1)])
    show "x \<notin> set (fl j)" if "x \<in> set (chunks a (unat (sc_size ?p)) (unat (perslab ?p)))" for x j
      using rng [of x] out [of x j] that unfolding cs_def by fastforce
    show "hflags (mem ?s x) = 0" if "x \<in> set (chunks a (unat (sc_size ?p)) (unat (perslab ?p)))" for x
      using rng [of x] that unfolding cs_def by (simp add: clear_mem_def zero_hdr_def)
  qed (use i(2) full in \<open>simp_all add: clear_mem_def\<close>)
  then obtain s1 where s1: "split_slab_page_into_freelist a i ?s = Some (Inr s1)" "slabs_rep s1 (fl(i := rev cs @ fl i))"
    "geometry s1 = geometry ?s" "\<And>x. x \<notin> set cs \<Longrightarrow> x \<notin> set (fl i) \<Longrightarrow> mem s1 x = mem ?s x"
    using len by (auto simp: split_slab_page_into_freelist_def clear_mem_def)
  have g: "geometry s1 = geometry s" using s1(3) by (simp add: geometry_def clear_mem_def)
  note gc = geometry_classes [OF g slabs_repD(1) [OF rep]]
  have "unat (slabs (slabclass s1 ! i)) < length (slab_list (slabclass s1 ! i))" using room gc(4) [of i] len slabs_repD(1) [OF rep] by simp
  from add_page_rep [OF s1(2) _ i(1) _ this, of cfg a] obtain s2 where s2: "add_page i a s1 = Inr s2"
    "slabs_rep s2 (fl(i := rev cs @ fl i))" "classes_ok cfg s2" "mem s2 = mem s1" "power_largest s2 = power_largest s1"
    using geometry_classes_ok [OF g rep] ok gc(2) i(2) by auto
  have "mem s2 x = mem s x" if "x \<notin> taken fl" "x < a \<or> a + unat len \<le> x" for x
  proof -
    have "x \<notin> set cs" "x \<notin> set (fl i)" using that rng [of x] by (auto simp: taken_def)
    then show ?thesis using s1(4) s2(4) that(2) by (auto simp: clear_mem_def)
  qed
  then show ?thesis using s1(1) s2 gc(2) by auto
qed

lemma chunks_page:
  assumes "class_ok cfg p" and "x \<in> set (chunks a (unat (sc_size p)) (unat (perslab p)))"
  shows "a \<le> x" and "x < a + unat (page_len cfg p)"
proof -
  have "0 < unat (sc_size p)" "unat (perslab p) * unat (sc_size p) \<le> unat (page_len cfg p)"
    using assms(1) by (auto simp: class_ok_def unat_gt_0)
  then show "a \<le> x" "x < a + unat (page_len cfg p)" using chunks_range [OF _ assms(2)] by linarith+
qed

text \<open>With an empty pool a page comes from \<open>malloc\<close>.\<close>

lemma find_page_rep:
  assumes rep: "slabs_rep s fl" and ok: "classes_ok cfg s" and i: "1 \<le> i" "i \<le> power_largest s"
    and room: "unat (slabs (slabclass s ! i)) < 2 ^ 31"
  shows "\<exists>s' ptr. find_page orc i len s = Inr (s', ptr) \<and> slabs_rep s' fl \<and> classes_ok cfg s' \<and> mem s' = mem s
     \<and> power_largest s' = power_largest s \<and> sc_size (slabclass s' ! i) = sc_size (slabclass s ! i) \<and> perslab (slabclass s' ! i) = perslab (slabclass s ! i)
     \<and> (ptr = None \<or> ptr = snd orc \<and> unat (slabs (slabclass s' ! i)) < length (slab_list (slabclass s' ! i)))"
proof -
  obtain s1 grown where g: "grow_slab_list (fst orc) i s = Inr (s1, grown)" "slabs_rep s1 fl" "classes_ok cfg s1" "mem s1 = mem s"
    "power_largest s1 = power_largest s" "sc_size (slabclass s1 ! i) = sc_size (slabclass s ! i)" "perslab (slabclass s1 ! i) = perslab (slabclass s ! i)"
    "grown \<longrightarrow> unat (slabs (slabclass s1 ! i)) < length (slab_list (slabclass s1 ! i))"
    using grow_slab_list_rep [OF rep ok i room] by blast
  let ?s2 = "s1\<lparr>mem_malloced := mem_malloced s1 + len\<rparr>"
  have "get_page_from_global_pool s1 = Inr (s1, None)"
    using g(3) slabs_repD(1) [OF g(2)] by (simp add: get_page_from_global_pool_def SLAB_GLOBAL_PAGE_POOL_def classes_ok_def)
  then have fp: "find_page orc i len s = Inr (if grown then (?s2, snd orc) else (s1, None))"
    using g(1,3) by (simp add: find_page_def memory_allocate_def classes_ok_def)
  have "slabs_rep ?s2 fl" "classes_ok cfg ?s2" using g(2,3) by (simp_all add: slabs_rep_def classes_ok_def)
  then show ?thesis using fp g by (cases grown) simp_all
qed

text \<open>What a request for a page leaves: the same free chunks, or those of the page in front of them.\<close>

definition page_added :: "slab_settings \<Rightarrow> slab_state \<Rightarrow> (nat \<Rightarrow> addr list) \<Rightarrow> nat \<Rightarrow> addr option \<Rightarrow> slab_state \<Rightarrow> addr list \<Rightarrow> bool" where
  "page_added cfg s fl i page s' cs \<longleftrightarrow> slabs_rep s' (fl(i := cs @ fl i)) \<and> classes_ok cfg s' \<and> power_largest s' = power_largest s
     \<and> (cs = [] \<and> mem s' = mem s \<or> (\<exists>a. page = Some a \<and> (\<forall>x \<in> set cs. a \<le> x \<and> x < a + unat (page_len cfg (slabclass s ! i)))
          \<and> (\<forall>x. x \<notin> taken fl \<longrightarrow> x < a \<or> a + unat (page_len cfg (slabclass s ! i)) \<le> x \<longrightarrow> mem s' x = mem s x)))"

lemma page_added_none:
  "slabs_rep s' fl \<Longrightarrow> classes_ok cfg s' \<Longrightarrow> power_largest s' = power_largest s \<Longrightarrow> mem s' = mem s \<Longrightarrow> page_added cfg s fl i page s' []"
  by (simp add: page_added_def)

lemma do_slabs_newslab_rep:
  assumes rep: "slabs_rep s fl" and ok: "classes_ok cfg s" and i: "1 \<le> i" "i \<le> power_largest s"
    and fresh: "fresh_page cfg (slabclass s ! i) (taken fl) (snd orc)" and full: "length (fl i) + unat (perslab (slabclass s ! i)) < 2 ^ 32"
    and room: "unat (slabs (slabclass s ! i)) < 2 ^ 31"
  shows "\<exists>s' b cs. do_slabs_newslab cfg orc i s = Some (Inr (s', b)) \<and> page_added cfg s fl i (snd orc) s' cs"
proof -
  let ?p = "slabclass s ! i" and ?g = "slabclass s ! 0" and ?len = "page_len cfg (slabclass s ! i)"
  have look: "bindE (idx (slabclass s) i) (\<lambda>p. bindE (idx (slabclass s) SLAB_GLOBAL_PAGE_POOL) (\<lambda>g. Inr (p, g))) = Inr (?p, ?g)"
    using slabs_repD(1,2) [OF rep] i by (simp add: SLAB_GLOBAL_PAGE_POOL_def)
  note new = do_slabs_newslab_def [of cfg orc i s, unfolded look]
  obtain s1 ptr where f: "find_page orc i ?len s = Inr (s1, ptr)" "slabs_rep s1 fl" "classes_ok cfg s1" "mem s1 = mem s"
    "power_largest s1 = power_largest s" "sc_size (slabclass s1 ! i) = sc_size ?p" "perslab (slabclass s1 ! i) = perslab ?p"
    "ptr = None \<or> ptr = snd orc \<and> unat (slabs (slabclass s1 ! i)) < length (slab_list (slabclass s1 ! i))"
    using find_page_rep [OF rep ok i room] by blast
  have pl: "page_len cfg (slabclass s1 ! i) = ?len" using f(6,7) by (simp add: page_len_def)
  consider (limit) "mem_limit s \<noteq> 0 \<and> mem_malloced s + ?len > mem_limit s \<and> slabs ?p > 0 \<and> slabs ?g = 0"
    | (none) "\<not> (mem_limit s \<noteq> 0 \<and> mem_malloced s + ?len > mem_limit s \<and> slabs ?p > 0 \<and> slabs ?g = 0)" "ptr = None"
    | (page) a where "\<not> (mem_limit s \<noteq> 0 \<and> mem_malloced s + ?len > mem_limit s \<and> slabs ?p > 0 \<and> slabs ?g = 0)" "ptr = Some a" by blast
  then show ?thesis
  proof cases
    case limit
    then have "do_slabs_newslab cfg orc i s = Some (Inr (s\<lparr>mem_limit_reached := True\<rparr>, False))"
      unfolding new by (simp add: Let_def)
    then show ?thesis using page_added_none [of "s\<lparr>mem_limit_reached := True\<rparr>" fl cfg s i "snd orc"] rep ok
      by (auto simp: slabs_rep_def classes_ok_def)
  next
    case none
    then have "do_slabs_newslab cfg orc i s = Some (Inr (s1, False))" unfolding new using f(1) by (auto simp: Let_def)
    then show ?thesis using page_added_none [OF f(2,3,5,4)] by blast
  next
    case (page a)
    have a: "snd orc = Some a" "unat (slabs (slabclass s1 ! i)) < length (slab_list (slabclass s1 ! i))" using f(8) page(2) by auto
    have "fresh_page cfg (slabclass s1 ! i) (taken fl) (Some a)" "length (fl i) + unat (perslab (slabclass s1 ! i)) < 2 ^ 32"
      using fresh full a pl f(7) by (simp_all add: fresh_page_def)
    from fill_page_rep [OF f(2,3) i(1) i(2) [folded f(5)] this a(2)] obtain s' where s':
      "(case split_slab_page_into_freelist a i (clear_mem a (unat ?len) s1) of None \<Rightarrow> None | Some (Inl e) \<Rightarrow> Some (Inl e)
         | Some (Inr s) \<Rightarrow> Some (bindE (add_page i a s) (\<lambda>s. Inr (s, True)))) = Some (Inr (s', True))"
      "slabs_rep s' (fl(i := rev (chunks a (unat (sc_size ?p)) (unat (perslab ?p))) @ fl i))" "classes_ok cfg s'" "power_largest s' = power_largest s"
      "\<forall>x. x \<notin> taken fl \<longrightarrow> x < a \<or> a + unat ?len \<le> x \<longrightarrow> mem s' x = mem s x"
      unfolding pl f(4,5,6,7) by blast
    have "class_ok cfg ?p" using ok i by (simp add: classes_ok_def)
    then have "page_added cfg s fl i (snd orc) s' (rev (chunks a (unat (sc_size ?p)) (unat (perslab ?p))))"
      using s'(2-5) chunks_page [of cfg ?p] unfolding page_added_def a(1) set_rev by blast
    moreover have "do_slabs_newslab cfg orc i s = Some (Inr (s', True))" unfolding new using page f(1) s'(1) by (auto simp: Let_def)
    ultimately show ?thesis by blast
  qed
qed

lemma alloc_asserts:
  assumes "slabs_rep s fl" and "i < 64"
  shows "\<not> (sl_curr (slabclass s ! i) \<noteq> 0 \<and> (case slots (slabclass s ! i) of None \<Rightarrow> True | Some a \<Rightarrow> hflags (mem s a) AND ITEM_SLABBED = 0))"
  using slabs_repD(3) [OF assms] sl_curr_0 [OF slabs_repD(3) [OF assms]]
  by (cases "fl i") (auto simp: class_free_def ITEM_SLABBED_def)

text \<open>
  The allocator with the chunks in use: \<open>u\<close> gives the class of each. An invariant: no chunk is free and in use,
  and the ones in use are not chained items.
\<close>

definition slab_inv :: "slab_settings \<Rightarrow> slab_state \<Rightarrow> (addr \<rightharpoonup> nat) \<Rightarrow> (nat \<Rightarrow> addr list) \<Rightarrow> bool" where
  "slab_inv cfg s u fl \<longleftrightarrow> slabs_rep s fl \<and> classes_ok cfg s \<and> taken fl \<inter> dom u = {}
     \<and> (\<forall>a i. u a = Some i \<longrightarrow> 1 \<le> i \<and> i \<le> power_largest s \<and> hflags (mem s a) AND ITEM_CHUNKED = 0)"

definition page_unused :: "slab_settings \<Rightarrow> slab_state \<Rightarrow> (addr \<rightharpoonup> nat) \<Rightarrow> nat \<Rightarrow> addr option \<Rightarrow> bool" where
  "page_unused cfg s u i page \<longleftrightarrow> (\<forall>fl. slabs_rep s fl \<longrightarrow> fresh_page cfg (slabclass s ! i) (taken fl \<union> dom u) page)"

text \<open>Allocation of a chunk by the list it comes from.\<close>

definition handed_out :: "slab_settings \<Rightarrow> slab_state \<Rightarrow> (addr \<rightharpoonup> nat) \<Rightarrow> nat \<Rightarrow> slab_state \<Rightarrow> addr option \<Rightarrow> bool" where
  "handed_out cfg s u i s' r \<longleftrightarrow> (\<forall>x \<in> dom u. mem s' x = mem s x)
     \<and> (case r of None \<Rightarrow> \<exists>fl. slab_inv cfg s' u fl
        | Some a \<Rightarrow> u a = None \<and> hflags (mem s' a) = 0 \<and> hrefcount (mem s' a) = 1 \<and> (\<exists>fl. slab_inv cfg s' (u(a \<mapsto> i)) fl))"

lemma pop_handed_out:
  assumes inv: "slab_inv cfg s u fl" and i: "1 \<le> i" "i \<le> power_largest s"
  shows "\<exists>s' r. pop_slot i s = Inr (s', r) \<and> handed_out cfg s u i s' r"
proof -
  have rep: "slabs_rep s fl" and i64: "i < 64" using inv i(2) slabs_repD(2) by (fastforce simp: slab_inv_def)+
  show ?thesis
  proof (cases "fl i")
    case Nil
    then show ?thesis using pop_slot_eq [OF rep i64] inv by (auto simp: handed_out_def)
  next
    case (Cons a as)
    let ?s = "popped i a s"
    have cf: "class_free (mem s) (slabclass s ! i) (a # as)" using slabs_repD(3) [OF rep i64] Cons by simp
    have u: "x \<notin> set (a # as)" if "x \<in> dom u" for x proof -
      have "set (fl i) \<subseteq> taken fl" by (auto simp: taken_def)
      then show ?thesis using inv that Cons by (auto simp: slab_inv_def)
    qed
    have m: "mem ?s x = mem s x" if "x \<in> dom u" for x using unlink_first(1) [OF cf u [OF that]] by (simp add: popped_def)
    have a: "hflags (mem ?s a) = 0" "hrefcount (mem ?s a) = 1" "u a = None"
      using unlink_first(2,3) [OF cf] u [of a] by (auto simp: popped_def)
    have g: "geometry ?s = geometry s" using popped_geometry slabs_repD(1) [OF rep] i64 by simp
    have "a \<notin> set ((fl(i := as)) j)" for j using slabs_repD(4) [OF rep, of a i j] Cons cf by (auto simp: class_free_def)
    then have "a \<notin> taken (fl(i := as))" by (auto simp: taken_def)
    moreover have "taken (fl(i := as)) \<subseteq> taken fl" using Cons by (auto simp: taken_def split: if_splits)
    ultimately have "taken (fl(i := as)) \<inter> dom (u(a \<mapsto> i)) = {}" using inv unfolding slab_inv_def dom_fun_upd by auto
    moreover have "1 \<le> j \<and> j \<le> power_largest ?s \<and> hflags (mem ?s x) AND ITEM_CHUNKED = 0" if "(u(a \<mapsto> i)) x = Some j" for x j
    proof (cases "x = a")
      case False
      then have "u x = Some j" "mem ?s x = mem s x" using that m [of x] by auto
      then show ?thesis using inv by (simp add: slab_inv_def popped_def)
    qed (use that a(1) i in \<open>simp add: popped_def\<close>)
    ultimately have "slab_inv cfg ?s (u(a \<mapsto> i)) (fl(i := as))"
      using popped_rep [OF rep i64 Cons] geometry_classes_ok [OF g rep] inv unfolding slab_inv_def by blast
    then show ?thesis using pop_slot_eq [OF rep i64] Cons m a by (auto simp: handed_out_def)
  qed
qed

lemma page_added_inv:
  assumes inv: "slab_inv cfg s u fl" and "page_added cfg s fl i page s' cs"
    and fresh: "fresh_page cfg (slabclass s ! i) (taken fl \<union> dom u) page"
  shows "slab_inv cfg s' u (fl(i := cs @ fl i))" and "x \<in> dom u \<Longrightarrow> mem s' x = mem s x"
proof -
  have free: "x \<notin> taken fl" if "x \<in> dom u" for x using inv that by (auto simp: slab_inv_def)
  have pa: "slabs_rep s' (fl(i := cs @ fl i))" "classes_ok cfg s'" "power_largest s' = power_largest s"
    using assms(2) unfolding page_added_def by blast+
  have u: "x \<notin> set cs \<and> mem s' x = mem s x" if "x \<in> dom u" for x
  proof (cases "cs = [] \<and> mem s' = mem s")
    case False
    then obtain a where a: "page = Some a" "\<And>x. x \<in> set cs \<Longrightarrow> a \<le> x \<and> x < a + unat (page_len cfg (slabclass s ! i))"
      "\<And>x. x \<notin> taken fl \<Longrightarrow> x < a \<or> a + unat (page_len cfg (slabclass s ! i)) \<le> x \<Longrightarrow> mem s' x = mem s x"
      using assms(2) unfolding page_added_def by blast
    have "x < a \<or> a + unat (page_len cfg (slabclass s ! i)) \<le> x" using fresh that a(1) by (auto simp: fresh_page_def)
    then show ?thesis using a(2) [of x] a(3) [OF free [OF that]] by linarith
  qed simp
  then show "x \<in> dom u \<Longrightarrow> mem s' x = mem s x" by blast
  have "taken (fl(i := cs @ fl i)) \<subseteq> taken fl \<union> set cs" by (auto simp: taken_def split: if_splits)
  then have "taken (fl(i := cs @ fl i)) \<inter> dom u = {}" using u free by blast
  moreover have "1 \<le> j \<and> j \<le> power_largest s' \<and> hflags (mem s' x) AND ITEM_CHUNKED = 0" if "u x = Some j" for x j
  proof -
    have "mem s' x = mem s x" using u [of x] that by blast
    then show ?thesis using inv that pa(3) by (simp add: slab_inv_def)
  qed
  ultimately show "slab_inv cfg s' u (fl(i := cs @ fl i))" using pa(1,2) unfolding slab_inv_def by blast
qed

lemma do_slabs_alloc_handed_out:
  assumes inv: "slab_inv cfg s u fl" and i: "1 \<le> i" "i \<le> power_largest s" and sz: "sz \<le> ucast (sc_size (slabclass s ! i))"
    and fresh: "page_unused cfg s u i (snd orc)" and room: "unat (slabs (slabclass s ! i)) < 2 ^ 31"
  shows "\<exists>s' r. do_slabs_alloc cfg orc sz i no_newpage s = Some (Inr (s', r)) \<and> handed_out cfg s u i s' r"
proof -
  have rep: "slabs_rep s fl" and ok: "classes_ok cfg s" using inv by (simp_all add: slab_inv_def)
  have i64: "i < 64" "i < length (slabclass s)" using i(2) slabs_repD(1,2) [OF rep] by simp_all
  have fr: "fresh_page cfg (slabclass s ! i) (taken fl \<union> dom u) (snd orc)" using fresh rep by (simp add: page_unused_def)
  have alloc: "do_slabs_alloc cfg orc sz i no_newpage s = (if sl_curr (slabclass s ! i) = 0 \<and> \<not> no_newpage then
       (case do_slabs_newslab cfg orc i s of None \<Rightarrow> None | Some (Inl e) \<Rightarrow> Some (Inl e) | Some (Inr (s, _)) \<Rightarrow> Some (pop_slot i s))
       else Some (pop_slot i s))"
    using i i64 sz alloc_asserts [OF rep i64(1)] unfolding do_slabs_alloc_def POWER_SMALLEST_def by auto
  show ?thesis
  proof (cases "sl_curr (slabclass s ! i) = 0 \<and> \<not> no_newpage")
    case False
    then show ?thesis using alloc pop_handed_out [OF inv i] by (auto simp del: disj_not1)
  next
    case True
    then have "fl i = []" using sl_curr_0 [OF slabs_repD(3) [OF rep i64(1)]] by simp
    moreover have "unat (perslab (slabclass s ! i)) < 2 ^ 32" using unsigned_less [of "perslab (slabclass s ! i)"] by simp
    ultimately obtain s1 b cs where n: "do_slabs_newslab cfg orc i s = Some (Inr (s1, b))" "page_added cfg s fl i (snd orc) s1 cs"
      using do_slabs_newslab_rep [OF rep ok i _ _ room, of orc] fr by (auto simp: fresh_page_def split: option.splits)
    note pa = page_added_inv [OF inv n(2) fr]
    have "i \<le> power_largest s1" using n(2) i(2) by (simp add: page_added_def)
    from pop_handed_out [OF pa(1) i(1) this] obtain s2 r where "pop_slot i s1 = Inr (s2, r)" "handed_out cfg s1 u i s2 r" by blast
    then show ?thesis using alloc True n(1) pa(2) by (auto simp: handed_out_def)
  qed
qed

lemma do_slabs_free_inv:
  assumes inv: "slab_inv cfg s u fl" and a: "u a = Some i" and room: "unat (sl_curr (slabclass s ! i)) + 1 < 2 ^ 32"
  shows "\<exists>s'. do_slabs_free a i s = Some (Inr s') \<and> slab_inv cfg s' (u(a := None)) (fl(i := a # fl i)) \<and> (\<forall>x \<in> dom u - {a}. mem s' x = mem s x)"
proof -
  have rep: "slabs_rep s fl" and i: "1 \<le> i" "i \<le> power_largest s" and fl: "hflags (mem s a) AND ITEM_CHUNKED = 0"
    using inv a by (auto simp: slab_inv_def)
  have i64: "i < 64" using i(2) slabs_repD(2) [OF rep] by simp
  have out: "x \<notin> set (fl j)" if "x \<in> dom u" for x j using inv that by (auto simp: slab_inv_def taken_def)
  have "Suc (length (fl i)) < 2 ^ 32"
    using room slabs_repD(3) [OF rep i64] unat_of_nat_eq [of "length (fl i)", where ?'a = 32] by (simp add: class_free_def)
  note fr = do_slabs_free_rep [OF rep i out [OF domI [of u a, OF a]] fl this]
  let ?s = "freed i a s"
  have g: "geometry ?s = geometry s" using freed_geometry slabs_repD(1) [OF rep] i64 by simp
  have m: "mem ?s x = mem s x" if "x \<in> dom u" "x \<noteq> a" for x using fr(3) [OF that(2) out [OF that(1)]] .
  have "taken (fl(i := a # fl i)) \<subseteq> insert a (taken fl)" by (auto simp: taken_def split: if_splits)
  then have "taken (fl(i := a # fl i)) \<inter> dom (u(a := None)) = {}" using inv by (auto simp: slab_inv_def)
  moreover have "1 \<le> j \<and> j \<le> power_largest ?s \<and> hflags (mem ?s x) AND ITEM_CHUNKED = 0" if "(u(a := None)) x = Some j" for x j
  proof -
    have "u x = Some j" "mem ?s x = mem s x" using that m [of x] by (auto split: if_splits)
    then show ?thesis using inv geometry_classes(2) [OF g slabs_repD(1) [OF rep]] by (simp add: slab_inv_def)
  qed
  ultimately have "slab_inv cfg ?s (u(a := None)) (fl(i := a # fl i))"
    using fr(2) geometry_classes_ok [OF g rep] inv unfolding slab_inv_def by blast
  then show ?thesis using fr(1) m by blast
qed

section \<open>Initialisation\<close>

definition fresh_class :: "slab_settings \<Rightarrow> slabclass_t \<Rightarrow> bool" where
  "fresh_class cfg p \<longleftrightarrow> (\<exists>sz. sz \<noteq> 0 \<and> p = empty_class\<lparr>sc_size := sz, perslab := slab_page_size cfg div sz\<rparr>)"

lemma fresh_class_ok: "fresh_class cfg p \<Longrightarrow> class_ok cfg p \<and> pages_ok p"
proof -
  assume "fresh_class cfg p"
  then obtain sz where sz: "sz \<noteq> 0" "p = empty_class\<lparr>sc_size := sz, perslab := slab_page_size cfg div sz\<rparr>" by (auto simp: fresh_class_def)
  have le: "unat (slab_page_size cfg div sz) * unat sz \<le> unat (slab_page_size cfg)"
    by (simp add: unat_div div_times_less_eq_dividend)
  also have "\<dots> < 2 ^ 32" using unsigned_less [of "slab_page_size cfg"] by simp
  finally have "unat sz * unat (slab_page_size cfg div sz) < 2 ^ LENGTH(32)" by (simp add: mult.commute)
  then have "unat (sz * (slab_page_size cfg div sz)) = unat (slab_page_size cfg div sz) * unat sz"
    by (subst unat_mult_lem [THEN iffD1]) (simp_all add: mult.commute)
  then show ?thesis using sz le by (auto simp: class_ok_def pages_ok_def page_len_def empty_class_def word_gt_0)
qed

definition classes_upto :: "slab_settings \<Rightarrow> nat \<Rightarrow> slabclass_t list \<Rightarrow> bool" where
  "classes_upto cfg k cls \<longleftrightarrow> length cls = 64 \<and> (\<forall>j. 1 \<le> j \<longrightarrow> j < k \<longrightarrow> fresh_class cfg (cls ! j))
     \<and> (\<forall>j < 64. j = 0 \<or> k \<le> j \<longrightarrow> cls ! j = empty_class)"

lemma classes_upto_Suc:
  "classes_upto cfg k cls \<Longrightarrow> 1 \<le> k \<Longrightarrow> k < 64 \<Longrightarrow> sz \<noteq> 0 \<Longrightarrow>
     classes_upto cfg (Suc k) (cls[k := empty_class\<lparr>sc_size := sz, perslab := slab_page_size cfg div sz\<rparr>])"
  by (auto simp: classes_upto_def nth_list_update fresh_class_def less_Suc_eq)

lemma init_classes_upto:
  assumes "init_classes cfg too_big grow sizes [k..<63] sz cls = Inr (cls', n)" and "classes_upto cfg k cls" and "1 \<le> k" and "k + d = 63"
  shows "1 \<le> n \<and> n < 64 \<and> classes_upto cfg n cls'"
  using assms
proof (induction d arbitrary: k sz cls)
  case 0
  then show ?case by (simp add: MAX_NUMBER_OF_SLAB_CLASSES_def)
next
  case (Suc d)
  have k: "k < 63" using Suc.prems(4) by simp
  then have "[k..<63] = k # [Suc k..<63]" by (rule upt_conv_Cons)
  then consider (stop) "cls' = cls" "n = k" | (more) sz1 sz2 where "sz1 \<noteq> 0"
      "init_classes cfg too_big grow sizes [Suc k..<63] sz2 (cls[k := empty_class\<lparr>sc_size := sz1, perslab := slab_page_size cfg div sz1\<rparr>]) = Inr (cls', n)"
    using Suc.prems(1) by (auto simp: Let_def bindE_eq_Inr upd_def split: if_splits)
  then show ?case
  proof cases
    case stop
    then show ?thesis using Suc.prems(2,3) k by simp
  next
    case more
    show ?thesis by (rule Suc.IH [OF more(2) classes_upto_Suc [OF Suc.prems(2,3) _ more(1)]]) (use k Suc.prems(4) in simp_all)
  qed
qed

lemma slabs_init_inv:
  assumes "slabs_init cfg too_big grow orc limit False large initial sizes external reuse s0 = Some (Inr s)" and "mem_base s0 = None"
  shows "slab_inv cfg s Map.empty (\<lambda>_. [])"
proof -
  have r: "[POWER_SMALLEST..<MAX_NUMBER_OF_SLAB_CLASSES - 1] = [1..<63]" by (simp add: POWER_SMALLEST_def MAX_NUMBER_OF_SLAB_CLASSES_def)
  obtain cls n where c: "init_classes cfg too_big grow sizes [1..<63] (word_of_nat SIZEOF_ITEM + set_chunk_size cfg)
      (replicate MAX_NUMBER_OF_SLAB_CLASSES empty_class) = Inr (cls, n)" "slab_chunk_size_max cfg \<noteq> 0"
    and s: "slabclass s = cls[n := (cls ! n)\<lparr>sc_size := slab_chunk_size_max cfg, perslab := slab_page_size cfg div slab_chunk_size_max cfg\<rparr>]"
      "power_largest s = n" "mem_base s = None"
    using assms unfolding slabs_init_def r
    by (auto simp: init_memory_def Let_def split: sum.splits if_splits option.splits)
  have "classes_upto cfg 1 (replicate MAX_NUMBER_OF_SLAB_CLASSES empty_class)"
    by (simp add: classes_upto_def MAX_NUMBER_OF_SLAB_CLASSES_def)
  from init_classes_upto [OF c(1) this, of 62] have n: "1 \<le> n" "n < 64" "classes_upto cfg n cls" by simp_all
  have "cls ! n = empty_class" using n by (simp add: classes_upto_def)
  then have up: "classes_upto cfg (Suc n) (slabclass s)" using classes_upto_Suc [OF n(3,1,2) c(2)] s(1) by simp
  have "fresh_class cfg (slabclass s ! j) \<or> slabclass s ! j = empty_class" if "j < 64" for j
  proof -
    have "(1 \<le> j \<and> j < Suc n) \<or> (j = 0 \<or> Suc n \<le> j)" by linarith
    then show ?thesis using up that unfolding classes_upto_def by blast
  qed
  then have "class_free (mem s) (slabclass s ! j) []" if "j < 64" for j
    using that by (fastforce simp: class_free_def fresh_class_def empty_class_def)
  then have "slabs_rep s (\<lambda>_. [])" using up n s(2) by (simp add: slabs_rep_def classes_upto_def)
  moreover have e: "slabclass s ! 0 = empty_class" using up unfolding classes_upto_def by (metis zero_less_numeral)
  have "slabs (slabclass s ! 0) = 0" unfolding e by (simp add: empty_class_def)
  then have "classes_ok cfg s" using up s(2,3) fresh_class_ok unfolding classes_ok_def classes_upto_def by (metis less_Suc_eq_le)
  ultimately show ?thesis by (simp add: slab_inv_def taken_def)
qed

section \<open>The allocator as a transition system\<close>

text \<open>
  The steps of its clients: they allocate, write the header of a chunk they hold, and free it. The page an
  allocation may get from \<open>malloc\<close> overlaps no chunk, and the counters of a class do not overflow.
\<close>

inductive slab_step :: "slab_settings \<Rightarrow> slab_state \<times> (addr \<rightharpoonup> nat) \<Rightarrow> slab_state \<times> (addr \<rightharpoonup> nat) \<Rightarrow> bool" for cfg where
  alloc: "1 \<le> i \<Longrightarrow> i \<le> power_largest s \<Longrightarrow> sz \<le> ucast (sc_size (slabclass s ! i)) \<Longrightarrow> page_unused cfg s u i (snd orc) \<Longrightarrow>
    unat (slabs (slabclass s ! i)) < 2 ^ 31 \<Longrightarrow> do_slabs_alloc cfg orc sz i no_newpage s = Some (Inr (s', r)) \<Longrightarrow>
    slab_step cfg (s, u) (s', case r of None \<Rightarrow> u | Some a \<Rightarrow> u(a \<mapsto> i))"
| modify: "u a = Some i \<Longrightarrow> hflags h AND ITEM_CHUNKED = 0 \<Longrightarrow> slab_step cfg (s, u) (set_hdr a (\<lambda>_. h) s, u)"
| free: "u a = Some i \<Longrightarrow> unat (sl_curr (slabclass s ! i)) + 1 < 2 ^ 32 \<Longrightarrow> do_slabs_free a i s = Some (Inr s') \<Longrightarrow>
    slab_step cfg (s, u) (s', u(a := None))"

lemma write_inv:
  assumes inv: "slab_inv cfg s u fl" and "u a = Some i" and "hflags h AND ITEM_CHUNKED = 0"
  shows "slab_inv cfg (set_hdr a (\<lambda>_. h) s) u fl"
proof -
  have "x \<noteq> a" if "x \<in> set (fl j)" for x j using inv that assms(2) by (auto simp: slab_inv_def taken_def)
  then have "slabs_rep (set_hdr a (\<lambda>_. h) s) fl"
    using slabs_rep_frame [of s fl "set_hdr a (\<lambda>_. h) s"] inv by (simp add: slab_inv_def set_hdr_def)
  then show ?thesis using inv assms(3) by (auto simp: slab_inv_def set_hdr_def classes_ok_def)
qed

lemma slab_step_inv:
  assumes "slab_step cfg (s, u) (s', u')" and "slab_inv cfg s u fl"
  shows "\<exists>fl. slab_inv cfg s' u' fl"
  using assms(1)
proof cases
  case (alloc i sz orc no_newpage r)
  then obtain s1 r1 where "do_slabs_alloc cfg orc sz i no_newpage s = Some (Inr (s1, r1))" "handed_out cfg s u i s1 r1"
    using do_slabs_alloc_handed_out [OF assms(2)] by blast
  then show ?thesis using alloc by (auto simp: handed_out_def split: option.splits)
next
  case (modify a i h)
  then show ?thesis using write_inv [OF assms(2)] by blast
next
  case (free a i)
  then show ?thesis using do_slabs_free_inv [OF assms(2)] by fastforce
qed

lemma slab_steps_inv:
  assumes "(slab_step cfg)\<^sup>*\<^sup>* (s, u) (s', u')" and "slab_inv cfg s u fl"
  shows "\<exists>fl. slab_inv cfg s' u' fl"
  using assms(1)
proof (induction rule: rtranclp_induct2)
  case refl
  then show ?case using assms(2) by blast
next
  case (step s1 u1 s2 u2)
  then show ?case using slab_step_inv by blast
qed


definition tiny_settings :: slab_settings where
  "tiny_settings = \<lparr>set_chunk_size = 48, item_size_max = 1024, slab_page_size = 1024, slab_chunk_size_max = 512, slab_reassign = True\<rparr>"

definition tiny_slabs :: slab_state where
  "tiny_slabs = \<lparr>slabclass = [], mem_limit = 0, mem_malloced = 0, mem_limit_reached = False, power_largest = 0, mem_base = None,
     mem_current = 0, mem_avail = 0, mem = (\<lambda>_. zero_hdr)\<rparr>"

lemma tiny_slabs_init:
  "\<exists>s. slabs_init tiny_settings (\<lambda>_. True) (\<lambda>x. x) (\<lambda>_. (True, None)) 0 False None None None None False tiny_slabs = Some (Inr s)
     \<and> power_largest s = 1 \<and> sc_size (slabclass s ! 1) = 512 \<and> slabs (slabclass s ! 1) = 0"
proof -
  have "[1..<63] = 1 # [Suc 1..<63]" by (rule upt_conv_Cons) simp
  moreover have "MAX_NUMBER_OF_SLAB_CLASSES - 1 = 63" by (simp add: MAX_NUMBER_OF_SLAB_CLASSES_def)
  ultimately have r: "[POWER_SMALLEST..<MAX_NUMBER_OF_SLAB_CLASSES - 1] = 1 # [Suc 1..<63]" unfolding POWER_SMALLEST_def by metis
  show ?thesis unfolding slabs_init_def r
    by (simp add: init_memory_def tiny_settings_def tiny_slabs_def MAX_NUMBER_OF_SLAB_CLASSES_def empty_class_def)
qed


end
