(* ===== verification/Mc_Items.thy ===== *)
theory Mc_Items
  imports Mc_Assoc
begin

text \<open>
  The items of the cache, \<^verbatim>\<open>src/memcached/items.c\<close>: the queues of least recently used items, linking and unlinking,
  reference counts, lookup with lazy expiry, and the statistics these keep. An array that is indexed by the
  class byte of an item is a function of that byte. Items given back to the slab allocator are listed in
  \<open>slab_freed\<close>. The build is the one without external storage. The lemmas relate each queue to a list and the
  whole to a map from keys to items, and show what every operation does to both.
\<close>

section \<open>The code\<close>

text \<open>Sequencing of computations that may not return.\<close>

definition bindO :: "'a res option \<Rightarrow> ('a \<Rightarrow> 'b res option) \<Rightarrow> 'b res option" where
  "bindO m f = (case m of None \<Rightarrow> None | Some (Inl e) \<Rightarrow> Some (Inl e) | Some (Inr x) \<Rightarrow> f x)"

lemma bindO_Inr [simp]: "bindO (Some (Inr x)) f = f x"
  by (simp add: bindO_def)

record kv_settings =
  use_cas :: bool
  lru_segmented :: bool
  oldest_live :: u32
  oldest_cas :: u64
  temp_lru :: bool
  temporary_ttl :: u32
  slab_chunk_size_max :: u64
  tail_repair_time :: u32
  hot_lru_pct :: u64
  warm_lru_pct :: u64
  evict_to_free :: bool
  automove_mode :: int

record itemstats_t =
  evicted :: u64
  evicted_nonzero :: u64
  reclaimed :: u64
  outofmemory :: u64
  tailrepairs :: u64
  expired_unfetched :: u64
  evicted_unfetched :: u64
  evicted_active :: u64
  lrutail_reflocked :: u64
  moves_to_cold :: u64
  moves_to_warm :: u64
  moves_within_lru :: u64
  direct_reclaims :: u64
  evicted_time :: u32

record kv =
  items :: heap
  table :: assoc
  heads :: "byte \<Rightarrow> addr option"
  tails :: "byte \<Rightarrow> addr option"
  sizes :: "byte \<Rightarrow> u32"
  sizes_bytes :: "byte \<Rightarrow> u64"
  itemstats :: "byte \<Rightarrow> itemstats_t"
  curr_bytes :: u64
  curr_items :: u64
  total_items :: u64
  cas_id :: u64
  stats_sizes_hist :: "u32 list option"
  stats_sizes_cas_min :: u64
  get_flushed :: u64
  get_expired :: u64
  bump_queue :: "(addr \<times> u32) list"
  bumps_dropped :: u64
  slab_freed :: "addr list"
  reassign_calls :: "nat list"

definition HOT_LRU :: byte where "HOT_LRU = 0"
definition WARM_LRU :: byte where "WARM_LRU = 64"
definition COLD_LRU :: byte where "COLD_LRU = 128"
definition TEMP_LRU :: byte where "TEMP_LRU = 192"
definition ITEM_UPDATE_INTERVAL :: u32 where "ITEM_UPDATE_INTERVAL = 60"

definition ITEM_clsid :: "item \<Rightarrow> byte" where "ITEM_clsid it = slabs_clsid it AND 63"
definition ITEM_lruid :: "item \<Rightarrow> byte" where "ITEM_lruid it = slabs_clsid it AND 192"

definition ITEM_get_cas :: "item \<Rightarrow> u64" where
  "ITEM_get_cas it = (if has_flag it ITEM_CAS then cas it else 0)"

definition ITEM_set_cas :: "u64 \<Rightarrow> item \<Rightarrow> item" where
  "ITEM_set_cas v it = (if has_flag it ITEM_CAS then it\<lparr>cas := v\<rparr> else it)"

definition ITEM_ntotal :: "item \<Rightarrow> u64" where
  "ITEM_ntotal it = 80 + word_of_nat (length (ikey it)) + 1 + word_of_int (nbytes it)
     + (if has_flag it ITEM_CFLAGS then 4 else 0) + (if has_flag it ITEM_CAS then 8 else 0)"

definition set_item :: "addr \<Rightarrow> (item \<Rightarrow> item) \<Rightarrow> kv \<Rightarrow> kv" where
  "set_item a f s = s\<lparr>items := (items s)(a := f (items s a))\<rparr>"

definition set_stats :: "byte \<Rightarrow> (itemstats_t \<Rightarrow> itemstats_t) \<Rightarrow> kv \<Rightarrow> kv" where
  "set_stats c f s = s\<lparr>itemstats := (itemstats s)(c := f (itemstats s c))\<rparr>"

definition get_cas_id :: "kv \<Rightarrow> kv \<times> u64" where
  "get_cas_id s = (let next_id = cas_id s + 1 in (s\<lparr>cas_id := next_id\<rparr>, next_id))"

definition set_cas_id :: "u64 \<Rightarrow> kv \<Rightarrow> kv" where
  "set_cas_id new_cas s = s\<lparr>cas_id := new_cas\<rparr>"

definition item_is_flushed :: "kv_settings \<Rightarrow> u32 \<Rightarrow> item \<Rightarrow> bool" where
  "item_is_flushed cfg now it =
     (if oldest_live cfg = 0 \<or> oldest_live cfg > now then False
      else it_time it \<le> oldest_live cfg
           \<or> (oldest_cas cfg \<noteq> 0 \<and> ITEM_get_cas it \<noteq> 0 \<and> ITEM_get_cas it < oldest_cas cfg))"

definition item_make_header :: "byte \<Rightarrow> u32 \<Rightarrow> int \<Rightarrow> u64 \<times> nat" where
  "item_make_header nkey flags nb =
     (let nsuffix = (if flags = 0 then 0 else 4) in (word_of_int (80 + uint nkey + int nsuffix + nb), nsuffix))"

text \<open>The histogram of sizes, when it is enabled.\<close>

definition size_bucket :: "item \<Rightarrow> nat" where
  "size_bucket it = (let ntotal = unat (ITEM_ntotal it) in if ntotal mod 32 \<noteq> 0 then ntotal div 32 + 1 else ntotal div 32)"

definition stats_sizes_change :: "u32 \<Rightarrow> addr \<Rightarrow> kv \<Rightarrow> kv" where
  "stats_sizes_change d a s =
     (case stats_sizes_hist s of
        None \<Rightarrow> s
      | Some hist \<Rightarrow>
          if stats_sizes_cas_min s > ITEM_get_cas (items s a) then s
          else let b = size_bucket (items s a) in
               if b < length hist then s\<lparr>stats_sizes_hist := Some (hist[b := hist ! b + d])\<rparr> else s)"

definition item_stats_sizes_add :: "addr \<Rightarrow> kv \<Rightarrow> kv" where
  "item_stats_sizes_add a s = stats_sizes_change 1 a s"

definition item_stats_sizes_remove :: "addr \<Rightarrow> kv \<Rightarrow> kv" where
  "item_stats_sizes_remove a s = stats_sizes_change (-1) a s"

definition item_stats_sizes_init :: "kv_settings \<Rightarrow> u64 \<Rightarrow> bool \<Rightarrow> kv \<Rightarrow> kv" where
  "item_stats_sizes_init cfg item_size_max calloc_ok s =
     (if stats_sizes_hist s \<noteq> None then s
      else let s = s\<lparr>stats_sizes_hist := (if calloc_ok then Some (replicate (unat (item_size_max div 32 + 1)) 0) else None)\<rparr>
           in if use_cas cfg then (case get_cas_id s of (s, c) \<Rightarrow> s\<lparr>stats_sizes_cas_min := c\<rparr>)
              else s\<lparr>stats_sizes_cas_min := 0\<rparr>)"

definition do_item_link_q :: "addr \<Rightarrow> kv \<Rightarrow> kv res" where
  "do_item_link_q a s =
     (let it = items s a; c = slabs_clsid it; hd0 = heads s c; tl0 = tails s c in
      if has_flag it ITEM_SLABBED then Inl AssertFail
      else if hd0 = Some a then Inl AssertFail
      else if (hd0 = None) \<noteq> (tl0 = None) then Inl AssertFail
      else let s = set_item a (\<lambda>it. it\<lparr>it_prev := None, it_next := hd0\<rparr>) s;
               s = (case hd0 of None \<Rightarrow> s | Some b \<Rightarrow> set_item b (\<lambda>it. it\<lparr>it_prev := Some a\<rparr>) s);
               s = s\<lparr>heads := (heads s)(c := Some a)\<rparr>;
               s = (if tails s c = None then s\<lparr>tails := (tails s)(c := Some a)\<rparr> else s)
           in Inr (s\<lparr>sizes := (sizes s)(c := sizes s c + 1), sizes_bytes := (sizes_bytes s)(c := sizes_bytes s c + ITEM_ntotal it)\<rparr>))"

definition item_link_q_warm :: "addr \<Rightarrow> kv \<Rightarrow> kv res" where
  "item_link_q_warm a s =
     bindE (do_item_link_q a s) (\<lambda>s. let c = slabs_clsid (items s a) in
       Inr (set_stats c (\<lambda>st. st\<lparr>moves_to_warm := moves_to_warm st + 1\<rparr>) s))"

definition do_item_unlink_q :: "addr \<Rightarrow> kv \<Rightarrow> kv res" where
  "do_item_unlink_q a s =
     (let it = items s a; c = slabs_clsid it in
      if heads s c = Some a \<and> it_prev it \<noteq> None then Inl AssertFail
      else let s = (if heads s c = Some a then s\<lparr>heads := (heads s)(c := it_next it)\<rparr> else s) in
      if tails s c = Some a \<and> it_next it \<noteq> None then Inl AssertFail
      else let s = (if tails s c = Some a then s\<lparr>tails := (tails s)(c := it_prev it)\<rparr> else s) in
      if it_next it = Some a then Inl AssertFail
      else if it_prev it = Some a then Inl AssertFail
      else let s = (case it_next it of None \<Rightarrow> s | Some b \<Rightarrow> set_item b (\<lambda>x. x\<lparr>it_prev := it_prev it\<rparr>) s);
               s = (case it_prev it of None \<Rightarrow> s | Some b \<Rightarrow> set_item b (\<lambda>x. x\<lparr>it_next := it_next it\<rparr>) s)
           in Inr (s\<lparr>sizes := (sizes s)(c := sizes s c - 1), sizes_bytes := (sizes_bytes s)(c := sizes_bytes s c - ITEM_ntotal it)\<rparr>))"

text \<open>Linking up to the insertion into the table: the flag, the time, the statistics and the CAS value.\<close>

definition mark_linked :: "kv_settings \<Rightarrow> u32 \<Rightarrow> addr \<Rightarrow> kv \<Rightarrow> kv" where
  "mark_linked cfg now a s =
     (let s = set_item a (\<lambda>it. it\<lparr>it_flags := it_flags it OR ITEM_LINKED, it_time := now\<rparr>) s;
          s = s\<lparr>curr_bytes := curr_bytes s + ITEM_ntotal (items s a), curr_items := curr_items s + 1, total_items := total_items s + 1\<rparr>;
          (s, c) = (if use_cas cfg then get_cas_id s else (s, 0))
      in set_item a (ITEM_set_cas c) s)"

definition do_item_link :: "kv_settings \<Rightarrow> u32 \<Rightarrow> addr \<Rightarrow> u32 \<Rightarrow> kv \<Rightarrow> kv res" where
  "do_item_link cfg now a hv s =
     (if it_flags (items s a) AND (ITEM_LINKED OR ITEM_SLABBED) \<noteq> 0 then Inl AssertFail
      else let s = mark_linked cfg now a s
           in bindE (assoc_insert (items s) (table s) a hv) (\<lambda>(h, t).
              bindE (do_item_link_q a (s\<lparr>items := h, table := t\<rparr>)) (\<lambda>s.
              let s = set_item a (\<lambda>it. it\<lparr>refcount := refcount it + 1\<rparr>) s
              in Inr (item_stats_sizes_add a s))))"

text \<open>
  What the slab allocator does to the header of an item that is given back, and to one it hands out. Its
  own list of free chunks is modelled with the allocator; here it is the list \<open>slab_freed\<close>. The chain of chunks of a large item is not
  part of the model; the class of a free header is not read before \<^verbatim>\<open>do_item_alloc\<close> sets it again.
\<close>

definition slabs_take_back :: "addr \<Rightarrow> byte \<Rightarrow> kv \<Rightarrow> kv" where
  "slabs_take_back a c s =
     (set_item a (\<lambda>it. it\<lparr>it_flags := ITEM_SLABBED, slabs_clsid := c\<rparr>) s)\<lparr>slab_freed := a # slab_freed s\<rparr>"

definition slabs_hand_out :: "addr \<Rightarrow> kv \<Rightarrow> kv" where
  "slabs_hand_out a s =
     (set_item a (\<lambda>it. it\<lparr>it_flags := it_flags it AND NOT ITEM_SLABBED, refcount := 1\<rparr>) s)\<lparr>slab_freed := removeAll a (slab_freed s)\<rparr>"

definition item_free :: "addr \<Rightarrow> kv \<Rightarrow> kv res" where
  "item_free a s =
     (let it = items s a in
      if has_flag it ITEM_LINKED then Inl AssertFail
      else if heads s (slabs_clsid it) = Some a then Inl AssertFail
      else if tails s (slabs_clsid it) = Some a then Inl AssertFail
      else if refcount it \<noteq> 0 then Inl AssertFail
      else Inr (slabs_take_back a (ITEM_clsid it) s))"

definition do_item_remove :: "addr \<Rightarrow> kv \<Rightarrow> kv res" where
  "do_item_remove a s =
     (if has_flag (items s a) ITEM_SLABBED then Inl AssertFail
      else if \<not> refcount (items s a) > 0 then Inl AssertFail
      else let s = set_item a (\<lambda>it. it\<lparr>refcount := refcount it - 1\<rparr>) s
           in if refcount (items s a) = 0 then item_free a s else Inr s)"

definition mark_unlinked :: "addr \<Rightarrow> kv \<Rightarrow> kv" where
  "mark_unlinked a s =
     (let s = set_item a (\<lambda>it. it\<lparr>it_flags := it_flags it AND NOT ITEM_LINKED\<rparr>) s;
          s = s\<lparr>curr_bytes := curr_bytes s - ITEM_ntotal (items s a), curr_items := curr_items s - 1\<rparr>
      in item_stats_sizes_remove a s)"

definition do_item_unlink :: "addr \<Rightarrow> u32 \<Rightarrow> kv \<Rightarrow> kv res option" where
  "do_item_unlink a hv s =
     (if has_flag (items s a) ITEM_LINKED then
        let s = mark_unlinked a s
        in bindO (assoc_delete (items s) (table s) (ikey (items s a)) hv) (\<lambda>(h, t).
           Some (bindE (do_item_unlink_q a (s\<lparr>items := h, table := t\<rparr>)) (do_item_remove a)))
      else Some (Inr s))"

definition do_item_update :: "kv_settings \<Rightarrow> u32 \<Rightarrow> addr \<Rightarrow> kv \<Rightarrow> kv res" where
  "do_item_update cfg now a s =
     (let it = items s a in
      if lru_segmented cfg then
        if has_flag it ITEM_SLABBED then Inl AssertFail
        else if has_flag it ITEM_LINKED then
          if ITEM_lruid it = COLD_LRU \<and> has_flag it ITEM_ACTIVE then
            let s = set_item a (\<lambda>it. it\<lparr>it_time := now\<rparr>) s in
            bindE (do_item_unlink_q a s) (\<lambda>s.
              item_link_q_warm a (set_item a (\<lambda>it. it\<lparr>slabs_clsid := ITEM_clsid it OR WARM_LRU, it_flags := it_flags it AND NOT ITEM_ACTIVE\<rparr>) s))
          else Inr (set_item a (\<lambda>it. it\<lparr>it_time := now\<rparr>) s)
        else Inr s
      else if it_time it < now - ITEM_UPDATE_INTERVAL then
        if has_flag it ITEM_SLABBED then Inl AssertFail
        else if has_flag it ITEM_LINKED then
          bindE (do_item_unlink_q a (set_item a (\<lambda>it. it\<lparr>it_time := now\<rparr>) s)) (do_item_link_q a)
        else Inr s
      else Inr s)"

definition do_item_replace :: "kv_settings \<Rightarrow> u32 \<Rightarrow> addr \<Rightarrow> addr \<Rightarrow> u32 \<Rightarrow> kv \<Rightarrow> kv res option" where
  "do_item_replace cfg now a new_it hv s =
     (if has_flag (items s a) ITEM_SLABBED then Some (Inl AssertFail)
      else bindO (do_item_unlink a hv s) (\<lambda>s. Some (do_item_link cfg now new_it hv s)))"

text \<open>
  The buffer of deferred moves is a \<^verbatim>\<open>bipbuf_t\<close> of \<open>LRU_BUMP_BUF_SIZE\<close> entries. It may refuse an entry before it is full:
  \<open>room\<close> says whether the request succeeds where there is space.
\<close>

definition LRU_BUMP_BUF_SIZE :: nat where "LRU_BUMP_BUF_SIZE = 8192"

definition lru_bump_async :: "bool \<Rightarrow> addr \<Rightarrow> u32 \<Rightarrow> kv \<Rightarrow> kv \<times> bool" where
  "lru_bump_async room a hv s =
     (let s = set_item a (\<lambda>it. it\<lparr>refcount := refcount it + 1\<rparr>) s in
      if room \<and> length (bump_queue s) < LRU_BUMP_BUF_SIZE then (s\<lparr>bump_queue := bump_queue s @ [(a, hv)]\<rparr>, True)
      else (set_item a (\<lambda>it. it\<lparr>refcount := refcount it - 1\<rparr>) (s\<lparr>bumps_dropped := bumps_dropped s + 1\<rparr>), False))"

definition do_item_bump :: "kv_settings \<Rightarrow> u32 \<Rightarrow> bool \<Rightarrow> addr \<Rightarrow> u32 \<Rightarrow> kv \<Rightarrow> kv res" where
  "do_item_bump cfg now room a hv s =
     (if lru_segmented cfg then
        if \<not> has_flag (items s a) ITEM_ACTIVE then
          if \<not> has_flag (items s a) ITEM_FETCHED then Inr (set_item a (\<lambda>it. it\<lparr>it_flags := it_flags it OR ITEM_FETCHED\<rparr>) s)
          else let s = set_item a (\<lambda>it. it\<lparr>it_flags := it_flags it OR ITEM_ACTIVE\<rparr>) s in
            if ITEM_lruid (items s a) \<noteq> COLD_LRU then Inr (set_item a (\<lambda>it. it\<lparr>it_time := now\<rparr>) s)
            else (case lru_bump_async room a hv s of (s, ok) \<Rightarrow>
              Inr (if ok then s else set_item a (\<lambda>it. it\<lparr>it_flags := it_flags it AND NOT ITEM_ACTIVE\<rparr>) s))
        else Inr s
      else do_item_update cfg now a (set_item a (\<lambda>it. it\<lparr>it_flags := it_flags it OR ITEM_FETCHED\<rparr>) s))"

definition do_item_get ::
    "kv_settings \<Rightarrow> u32 \<Rightarrow> bool \<Rightarrow> byte list \<Rightarrow> u32 \<Rightarrow> bool \<Rightarrow> kv \<Rightarrow> (kv \<times> addr option) res option" where
  "do_item_get cfg now room key hv do_update s =
     bindO (assoc_find (items s) (table s) key hv) (\<lambda>found. case found of
       None \<Rightarrow> Some (Inr (s, None))
     | Some a \<Rightarrow>
         let s = set_item a (\<lambda>it. it\<lparr>refcount := refcount it + 1\<rparr>) s in
         if item_is_flushed cfg now (items s a) then
           bindO (do_item_unlink a hv s) (\<lambda>s. Some (bindE (do_item_remove a s) (\<lambda>s. Inr (s\<lparr>get_flushed := get_flushed s + 1\<rparr>, None))))
         else if exptime (items s a) \<noteq> 0 \<and> exptime (items s a) \<le> now then
           bindO (do_item_unlink a hv s) (\<lambda>s. Some (bindE (do_item_remove a s) (\<lambda>s. Inr (s\<lparr>get_expired := get_expired s + 1\<rparr>, None))))
         else if do_update then Some (bindE (do_item_bump cfg now room a hv s) (\<lambda>s. Inr (s, Some a)))
         else Some (Inr (s, Some a)))"

definition do_item_touch ::
    "kv_settings \<Rightarrow> u32 \<Rightarrow> bool \<Rightarrow> byte list \<Rightarrow> u32 \<Rightarrow> u32 \<Rightarrow> kv \<Rightarrow> (kv \<times> addr option) res option" where
  "do_item_touch cfg now room key exp hv s =
     bindO (do_item_get cfg now room key hv True s) (\<lambda>(s, found). Some (Inr (case found of
       None \<Rightarrow> (s, None) | Some a \<Rightarrow> (set_item a (\<lambda>it. it\<lparr>exptime := exp\<rparr>) s, Some a))))"

section \<open>Queues\<close>

definition first :: "'a list \<Rightarrow> 'a option" where
  "first xs = (case xs of [] \<Rightarrow> None | x # _ \<Rightarrow> Some x)"

definition final :: "'a list \<Rightarrow> 'a option" where
  "final xs = (if xs = [] then None else Some (last xs))"

lemma first_simps [simp]: "first [] = None" "first (x # xs) = Some x"
  by (simp_all add: first_def)

lemma first_eq [simp]: "(first xs = None) = (xs = [])" "first (xs @ ys) = (if xs = [] then first ys else first xs)"
  by (auto simp: first_def split: list.splits)

lemma final_simps [simp]: "final [] = None" "final (xs @ [x]) = Some x" "(final xs = None) = (xs = [])"
  by (simp_all add: final_def)

lemma final_Cons: "final (x # xs) = (if xs = [] then Some x else final xs)"
  by (simp add: final_def)

lemma first_in: "first xs = Some x \<Longrightarrow> x \<in> set xs" and final_in: "final xs = Some x \<Longrightarrow> x \<in> set xs"
  by (auto simp: first_def final_def split: list.splits if_splits)

text \<open>A segment of a queue: its items in order, what comes before the first and what comes after the last.\<close>

fun segment :: "heap \<Rightarrow> addr option \<Rightarrow> addr list \<Rightarrow> addr option \<Rightarrow> bool" where
  "segment h p [] n \<longleftrightarrow> True"
| "segment h p (x # xs) n \<longleftrightarrow> it_prev (h x) = p \<and> it_next (h x) = (if xs = [] then n else first xs) \<and> segment h (Some x) xs n"

lemma segment_frame:
  "segment h p xs n \<Longrightarrow> (\<And>x. x \<in> set xs \<Longrightarrow> it_prev (h' x) = it_prev (h x) \<and> it_next (h' x) = it_next (h x)) \<Longrightarrow> segment h' p xs n"
  by (induction xs arbitrary: p) auto

lemma segment_append:
  "segment h p (xs @ ys) n \<longleftrightarrow> segment h p xs (if ys = [] then n else first ys) \<and> segment h (if xs = [] then p else final xs) ys n"
  by (induction xs arbitrary: p) (auto simp: final_Cons)

text \<open>The links of an item in a queue, and the queue without it.\<close>

lemma segment_links:
  "segment h None (xs @ a # ys) None \<Longrightarrow> it_prev (h a) = final xs \<and> it_next (h a) = first ys"
  by (auto simp: segment_append split: if_splits)

lemma segment_set_next:
  assumes "segment h p xs n" and "xs \<noteq> []" and "distinct xs"
  shows "segment (h(last xs := (h (last xs))\<lparr>it_next := n'\<rparr>)) p xs n'"
  using assms by (induction xs arbitrary: p) (auto elim!: segment_frame)

lemma segment_set_prev:
  "segment h p (x # xs) n \<Longrightarrow> x \<notin> set xs \<Longrightarrow> segment (h(x := (h x)\<lparr>it_prev := p'\<rparr>)) p' (x # xs) n"
  by (auto elim!: segment_frame)

lemma segment_upd: "segment h p xs n \<Longrightarrow> a \<notin> set xs \<Longrightarrow> segment (h(a := x)) p xs n"
  by (erule segment_frame) auto

definition relink :: "heap \<Rightarrow> addr option \<Rightarrow> addr option \<Rightarrow> heap" where
  "relink h p n =
     (let h = (case n of None \<Rightarrow> h | Some b \<Rightarrow> h(b := (h b)\<lparr>it_prev := p\<rparr>))
      in case p of None \<Rightarrow> h | Some b \<Rightarrow> h(b := (h b)\<lparr>it_next := n\<rparr>))"

lemma segment_remove:
  assumes seg: "segment h None (xs @ a # ys) None" and d: "distinct (xs @ a # ys)"
  shows "segment (relink h (final xs) (first ys)) None (xs @ ys) None"
proof -
  define h1 where "h1 = (case first ys of None \<Rightarrow> h | Some b \<Rightarrow> h(b := (h b)\<lparr>it_prev := final xs\<rparr>))"
  have s: "segment h None xs (Some a)" "segment h (Some a) ys None"
    using seg by (auto simp: segment_append split: if_splits)
  have y: "segment h1 (if xs = [] then None else final xs) ys None"
  proof (cases ys)
    case (Cons y ys')
    then show ?thesis using segment_set_prev [of h "Some a" y ys' None "final xs"] s(2) d by (auto simp: h1_def)
  qed simp
  have x: "segment h1 None xs (Some a)"
    using s(1) d by (cases ys) (auto simp: h1_def intro!: segment_upd)
  show ?thesis
  proof (cases "xs = []")
    case True
    then show ?thesis using y [unfolded h1_def True] by (cases "first ys") (simp_all add: relink_def)
  next
    case False
    let ?h = "h1(last xs := (h1 (last xs))\<lparr>it_next := first ys\<rparr>)"
    have h: "relink h (final xs) (first ys) = ?h" using False by (cases "first ys") (simp_all add: relink_def h1_def final_def)
    have "segment ?h None xs (first ys)" using segment_set_next [OF x] False d by simp
    moreover have "last xs \<notin> set ys" using d last_in_set [OF False] by (auto simp: disjoint_iff)
    then have "segment ?h (final xs) ys None" using y False by (simp add: segment_upd)
    ultimately show ?thesis using False unfolding h by (cases "ys = []") (simp_all add: segment_append)
  qed
qed

definition push_item :: "heap \<Rightarrow> addr \<Rightarrow> addr option \<Rightarrow> heap" where
  "push_item h a n =
     (let h = h(a := (h a)\<lparr>it_prev := None, it_next := n\<rparr>)
      in case n of None \<Rightarrow> h | Some b \<Rightarrow> h(b := (h b)\<lparr>it_prev := Some a\<rparr>))"

lemma segment_push:
  assumes "segment h None xs None" and "distinct (a # xs)"
  shows "segment (push_item h a (first xs)) None (a # xs) None"
proof (cases xs)
  case (Cons y ys)
  let ?h = "h(a := (h a)\<lparr>it_prev := None, it_next := Some y\<rparr>)"
  have "segment ?h None (y # ys) None" using assms Cons by (intro segment_upd) simp_all
  from segment_set_prev [OF this, of "Some a"]
  have "segment (?h(y := (?h y)\<lparr>it_prev := Some a\<rparr>)) (Some a) (y # ys) None" using assms(2) Cons by simp
  then show ?thesis using Cons assms(2) by (simp add: push_item_def)
qed (simp add: push_item_def)

text \<open>All the queues. Every item of a queue carries the number of the queue.\<close>

definition lrus_ok :: "heap \<Rightarrow> (byte \<Rightarrow> addr option) \<Rightarrow> (byte \<Rightarrow> addr option) \<Rightarrow> (byte \<Rightarrow> addr list) \<Rightarrow> bool" where
  "lrus_ok h hds tls q \<longleftrightarrow> (\<forall>c. hds c = first (q c) \<and> tls c = final (q c) \<and> segment h None (q c) None
     \<and> distinct (q c) \<and> (\<forall>a \<in> set (q c). slabs_clsid (h a) = c))"

definition same_but_links :: "heap \<Rightarrow> heap \<Rightarrow> bool" where
  "same_but_links h h' \<longleftrightarrow> (\<forall>x. (h' x)\<lparr>it_next := None, it_prev := None\<rparr> = (h x)\<lparr>it_next := None, it_prev := None\<rparr>)"

lemma same_but_linksD:
  assumes "same_but_links h h'"
  shows "h_next (h' x) = h_next (h x)" "ikey (h' x) = ikey (h x)" "it_flags (h' x) = it_flags (h x)"
    "refcount (h' x) = refcount (h x)" "slabs_clsid (h' x) = slabs_clsid (h x)" "nbytes (h' x) = nbytes (h x)"
    "mac (h' x) = mac (h x)" "mt_index (h' x) = mt_index (h x)" "idata (h' x) = idata (h x)"
    "client_flags (h' x) = client_flags (h x)" "cas (h' x) = cas (h x)" "exptime (h' x) = exptime (h x)" "it_time (h' x) = it_time (h x)"
proof -
  have f: "(h' x)\<lparr>it_next := None, it_prev := None\<rparr> = (h x)\<lparr>it_next := None, it_prev := None\<rparr>"
    using assms by (simp add: same_but_links_def)
  show "h_next (h' x) = h_next (h x)"
    "ikey (h' x) = ikey (h x)"
    "it_flags (h' x) = it_flags (h x)"
    "refcount (h' x) = refcount (h x)"
    "slabs_clsid (h' x) = slabs_clsid (h x)"
    "nbytes (h' x) = nbytes (h x)"
    "mac (h' x) = mac (h x)"
    "mt_index (h' x) = mt_index (h x)"
    "idata (h' x) = idata (h x)"
    "client_flags (h' x) = client_flags (h x)"
    "cas (h' x) = cas (h x)"
    "exptime (h' x) = exptime (h x)"
    "it_time (h' x) = it_time (h x)"
    using arg_cong [OF f, of h_next]
      arg_cong [OF f, of ikey]
      arg_cong [OF f, of it_flags]
      arg_cong [OF f, of refcount]
      arg_cong [OF f, of slabs_clsid]
      arg_cong [OF f, of nbytes]
      arg_cong [OF f, of mac]
      arg_cong [OF f, of mt_index]
      arg_cong [OF f, of idata]
      arg_cong [OF f, of client_flags]
      arg_cong [OF f, of cas]
      arg_cong [OF f, of exptime]
      arg_cong [OF f, of it_time]
    by simp_all
qed

lemma same_but_links_push: "same_but_links h (push_item h a n)"
  by (auto simp: same_but_links_def push_item_def Let_def split: option.splits)

lemma same_but_links_relink: "same_but_links h (relink h p n)"
  by (auto simp: same_but_links_def relink_def Let_def split: option.splits)

lemma push_item_links:
  "x \<noteq> a \<Longrightarrow> first xs \<noteq> Some x \<Longrightarrow> it_prev (push_item h a (first xs) x) = it_prev (h x) \<and> it_next (push_item h a (first xs) x) = it_next (h x)"
  by (auto simp: push_item_def Let_def split: option.splits)

lemma relink_links:
  "p \<noteq> Some x \<Longrightarrow> n \<noteq> Some x \<Longrightarrow> it_prev (relink h p n x) = it_prev (h x) \<and> it_next (relink h p n x) = it_next (h x)"
  by (auto simp: relink_def Let_def split: option.splits)

text \<open>Linking and unlinking: what the state is afterwards.\<close>

lemma lrus_okD:
  assumes "lrus_ok h hds tls q"
  shows "hds c = first (q c)" "tls c = final (q c)" "segment h None (q c) None" "distinct (q c)"
    "a \<in> set (q c) \<Longrightarrow> slabs_clsid (h a) = c"
  using assms by (auto simp: lrus_ok_def)

lemma lrus_ok_frame:
  assumes "lrus_ok h hds tls q"
    and "\<And>x. it_prev (h' x) = it_prev (h x) \<and> it_next (h' x) = it_next (h x)"
    and "\<And>x c. x \<in> set (q c) \<Longrightarrow> slabs_clsid (h' x) = slabs_clsid (h x)"
  shows "lrus_ok h' hds tls q"
  unfolding lrus_ok_def
proof (intro allI conjI ballI)
  fix c
  show "segment h' None (q c) None" using segment_frame [OF lrus_okD(3) [OF assms(1)]] assms(2) by blast
  show "slabs_clsid (h' a) = c" if "a \<in> set (q c)" for a using assms(3) [OF that] lrus_okD(5) [OF assms(1) that] by simp
qed (use lrus_okD [OF assms(1)] in auto)

text \<open>One queue is replaced; the items of the others keep their links.\<close>

lemma lrus_ok_upd:
  assumes ok: "lrus_ok h hds tls q"
    and seg: "segment h' None xs None" "distinct xs" "\<And>x. x \<in> set xs \<Longrightarrow> slabs_clsid (h' x) = c"
    and other: "\<And>x d. d \<noteq> c \<Longrightarrow> x \<in> set (q d) \<Longrightarrow> it_prev (h' x) = it_prev (h x) \<and> it_next (h' x) = it_next (h x)"
    and cls: "\<And>x. slabs_clsid (h' x) = slabs_clsid (h x)"
  shows "lrus_ok h' (hds(c := first xs)) (tls(c := final xs)) (q(c := xs))"
  unfolding lrus_ok_def
proof (intro allI conjI ballI)
  fix d
  show "segment h' None ((q(c := xs)) d) None"
    using seg(1) segment_frame [OF lrus_okD(3) [OF ok, of d]] other by (cases "d = c") auto
  show "slabs_clsid (h' a) = d" if "a \<in> set ((q(c := xs)) d)" for a
    using seg(3) that lrus_okD(5) [OF ok, of a d] cls by (cases "d = c") auto
qed (use lrus_okD [OF ok] seg(2) in auto)

lemma do_item_link_q_eq:
  assumes "lrus_ok (items s) (heads s) (tails s) q" and "\<not> has_flag (items s a) ITEM_SLABBED"
    and "a \<notin> set (q c)" and "c = slabs_clsid (items s a)"
  shows "do_item_link_q a s = Inr (s\<lparr>items := push_item (items s) a (first (q c)),
     heads := (heads s)(c := Some a), tails := (tails s)(c := final (a # q c)),
     sizes := (sizes s)(c := sizes s c + 1), sizes_bytes := (sizes_bytes s)(c := sizes_bytes s c + ITEM_ntotal (items s a))\<rparr>)"
proof -
  have hd: "heads s c = first (q c)" and tl: "tails s c = final (q c)" using lrus_okD [OF assms(1)] by auto
  have ne: "first (q c) \<noteq> Some a" using assms(3) first_in by fast
  have keep: "(tails s)(c := final (q c)) = tails s" using tl by auto
  show ?thesis
    using assms(2,4) hd tl ne keep
    by (cases "q c") (auto simp: do_item_link_q_def Let_def push_item_def set_item_def final_def)
qed

lemma do_item_link_q_ok:
  assumes ok: "lrus_ok (items s) (heads s) (tails s) q" and "\<not> has_flag (items s a) ITEM_SLABBED"
    and new: "\<And>d. a \<notin> set (q d)" and c: "c = slabs_clsid (items s a)"
  shows "\<exists>s'. do_item_link_q a s = Inr s' \<and> lrus_ok (items s') (heads s') (tails s') (q(c := a # q c))
     \<and> same_but_links (items s) (items s')
     \<and> s' = s\<lparr>items := items s', heads := heads s', tails := tails s',
          sizes := (sizes s)(c := sizes s c + 1), sizes_bytes := (sizes_bytes s)(c := sizes_bytes s c + ITEM_ntotal (items s a))\<rparr>"
proof -
  let ?h = "push_item (items s) a (first (q c))"
  have same: "same_but_links (items s) ?h" by (rule same_but_links_push)
  have "lrus_ok ?h ((heads s)(c := first (a # q c))) ((tails s)(c := final (a # q c))) (q(c := a # q c))"
  proof (rule lrus_ok_upd [OF ok])
    show "segment ?h None (a # q c) None" using segment_push lrus_okD(3,4) [OF ok] new by simp
    show "distinct (a # q c)" using lrus_okD(4) [OF ok] new by simp
    show "slabs_clsid (?h x) = c" if "x \<in> set (a # q c)" for x
      using that lrus_okD(5) [OF ok, of x c] c same_but_linksD(5) [OF same, of x] by auto
    show "it_prev (?h x) = it_prev (items s x) \<and> it_next (?h x) = it_next (items s x)" if "d \<noteq> c" "x \<in> set (q d)" for x d
    proof (rule push_item_links)
      show "x \<noteq> a" using that new by auto
      show "first (q c) \<noteq> Some x" using that first_in [of "q c" x] lrus_okD(5) [OF ok, of x] by metis
    qed
  qed (simp add: same_but_linksD [OF same])
  then show ?thesis using do_item_link_q_eq [OF ok assms(2) new c] same by simp
qed

lemma do_item_unlink_q_eq:
  assumes "lrus_ok (items s) (heads s) (tails s) q" and "q c = xs @ a # ys" and c: "c = slabs_clsid (items s a)"
  shows "do_item_unlink_q a s = Inr (s\<lparr>items := relink (items s) (final xs) (first ys),
     heads := (heads s)(c := first (xs @ ys)), tails := (tails s)(c := final (xs @ ys)),
     sizes := (sizes s)(c := sizes s c - 1), sizes_bytes := (sizes_bytes s)(c := sizes_bytes s c - ITEM_ntotal (items s a))\<rparr>)"
proof -
  have hd: "heads s c = first (xs @ a # ys)" and tl: "tails s c = final (xs @ a # ys)" and d: "distinct (xs @ a # ys)"
    and links: "it_prev (items s a) = final xs" "it_next (items s a) = first ys"
    using lrus_okD(1-4) [OF assms(1), of c] assms(2) segment_links by auto
  have ne: "first ys \<noteq> Some a" "final xs \<noteq> Some a" using d first_in final_in by force+
  have hd1: "(heads s c = Some a) = (xs = [])" using hd d first_in by (cases xs) auto
  have tl1: "(tails s c = Some a) = (ys = [])" using tl d by (cases ys rule: rev_cases) (auto simp: final_def)
  have hds: "(if xs = [] then (heads s)(c := first ys) else heads s) = (heads s)(c := first (xs @ ys))" using hd by auto
  have tls: "(if ys = [] then (tails s)(c := final xs) else tails s) = (tails s)(c := final (xs @ ys))"
    using tl by (auto simp: final_def)
  show ?thesis
    unfolding do_item_unlink_q_def Let_def c [symmetric] links hd1 
    using ne tl1 hds tls
    by (cases "xs = []"; cases "ys = []"; cases "first ys"; cases "final xs")
      (simp_all add: relink_def set_item_def Let_def)
qed

lemma do_item_unlink_q_ok:
  assumes ok: "lrus_ok (items s) (heads s) (tails s) q" and a: "a \<in> set (q c)"
  shows "\<exists>s'. do_item_unlink_q a s = Inr s' \<and> lrus_ok (items s') (heads s') (tails s') (q(c := remove1 a (q c)))
     \<and> same_but_links (items s) (items s')
     \<and> s' = s\<lparr>items := items s', heads := heads s', tails := tails s',
          sizes := (sizes s)(c := sizes s c - 1), sizes_bytes := (sizes_bytes s)(c := sizes_bytes s c - ITEM_ntotal (items s a))\<rparr>"
proof -
  obtain xs ys where q: "q c = xs @ a # ys" using a by (auto simp: in_set_conv_decomp)
  have d: "distinct (xs @ a # ys)" using lrus_okD(4) [OF ok, of c] q by simp
  then have r: "remove1 a (q c) = xs @ ys" using q by (simp add: remove1_append)
  have c: "c = slabs_clsid (items s a)" using lrus_okD(5) [OF ok a] by simp
  let ?h = "relink (items s) (final xs) (first ys)"
  have same: "same_but_links (items s) ?h" by (rule same_but_links_relink)
  have "lrus_ok ?h ((heads s)(c := first (xs @ ys))) ((tails s)(c := final (xs @ ys))) (q(c := xs @ ys))"
  proof (rule lrus_ok_upd [OF ok])
    show "segment ?h None (xs @ ys) None" using segment_remove lrus_okD(3) [OF ok, of c] d q by simp
    show "distinct (xs @ ys)" using d by simp
    show "slabs_clsid (?h x) = c" if "x \<in> set (xs @ ys)" for x
      using that lrus_okD(5) [OF ok, of x c] q same_but_linksD(5) [OF same, of x] by auto
    show "it_prev (?h x) = it_prev (items s x) \<and> it_next (?h x) = it_next (items s x)" if "d \<noteq> c" "x \<in> set (q d)" for x d
    proof (rule relink_links)
      have "x \<notin> set (q c)" using that lrus_okD(5) [OF ok, of x] by metis
      then have "x \<notin> set (xs @ ys)" using q by simp
      then show "final xs \<noteq> Some x" "first ys \<noteq> Some x" using first_in final_in by fastforce+
    qed
  qed (simp add: same_but_linksD [OF same])
  then show ?thesis using do_item_unlink_q_eq [OF ok q c] same r by simp
qed

section \<open>The invariant\<close>

lemma same_itemsD:
  assumes "same_items h h'"
  shows "it_next (h' x) = it_next (h x)" "it_prev (h' x) = it_prev (h x)" "it_flags (h' x) = it_flags (h x)"
    "refcount (h' x) = refcount (h x)" "slabs_clsid (h' x) = slabs_clsid (h x)" "nbytes (h' x) = nbytes (h x)"
    "ikey (h' x) = ikey (h x)"
    "mac (h' x) = mac (h x)" "mt_index (h' x) = mt_index (h x)" "idata (h' x) = idata (h x)"
    "client_flags (h' x) = client_flags (h x)" "cas (h' x) = cas (h x)" "exptime (h' x) = exptime (h x)" "it_time (h' x) = it_time (h x)"
proof -
  have f: "(h' x)\<lparr>h_next := None\<rparr> = (h x)\<lparr>h_next := None\<rparr>" using assms by (simp add: same_items_def)
  show "it_next (h' x) = it_next (h x)" "it_prev (h' x) = it_prev (h x)" "it_flags (h' x) = it_flags (h x)"
    "refcount (h' x) = refcount (h x)" "slabs_clsid (h' x) = slabs_clsid (h x)" "nbytes (h' x) = nbytes (h x)"
    "ikey (h' x) = ikey (h x)"
    "mac (h' x) = mac (h x)" "mt_index (h' x) = mt_index (h x)" "idata (h' x) = idata (h x)"
    "client_flags (h' x) = client_flags (h x)" "cas (h' x) = cas (h x)" "exptime (h' x) = exptime (h x)" "it_time (h' x) = it_time (h x)"
    using arg_cong [OF f, of it_next] arg_cong [OF f, of it_prev] arg_cong [OF f, of it_flags] arg_cong [OF f, of refcount]
      arg_cong [OF f, of slabs_clsid] arg_cong [OF f, of nbytes] arg_cong [OF f, of ikey] arg_cong [OF f, of mac]
      arg_cong [OF f, of mt_index] arg_cong [OF f, of idata] arg_cong [OF f, of client_flags] arg_cong [OF f, of cas]
      arg_cong [OF f, of exptime] arg_cong [OF f, of it_time]
    by simp_all
qed

text \<open>The table depends on the keys and the chains only.\<close>

lemma assoc_rep_frame:
  assumes "assoc_rep hash h t m" and f: "\<And>x. h_next (h' x) = h_next (h x) \<and> ikey (h' x) = ikey (h x)"
  shows "assoc_rep hash h' t m"
proof -
  obtain ch where ch: "chains_ok hash h t ch" "m = chains_map hash h t ch" using assms(1) by (auto simp: assoc_rep_def)
  have k: "ikey (h' x) = ikey (h x)" for x using f by simp
  have "chain h' (bucket_head t b) (ch b)" if "in_use t b" for b
    using chain_frame [OF chains_chain [OF ch(1) that]] f by blast
  then have "chains_ok hash h' t ch"
    using ch(1) unfolding chains_ok_def k by blast
  moreover have "chains_map hash h' t ch = m" using ch(2) by (simp add: chains_map_def k fun_eq_iff)
  ultimately show ?thesis by (auto simp: assoc_rep_def)
qed

lemma assoc_rep_key: "assoc_rep hash h t m \<Longrightarrow> m key = Some a \<Longrightarrow> ikey (h a) = key"
  by (auto simp: assoc_rep_def dest: chains_mapD(2))

lemma assoc_rep_inj: "assoc_rep hash h t m \<Longrightarrow> inj_on m (dom m)"
  by (rule inj_onI) (metis assoc_rep_key domD)

text \<open>Flags are bits.\<close>

lemma has_flag_bit:
  "has_flag it ITEM_LINKED = bit (it_flags it) 0" "has_flag it ITEM_CAS = bit (it_flags it) 1"
  "has_flag it ITEM_SLABBED = bit (it_flags it) 2" "has_flag it ITEM_FETCHED = bit (it_flags it) 3"
  "has_flag it ITEM_ACTIVE = bit (it_flags it) 4" "has_flag it ITEM_CHUNKED = bit (it_flags it) 5"
  "has_flag it ITEM_CFLAGS = bit (it_flags it) 8"
  using and_exp_eq_0_iff_not_bit [of "it_flags it" 0] and_exp_eq_0_iff_not_bit [of "it_flags it" 1]
    and_exp_eq_0_iff_not_bit [of "it_flags it" 2] and_exp_eq_0_iff_not_bit [of "it_flags it" 3]
    and_exp_eq_0_iff_not_bit [of "it_flags it" 4] and_exp_eq_0_iff_not_bit [of "it_flags it" 5]
    and_exp_eq_0_iff_not_bit [of "it_flags it" 8]
  by (simp_all add: has_flag_def ITEM_LINKED_def ITEM_CAS_def ITEM_SLABBED_def ITEM_FETCHED_def ITEM_ACTIVE_def
      ITEM_CHUNKED_def ITEM_CFLAGS_def)

lemma bit_flag: "k < 16 \<Longrightarrow> bit (2 ^ k :: u16) n = (n = k)"
  by (auto simp: bit_exp_iff)

lemma flag_bits [simp]:
  "bit ITEM_LINKED n = (n = 0)" "bit ITEM_CAS n = (n = 1)" "bit ITEM_SLABBED n = (n = 2)" "bit ITEM_FETCHED n = (n = 3)"
  "bit ITEM_ACTIVE n = (n = 4)" "bit ITEM_CHUNKED n = (n = 5)" "bit ITEM_CFLAGS n = (n = 8)"
  using bit_flag [of 0 n] bit_flag [of 1 n] bit_flag [of 2 n] bit_flag [of 3 n] bit_flag [of 4 n] bit_flag [of 5 n] bit_flag [of 8 n]
  unfolding ITEM_LINKED_def ITEM_CAS_def ITEM_SLABBED_def ITEM_FETCHED_def ITEM_ACTIVE_def ITEM_CHUNKED_def ITEM_CFLAGS_def
  by (simp_all del: bit_numeral_simps)

text \<open>What a client sees of an item.\<close>

definition content :: "item \<Rightarrow> byte list \<times> int \<times> byte list \<times> u32 \<times> byte list \<times> u32 \<times> u32" where
  "content it = (ikey it, nbytes it, mac it, mt_index it, idata it, client_flags it, exptime it)"

definition same_content :: "heap \<Rightarrow> heap \<Rightarrow> bool" where
  "same_content h h' \<longleftrightarrow> (\<forall>x. content (h' x) = content (h x))"

lemma same_content_refl [simp]: "same_content h h"
  by (simp add: same_content_def)

lemma same_content_trans: "same_content h h' \<Longrightarrow> same_content h' h'' \<Longrightarrow> same_content h h''"
  by (simp add: same_content_def)

lemma same_contentD:
  "same_content h h' \<Longrightarrow> ikey (h' x) = ikey (h x) \<and> nbytes (h' x) = nbytes (h x) \<and> mac (h' x) = mac (h x)
     \<and> mt_index (h' x) = mt_index (h x) \<and> idata (h' x) = idata (h x) \<and> client_flags (h' x) = client_flags (h x)
     \<and> exptime (h' x) = exptime (h x)"
  by (auto simp: same_content_def content_def)

lemma same_content_items: "same_items h h' \<Longrightarrow> same_content h h'"
  by (simp add: same_content_def content_def same_itemsD)

lemma same_content_links: "same_but_links h h' \<Longrightarrow> same_content h h'"
  by (simp add: same_content_def content_def same_but_linksD)

text \<open>
  References: \<open>held a\<close> is the number of references to an item outside the table. A linked item has one more.
\<close>

definition refs_ok :: "heap \<Rightarrow> addr set \<Rightarrow> (addr \<Rightarrow> nat) \<Rightarrow> bool" where
  "refs_ok h L held \<longleftrightarrow> (\<forall>a.
     (a \<in> L \<or> held a > 0 \<longrightarrow> has_flag (h a) ITEM_LINKED = (a \<in> L) \<and> \<not> has_flag (h a) ITEM_SLABBED
        \<and> unat (refcount (h a)) = held a + (if a \<in> L then 1 else 0)))"

definition counts_ok :: "kv \<Rightarrow> addr set \<Rightarrow> (byte \<Rightarrow> addr list) \<Rightarrow> bool" where
  "counts_ok s L q \<longleftrightarrow> finite L \<and> curr_items s = word_of_nat (card L) \<and> curr_bytes s = (\<Sum>a\<in>L. ITEM_ntotal (items s a))
     \<and> (\<forall>c. sizes s c = word_of_nat (length (q c)) \<and> sizes_bytes s c = (\<Sum>a\<in>set (q c). ITEM_ntotal (items s a)))"

definition kv_inv :: "(byte list \<Rightarrow> u32) \<Rightarrow> (byte list \<rightharpoonup> addr) \<Rightarrow> (byte \<Rightarrow> addr list) \<Rightarrow> (addr \<Rightarrow> nat) \<Rightarrow> kv \<Rightarrow> bool" where
  "kv_inv hash m q held s \<longleftrightarrow> assoc_rep hash (items s) (table s) m
     \<and> lrus_ok (items s) (heads s) (tails s) q \<and> (\<Union>c. set (q c)) = ran m
     \<and> refs_ok (items s) (ran m) held \<and> counts_ok s (ran m) q
     \<and> (\<forall>a \<in> set (slab_freed s). a \<notin> ran m \<and> held a = 0)"

lemma kv_invD:
  assumes "kv_inv hash m q held s"
  shows "assoc_rep hash (items s) (table s) m" "lrus_ok (items s) (heads s) (tails s) q" "(\<Union>c. set (q c)) = ran m"
    "refs_ok (items s) (ran m) held" "counts_ok s (ran m) q" "\<forall>a \<in> set (slab_freed s). a \<notin> ran m \<and> held a = 0"
  using assms by (auto simp: kv_inv_def)

lemma refs_okD:
  assumes "refs_ok h L held" and "a \<in> L \<or> held a > 0"
  shows "has_flag (h a) ITEM_LINKED = (a \<in> L)" "\<not> has_flag (h a) ITEM_SLABBED"
    "unat (refcount (h a)) = held a + (if a \<in> L then 1 else 0)"
  using assms unfolding refs_ok_def by auto

lemma ITEM_ntotal_cong:
  assumes "ikey it' = ikey it" "nbytes it' = nbytes it" "has_flag it' ITEM_CFLAGS = has_flag it ITEM_CFLAGS"
    "has_flag it' ITEM_CAS = has_flag it ITEM_CAS"
  shows "ITEM_ntotal it' = ITEM_ntotal it"
  using assms by (simp add: ITEM_ntotal_def)

text \<open>A change of fields that the invariant does not mention.\<close>

definition soft_change :: "item \<Rightarrow> item \<Rightarrow> bool" where
  "soft_change it it' \<longleftrightarrow> h_next it' = h_next it \<and> it_next it' = it_next it \<and> it_prev it' = it_prev it \<and> ikey it' = ikey it
     \<and> slabs_clsid it' = slabs_clsid it \<and> refcount it' = refcount it \<and> nbytes it' = nbytes it
     \<and> has_flag it' ITEM_LINKED = has_flag it ITEM_LINKED \<and> has_flag it' ITEM_SLABBED = has_flag it ITEM_SLABBED
     \<and> has_flag it' ITEM_CAS = has_flag it ITEM_CAS \<and> has_flag it' ITEM_CFLAGS = has_flag it ITEM_CFLAGS"

lemma kv_inv_soft:
  assumes inv: "kv_inv hash m q held s" and soft: "\<And>x. soft_change (items s x) (items s' x)"
    and rest: "table s' = table s" "heads s' = heads s" "tails s' = tails s" "sizes s' = sizes s" "sizes_bytes s' = sizes_bytes s"
      "curr_items s' = curr_items s" "curr_bytes s' = curr_bytes s" "slab_freed s' = slab_freed s"
  shows "kv_inv hash m q held s'"
  unfolding kv_inv_def
proof (intro conjI)
  have f: "h_next (items s' x) = h_next (items s x)" "it_next (items s' x) = it_next (items s x)" "it_prev (items s' x) = it_prev (items s x)"
    "ikey (items s' x) = ikey (items s x)" "slabs_clsid (items s' x) = slabs_clsid (items s x)" "refcount (items s' x) = refcount (items s x)"
    "has_flag (items s' x) ITEM_LINKED = has_flag (items s x) ITEM_LINKED" "has_flag (items s' x) ITEM_SLABBED = has_flag (items s x) ITEM_SLABBED"
    "ITEM_ntotal (items s' x) = ITEM_ntotal (items s x)" for x
    using soft [of x] by (auto simp: soft_change_def intro!: ITEM_ntotal_cong)
  show "assoc_rep hash (items s') (table s') m" using assoc_rep_frame [OF kv_invD(1) [OF inv]] f rest by simp
  show "lrus_ok (items s') (heads s') (tails s') q" using lrus_ok_frame [OF kv_invD(2) [OF inv]] f rest by simp
  show "refs_ok (items s') (ran m) held" using kv_invD(4) [OF inv] by (simp add: refs_ok_def f)
  show "counts_ok s' (ran m) q" using kv_invD(5) [OF inv] by (simp add: counts_ok_def f rest)
qed (use kv_invD [OF inv] rest in auto)

section \<open>The operations keep the invariant\<close>

lemma stats_sizes_same [simp]:
  "items (stats_sizes_change d a s) = items s" "table (stats_sizes_change d a s) = table s"
  "heads (stats_sizes_change d a s) = heads s" "tails (stats_sizes_change d a s) = tails s"
  "sizes (stats_sizes_change d a s) = sizes s" "sizes_bytes (stats_sizes_change d a s) = sizes_bytes s"
  "curr_items (stats_sizes_change d a s) = curr_items s" "curr_bytes (stats_sizes_change d a s) = curr_bytes s"
  "total_items (stats_sizes_change d a s) = total_items s" "slab_freed (stats_sizes_change d a s) = slab_freed s"
  "cas_id (stats_sizes_change d a s) = cas_id s" "bump_queue (stats_sizes_change d a s) = bump_queue s"
  by (simp_all add: stats_sizes_change_def Let_def split: option.splits)

lemma refs_ok_freeI:
  assumes "refs_ok h L held" and "\<And>x. x \<in> L' \<or> held' x > 0 \<Longrightarrow> x \<noteq> a \<Longrightarrow>
      (x \<in> L' \<longleftrightarrow> x \<in> L) \<and> held' x = held x \<and> it_flags (h' x) = it_flags (h x) \<and> refcount (h' x) = refcount (h x)"
    and "a \<in> L' \<or> held' a > 0 \<Longrightarrow> has_flag (h' a) ITEM_LINKED = (a \<in> L') \<and> \<not> has_flag (h' a) ITEM_SLABBED
        \<and> unat (refcount (h' a)) = held' a + (if a \<in> L' then 1 else 0)"
  shows "refs_ok h' L' held'"
  unfolding refs_ok_def
proof (intro allI impI)
  fix x assume x: "x \<in> L' \<or> held' x > 0"
  show "has_flag (h' x) ITEM_LINKED = (x \<in> L') \<and> \<not> has_flag (h' x) ITEM_SLABBED
      \<and> unat (refcount (h' x)) = held' x + (if x \<in> L' then 1 else 0)"
  proof (cases "x = a")
    case False
    then show ?thesis using assms(2) [OF x] x refs_okD [OF assms(1), of x] by (auto simp: has_flag_def)
  qed (use x assms(3) in blast)
qed

lemma mark_linked_item:
  "\<exists>it. items (mark_linked cfg now a s) = (items s)(a := it) \<and> h_next it = h_next (items s a) \<and> it_next it = it_next (items s a)
     \<and> it_prev it = it_prev (items s a) \<and> slabs_clsid it = slabs_clsid (items s a) \<and> refcount it = refcount (items s a)
     \<and> it_flags it = it_flags (items s a) OR ITEM_LINKED \<and> content it = content (items s a)"
  by (auto simp: mark_linked_def Let_def get_cas_id_def set_item_def ITEM_set_cas_def content_def)

lemma mark_linked_rest:
  "table (mark_linked cfg now a s) = table s" "heads (mark_linked cfg now a s) = heads s" "tails (mark_linked cfg now a s) = tails s"
  "sizes (mark_linked cfg now a s) = sizes s" "sizes_bytes (mark_linked cfg now a s) = sizes_bytes s"
  "curr_items (mark_linked cfg now a s) = curr_items s + 1" "total_items (mark_linked cfg now a s) = total_items s + 1"
  "curr_bytes (mark_linked cfg now a s) = curr_bytes s + ITEM_ntotal (items s a)" "slab_freed (mark_linked cfg now a s) = slab_freed s" "bump_queue (mark_linked cfg now a s) = bump_queue s"
proof -
  have "ITEM_ntotal ((items s a)\<lparr>it_flags := it_flags (items s a) OR ITEM_LINKED, it_time := now\<rparr>) = ITEM_ntotal (items s a)"
    by (intro ITEM_ntotal_cong) (simp_all add: has_flag_bit bit_simps)
  then show "table (mark_linked cfg now a s) = table s" "heads (mark_linked cfg now a s) = heads s" "tails (mark_linked cfg now a s) = tails s"
    "sizes (mark_linked cfg now a s) = sizes s" "sizes_bytes (mark_linked cfg now a s) = sizes_bytes s"
    "curr_items (mark_linked cfg now a s) = curr_items s + 1" "total_items (mark_linked cfg now a s) = total_items s + 1"
    "curr_bytes (mark_linked cfg now a s) = curr_bytes s + ITEM_ntotal (items s a)" "slab_freed (mark_linked cfg now a s) = slab_freed s" "bump_queue (mark_linked cfg now a s) = bump_queue s"
    by (simp_all add: mark_linked_def Let_def get_cas_id_def set_item_def)
qed

lemma queues_upd: "(\<Union>d. set ((q(c := xs)) d)) = set xs \<union> (\<Union>d\<in>-{c}. set (q d))"
proof -
  have "(\<Union>d. set ((q(c := xs)) d)) = set ((q(c := xs)) c) \<union> (\<Union>d\<in>-{c}. set ((q(c := xs)) d))" by blast
  also have "(\<Union>d\<in>-{c}. set ((q(c := xs)) d)) = (\<Union>d\<in>-{c}. set (q d))" by (intro SUP_cong) auto
  finally show ?thesis by simp
qed

lemma queues_at: "(\<Union>d. set (q d)) = set (q c) \<union> (\<Union>d\<in>-{c}. set (q d))"
  by blast

lemma queues_push: "(\<Union>d. set ((q(c := a # q c)) d)) = insert a (\<Union>d. set (q d))"
  unfolding queues_upd using queues_at [of q c] by auto

lemma lrus_remove:
  assumes "lrus_ok h hds tls q" and "a \<in> set (q c)"
  shows "(\<Union>d. set ((q(c := remove1 a (q c))) d)) = (\<Union>d. set (q d)) - {a}"
proof -
  have "a \<notin> set (q d)" if "d \<noteq> c" for d
    using lrus_okD(5) [OF assms] lrus_okD(5) [OF assms(1), of a d] that by blast
  then show ?thesis
    unfolding queues_upd using queues_at [of q c] lrus_okD(4) [OF assms(1), of c] by (auto simp: set_remove1_eq)
qed

lemma kv_inv_linkI:
  assumes inv: "kv_inv hash m q held s" and new: "a \<notin> ran m" "m k = None" and held: "0 < held a"
    and rep: "assoc_rep hash (items s') (table s') (m(k \<mapsto> a))"
    and lru: "lrus_ok (items s') (heads s') (tails s') (q(c := a # q c))"
    and others: "\<And>x. x \<noteq> a \<Longrightarrow> it_flags (items s' x) = it_flags (items s x) \<and> refcount (items s' x) = refcount (items s x)"
    and linked: "has_flag (items s' a) ITEM_LINKED" "\<not> has_flag (items s' a) ITEM_SLABBED" "unat (refcount (items s' a)) = held a + 1"
    and nt: "\<And>x. ITEM_ntotal (items s' x) = ITEM_ntotal (items s x)"
    and counts: "curr_items s' = curr_items s + 1" "curr_bytes s' = curr_bytes s + ITEM_ntotal (items s a)"
      "sizes s' = (sizes s)(c := sizes s c + 1)" "sizes_bytes s' = (sizes_bytes s)(c := sizes_bytes s c + ITEM_ntotal (items s a))"
    and freed: "slab_freed s' = slab_freed s"
  shows "kv_inv hash (m(k \<mapsto> a)) (q(c := a # q c)) held s'"
proof -
  have ran: "ran (m(k \<mapsto> a)) = insert a (ran m)" using new(2) by (rule ran_map_upd)
  have nq: "a \<notin> set (q d)" for d using kv_invD(3) [OF inv] new(1) by blast
  have un: "(\<Union>d. set ((q(c := a # q c)) d)) = insert a (ran m)"
    unfolding queues_push using kv_invD(3) [OF inv] by simp
  have refs: "refs_ok (items s') (insert a (ran m)) held"
    using others linked by (intro refs_ok_freeI [OF kv_invD(4) [OF inv], of _ _ a]) auto
  have cnt: "counts_ok s' (insert a (ran m)) (q(c := a # q c))"
    using kv_invD(5) [OF inv] new(1) nq unfolding counts_ok_def nt counts
    by (auto simp: add.commute)
  show ?thesis
    unfolding kv_inv_def ran using rep lru un refs cnt kv_invD(6) [OF inv] held freed by auto
qed

lemma do_item_link_inv:
  assumes inv: "kv_inv hash m q held s" and new: "a \<notin> ran m" "m (ikey (items s a)) = None"
    and held: "0 < held a" "held a < 65535" and c: "c = slabs_clsid (items s a)"
  shows "\<exists>s'. do_item_link cfg now a (hash (ikey (items s a))) s = Inr s'
     \<and> kv_inv hash (m(ikey (items s a) \<mapsto> a)) (q(c := a # q c)) held s'
     \<and> same_content (items s) (items s') \<and> total_items s' = total_items s + 1 \<and> slab_freed s' = slab_freed s
     \<and> bump_queue s' = bump_queue s"
proof -
  let ?k = "ikey (items s a)" and ?s = "mark_linked cfg now a s"
  note refs = refs_okD [OF kv_invD(4) [OF inv], of a]
  have fl: "it_flags (items s a) AND (ITEM_LINKED OR ITEM_SLABBED) = 0"
    using refs(1,2) held new(1) by (intro bit_eqI) (auto simp: has_flag_bit bit_simps intro!: gr0I)
  obtain it where it: "items ?s = (items s)(a := it)" "h_next it = h_next (items s a)" "it_next it = it_next (items s a)"
    "it_prev it = it_prev (items s a)" "slabs_clsid it = c" "refcount it = refcount (items s a)"
    "it_flags it = it_flags (items s a) OR ITEM_LINKED" "content it = content (items s a)"
    using mark_linked_item [of cfg now a s] c by auto
  have k: "ikey it = ?k" using it(8) by (simp add: content_def)
  have rep: "assoc_rep hash (items ?s) (table ?s) m"
    using it k by (intro assoc_rep_frame [OF kv_invD(1) [OF inv, folded mark_linked_rest(1) [of cfg now a s]]]) simp
  from assoc_insert_map [OF rep, of a] new k it(1) obtain h5 t5 where
    ins: "assoc_insert (items ?s) (table ?s) a (hash ?k) = Inr (h5, t5)" "assoc_rep hash h5 t5 (m(?k \<mapsto> a))" "same_items (items ?s) h5"
    by auto
  note f5 = same_itemsD [OF ins(3), unfolded it(1)]
  let ?s5 = "?s\<lparr>items := h5, table := t5\<rparr>"
  have lru5: "lrus_ok (items ?s5) (heads ?s5) (tails ?s5) q"
    using f5 it c by (simp add: mark_linked_rest) (rule lrus_ok_frame [OF kv_invD(2) [OF inv]]; simp)
  have nq: "a \<notin> set (q d)" for d using kv_invD(3) [OF inv] new(1) by blast
  have "\<not> has_flag (items ?s5 a) ITEM_SLABBED" using f5(3) [of a] it(7) refs(2) held by (simp add: has_flag_bit bit_simps)
  from do_item_link_q_ok [OF lru5 this nq refl] obtain s6 where s6: "do_item_link_q a ?s5 = Inr s6"
    "lrus_ok (items s6) (heads s6) (tails s6) (q(c := a # q c))" "same_but_links (items ?s5) (items s6)"
    "s6 = ?s5\<lparr>items := items s6, heads := heads s6, tails := tails s6, sizes := (sizes ?s5)(c := sizes ?s5 c + 1),
          sizes_bytes := (sizes_bytes ?s5)(c := sizes_bytes ?s5 c + ITEM_ntotal (items ?s5 a))\<rparr>"
    using f5(5) [of a] it(5) by auto
  note f6 = same_but_linksD [OF s6(3), simplified]
  let ?s7 = "item_stats_sizes_add a (set_item a (\<lambda>it. it\<lparr>refcount := refcount it + 1\<rparr>) s6)"
  have run: "do_item_link cfg now a (hash ?k) s = Inr ?s7" using fl ins(1) s6(1) by (simp add: do_item_link_def)
  have i7: "items ?s7 = (items s6)(a := (items s6 a)\<lparr>refcount := refcount (items s6 a) + 1\<rparr>)"
    by (simp add: item_stats_sizes_add_def set_item_def)
  have r7: "table ?s7 = t5" "heads ?s7 = heads s6" "tails ?s7 = tails s6" "curr_items ?s7 = curr_items s + 1"
    "curr_bytes ?s7 = curr_bytes s + ITEM_ntotal (items s a)" "total_items ?s7 = total_items s + 1" "slab_freed ?s7 = slab_freed s"
    "bump_queue ?s7 = bump_queue s"
    "sizes ?s7 = (sizes s)(c := sizes s c + 1)" "sizes_bytes ?s7 = (sizes_bytes s)(c := sizes_bytes s c + ITEM_ntotal (h5 a))"
    by (subst s6(4), simp add: item_stats_sizes_add_def set_item_def mark_linked_rest)+
  have nt5: "ITEM_ntotal (h5 x) = ITEM_ntotal (items s x)" for x
    using f5 [of x] it k by (intro ITEM_ntotal_cong) (auto simp: has_flag_bit bit_simps content_def)
  have nt: "ITEM_ntotal (items ?s7 x) = ITEM_ntotal (items s x)" for x
    unfolding nt5 [symmetric] using f6 [of x] by (intro ITEM_ntotal_cong) (auto simp: i7 has_flag_def)
  have rc: "unat (refcount (items s a) + 1) = held a + 1"
    using refs(3) held new(1) by (subst unat_add_no_wrap) auto
  have "kv_inv hash (m(?k \<mapsto> a)) (q(c := a # q c)) held ?s7"
  proof (rule kv_inv_linkI [OF inv new held(1)])
    show "assoc_rep hash (items ?s7) (table ?s7) (m(?k \<mapsto> a))"
      unfolding r7 using f6 by (intro assoc_rep_frame [OF ins(2)]) (simp add: i7)
    show "lrus_ok (items ?s7) (heads ?s7) (tails ?s7) (q(c := a # q c))"
      unfolding r7 by (rule lrus_ok_frame [OF s6(2)]) (simp_all add: i7)
  qed (use f6 f5 it refs held rc nt nt5 r7 in \<open>auto simp: i7 has_flag_bit bit_simps\<close>)
  moreover have "same_content (items s) (items ?s7)"
    using same_content_trans [OF same_content_items [OF ins(3)] same_content_links [OF s6(3), simplified]] it(8)
    by (auto simp: same_content_def i7 it(1) content_def)
  ultimately show ?thesis using run r7 by blast
qed

text \<open>Releasing a reference. The chunk goes back when it was the last one.\<close>

lemma u16_decr: "unat (r :: u16) = Suc n \<Longrightarrow> unat (r - 1) = n"
  by (metis One_nat_def diff_Suc_1 unat_minus_one unat_0 nat.distinct(1))

lemma do_item_remove_inv:
  assumes inv: "kv_inv hash m q held s" and held: "0 < held a"
  shows "\<exists>s'. do_item_remove a s = Inr s' \<and> kv_inv hash m q (held(a := held a - 1)) s'
     \<and> same_content (items s) (items s') \<and> total_items s' = total_items s \<and> cas_id s' = cas_id s \<and> bump_queue s' = bump_queue s
     \<and> slab_freed s' = (if a \<notin> ran m \<and> held a = 1 then a # slab_freed s else slab_freed s)"
proof -
  note refs = refs_okD [OF kv_invD(4) [OF inv], of a]
  let ?s1 = "set_item a (\<lambda>it. it\<lparr>refcount := refcount it - 1\<rparr>) s"
  have rc: "unat (refcount (items s a) - 1) = held a - 1 + (if a \<in> ran m then 1 else 0)"
    using u16_decr [of "refcount (items s a)"] refs(3) held by (cases "held a") (auto split: if_splits)
  have "unat (refcount (items s a)) > 0" using refs(3) held by simp
  then have pos: "refcount (items s a) > 0" by (simp add: unat_gt_0 word_gt_0)
  have nt: "ITEM_ntotal (items ?s1 x) = ITEM_ntotal (items s x)" for x
    by (intro ITEM_ntotal_cong) (simp_all add: set_item_def has_flag_def)
  have inv1: "assoc_rep hash (items ?s1) (table ?s1) m" "lrus_ok (items ?s1) (heads ?s1) (tails ?s1) q" "counts_ok ?s1 (ran m) q"
    using assoc_rep_frame [OF kv_invD(1) [OF inv], of "items ?s1"] lrus_ok_frame [OF kv_invD(2) [OF inv], of "items ?s1"]
      kv_invD(5) [OF inv] by (simp_all add: counts_ok_def nt) (simp_all add: set_item_def)
  show ?thesis
  proof (cases "a \<notin> ran m \<and> held a = 1")
    case True
    let ?s2 = "slabs_take_back a (ITEM_clsid (items s a)) ?s1"
    have nq: "a \<notin> set (q d)" for d using kv_invD(3) [OF inv] True by blast
    have free: "item_free a ?s1 = Inr ?s2"
      using refs True rc lrus_okD(1,2) [OF kv_invD(2) [OF inv], of "slabs_clsid (items s a)"] first_in [of "q (slabs_clsid (items s a))" a]
        final_in [of "q (slabs_clsid (items s a))" a] nq
      by (auto simp: item_free_def Let_def set_item_def has_flag_def ITEM_clsid_def unat_eq_0)
    have i2: "items ?s2 = (items s)(a := (items s a)\<lparr>refcount := refcount (items s a) - 1, it_flags := ITEM_SLABBED, slabs_clsid := ITEM_clsid (items s a)\<rparr>)"
      by (simp add: slabs_take_back_def set_item_def)
    have r2: "table ?s2 = table s" "heads ?s2 = heads s" "tails ?s2 = tails s" "slab_freed ?s2 = a # slab_freed s"
      "sizes ?s2 = sizes s" "sizes_bytes ?s2 = sizes_bytes s" "curr_items ?s2 = curr_items s" "curr_bytes ?s2 = curr_bytes s"
      "total_items ?s2 = total_items s" "cas_id ?s2 = cas_id s" "bump_queue ?s2 = bump_queue s"
      by (simp_all add: slabs_take_back_def set_item_def)
    have "kv_inv hash m q (held(a := held a - 1)) ?s2"
      unfolding kv_inv_def
    proof (intro conjI)
      show "assoc_rep hash (items ?s2) (table ?s2) m"
        unfolding r2 by (rule assoc_rep_frame [OF kv_invD(1) [OF inv]]) (simp add: i2)
      show "lrus_ok (items ?s2) (heads ?s2) (tails ?s2) q"
        unfolding r2 using nq by (intro lrus_ok_frame [OF kv_invD(2) [OF inv]]) (auto simp: i2)
      show "refs_ok (items ?s2) (ran m) (held(a := held a - 1))"
        using True by (intro refs_ok_freeI [OF kv_invD(4) [OF inv], of _ _ a]) (auto simp: i2)
      have "(\<Sum>x\<in>X. ITEM_ntotal (items ?s2 x)) = (\<Sum>x\<in>X. ITEM_ntotal (items s x))" if "a \<notin> X" for X
        using that by (intro sum.cong) (auto simp: i2)
      then show "counts_ok ?s2 (ran m) q" using kv_invD(5) [OF inv] True nq by (simp add: counts_ok_def r2)
    qed (use kv_invD(3,6) [OF inv] True r2 in auto)
    moreover have "do_item_remove a s = Inr ?s2"
      using free refs pos held True rc by (auto simp: do_item_remove_def set_item_def unat_eq_0)
    ultimately show ?thesis using r2 True by (auto simp: i2 same_content_def content_def)
  next
    case False
    have "kv_inv hash m q (held(a := held a - 1)) ?s1"
      unfolding kv_inv_def
    proof (intro conjI)
      show "refs_ok (items ?s1) (ran m) (held(a := held a - 1))"
        using refs held rc by (intro refs_ok_freeI [OF kv_invD(4) [OF inv], of _ _ a]) (auto simp: set_item_def has_flag_def)
    qed (use inv1 kv_invD(3,6) [OF inv] in \<open>auto simp: set_item_def\<close>)
    moreover have "do_item_remove a s = Inr ?s1"
    proof -
      have "unat (refcount (items s a) - 1) > 0" using rc False held by auto
      then show ?thesis using refs(2) pos held by (auto simp: do_item_remove_def set_item_def unat_gt_0)
    qed
    ultimately show ?thesis using False by (auto simp: same_content_def content_def set_item_def)
  qed
qed

lemma mark_unlinked_item:
  "items (mark_unlinked a s) = (items s)(a := (items s a)\<lparr>it_flags := it_flags (items s a) AND NOT ITEM_LINKED\<rparr>)"
  by (simp add: mark_unlinked_def Let_def item_stats_sizes_remove_def set_item_def)

lemma mark_unlinked_rest:
  "table (mark_unlinked a s) = table s" "heads (mark_unlinked a s) = heads s" "tails (mark_unlinked a s) = tails s"
  "sizes (mark_unlinked a s) = sizes s" "sizes_bytes (mark_unlinked a s) = sizes_bytes s"
  "curr_items (mark_unlinked a s) = curr_items s - 1" "total_items (mark_unlinked a s) = total_items s"
  "curr_bytes (mark_unlinked a s) = curr_bytes s - ITEM_ntotal (items s a)" "slab_freed (mark_unlinked a s) = slab_freed s" "bump_queue (mark_unlinked a s) = bump_queue s"
  "cas_id (mark_unlinked a s) = cas_id s"
proof -
  have "ITEM_ntotal ((items s a)\<lparr>it_flags := it_flags (items s a) AND NOT ITEM_LINKED\<rparr>) = ITEM_ntotal (items s a)"
    by (intro ITEM_ntotal_cong) (simp_all add: has_flag_bit bit_simps)
  then show "table (mark_unlinked a s) = table s" "heads (mark_unlinked a s) = heads s" "tails (mark_unlinked a s) = tails s"
    "sizes (mark_unlinked a s) = sizes s" "sizes_bytes (mark_unlinked a s) = sizes_bytes s"
    "curr_items (mark_unlinked a s) = curr_items s - 1" "total_items (mark_unlinked a s) = total_items s"
    "curr_bytes (mark_unlinked a s) = curr_bytes s - ITEM_ntotal (items s a)" "slab_freed (mark_unlinked a s) = slab_freed s" "bump_queue (mark_unlinked a s) = bump_queue s"
    "cas_id (mark_unlinked a s) = cas_id s"
    by (simp_all add: mark_unlinked_def Let_def item_stats_sizes_remove_def set_item_def)
qed

lemma ran_delete: "inj_on m (dom m) \<Longrightarrow> m k = Some a \<Longrightarrow> ran (m(k := None)) = ran m - {a}"
  unfolding ran_def inj_on_def dom_def by (auto split: if_splits) (metis option.inject)+

lemma kv_inv_unlinkI:
  assumes inv: "kv_inv hash m q held s" and found: "m k = Some a"
    and rep: "assoc_rep hash (items s') (table s') (m(k := None))"
    and lru: "lrus_ok (items s') (heads s') (tails s') (q(c := remove1 a (q c)))" and c: "a \<in> set (q c)"
    and others: "\<And>x. x \<noteq> a \<Longrightarrow> it_flags (items s' x) = it_flags (items s x)" "\<And>x. refcount (items s' x) = refcount (items s x)"
    and unlinked: "\<not> has_flag (items s' a) ITEM_LINKED" "\<not> has_flag (items s' a) ITEM_SLABBED"
    and nt: "\<And>x. ITEM_ntotal (items s' x) = ITEM_ntotal (items s x)"
    and counts: "curr_items s' = curr_items s - 1" "curr_bytes s' = curr_bytes s - ITEM_ntotal (items s a)"
      "sizes s' = (sizes s)(c := sizes s c - 1)" "sizes_bytes s' = (sizes_bytes s)(c := sizes_bytes s c - ITEM_ntotal (items s a))"
    and freed: "slab_freed s' = slab_freed s"
  shows "kv_inv hash (m(k := None)) (q(c := remove1 a (q c))) (held(a := held a + 1)) s'"
proof -
  have a: "a \<in> ran m" using found by (auto simp: ran_def)
  have ran: "ran (m(k := None)) = ran m - {a}" using ran_delete [OF assoc_rep_inj [OF kv_invD(1) [OF inv]] found] .
  have d: "distinct (q c)" using lrus_okD(4) [OF kv_invD(2) [OF inv]] .
  have un: "(\<Union>e. set ((q(c := remove1 a (q c))) e)) = ran m - {a}"
    unfolding lrus_remove [OF kv_invD(2) [OF inv] c] using kv_invD(3) [OF inv] by simp
  have refs: "refs_ok (items s') (ran m - {a}) (held(a := held a + 1))"
    using others unlinked a refs_okD(3) [OF kv_invD(4) [OF inv], of a] by (intro refs_ok_freeI [OF kv_invD(4) [OF inv], of _ _ a]) auto
  have "counts_ok s (ran m) q" using kv_invD(5) [OF inv] .
  then have cnt: "counts_ok s' (ran m - {a}) (q(c := remove1 a (q c)))"
    using a c d length_pos_if_in_set [OF c] card_gt_0_iff [of "ran m"] unfolding counts_ok_def nt counts
    by (auto simp: sum_diff1 set_remove1_eq length_remove1 of_nat_diff card_Diff_singleton Suc_leI)
  show ?thesis
    unfolding kv_inv_def ran using rep lru un refs cnt kv_invD(6) [OF inv] a freed by auto
qed

lemma do_item_unlink_inv:
  assumes inv: "kv_inv hash m q held s" and found: "m k = Some a" and c: "c = slabs_clsid (items s a)"
  shows "\<exists>s'. do_item_unlink a (hash k) s = Some (Inr s') \<and> kv_inv hash (m(k := None)) (q(c := remove1 a (q c))) held s'
     \<and> same_content (items s) (items s') \<and> total_items s' = total_items s \<and> cas_id s' = cas_id s \<and> bump_queue s' = bump_queue s
     \<and> slab_freed s' = (if held a = 0 then a # slab_freed s else slab_freed s)"
proof -
  let ?s = "mark_unlinked a s"
  have a: "a \<in> ran m" using found by (auto simp: ran_def)
  have key: "ikey (items s a) = k" using assoc_rep_key [OF kv_invD(1) [OF inv] found] .
  note refs = refs_okD [OF kv_invD(4) [OF inv], of a]
  obtain d where "a \<in> set (q d)" using kv_invD(3) [OF inv] a by blast
  then have q: "a \<in> set (q c)" using lrus_okD(5) [OF kv_invD(2) [OF inv]] c by blast
  have rep: "assoc_rep hash (items ?s) (table ?s) m"
    unfolding mark_unlinked_rest by (rule assoc_rep_frame [OF kv_invD(1) [OF inv]]) (simp add: mark_unlinked_item)
  obtain h t where del: "assoc_delete (items ?s) (table ?s) k (hash k) = Some (Inr (h, t))"
    "assoc_rep hash h t (m(k := None))" "same_items (items ?s) h" using assoc_delete_map [OF rep found] by blast
  note f = same_itemsD [OF del(3), unfolded mark_unlinked_item]
  let ?s2 = "?s\<lparr>items := h, table := t\<rparr>"
  have lru: "lrus_ok (items ?s2) (heads ?s2) (tails ?s2) q"
    using f by (simp add: mark_unlinked_rest) (rule lrus_ok_frame [OF kv_invD(2) [OF inv]]; simp)
  obtain s3 where s3: "do_item_unlink_q a ?s2 = Inr s3" "lrus_ok (items s3) (heads s3) (tails s3) (q(c := remove1 a (q c)))"
    "same_but_links h (items s3)"
    "s3 = ?s2\<lparr>items := items s3, heads := heads s3, tails := tails s3, sizes := (sizes ?s2)(c := sizes ?s2 c - 1),
          sizes_bytes := (sizes_bytes ?s2)(c := sizes_bytes ?s2 c - ITEM_ntotal (h a))\<rparr>"
    using do_item_unlink_q_ok [OF lru q] by auto
  note f3 = same_but_linksD [OF s3(3)]
  have nt2: "ITEM_ntotal (h x) = ITEM_ntotal (items s x)" for x
    using f [of x] by (intro ITEM_ntotal_cong) (auto simp: has_flag_bit bit_simps)
  have nt3: "ITEM_ntotal (items s3 x) = ITEM_ntotal (items s x)" for x
    unfolding nt2 [symmetric] using f3 [of x] by (intro ITEM_ntotal_cong) (auto simp: has_flag_def)
  have r3: "table s3 = t" "slab_freed s3 = slab_freed s" "curr_items s3 = curr_items s - 1" "total_items s3 = total_items s"
    "curr_bytes s3 = curr_bytes s - ITEM_ntotal (items s a)" "sizes s3 = (sizes s)(c := sizes s c - 1)"
    "sizes_bytes s3 = (sizes_bytes s)(c := sizes_bytes s c - ITEM_ntotal (items s a))" "cas_id s3 = cas_id s" "bump_queue s3 = bump_queue s"
    by (subst s3(4), simp add: mark_unlinked_rest nt2)+
  have inv3: "kv_inv hash (m(k := None)) (q(c := remove1 a (q c))) (held(a := held a + 1)) s3"
  proof (rule kv_inv_unlinkI [OF inv found])
    show "assoc_rep hash (items s3) (table s3) (m(k := None))"
      unfolding r3 using f3 by (intro assoc_rep_frame [OF del(2)]) simp
  qed (use s3(2) q f3 f a refs nt3 r3 in \<open>auto simp: has_flag_bit bit_simps\<close>)
  have con: "same_content (items s) (items s3)"
    using same_content_trans [OF same_content_items [OF del(3)] same_content_links [OF s3(3)]]
    by (simp add: same_content_def mark_unlinked_item content_def)
  have nr: "a \<notin> ran (m(k := None))" using ran_delete [OF assoc_rep_inj [OF kv_invD(1) [OF inv]] found] by simp
  have "has_flag (items s a) ITEM_LINKED" using refs(1) a by simp
  moreover have "ikey (items ?s a) = k" using key by (simp add: mark_unlinked_item)
  ultimately have "do_item_unlink a (hash k) s = Some (do_item_remove a s3)"
    using del(1) s3(1) by (simp add: do_item_unlink_def)
  then show ?thesis using do_item_remove_inv [OF inv3, of a] same_content_trans [OF con] nr r3 by fastforce
qed

text \<open>Moving an item to the head of a queue, of its own or of another.\<close>

definition queue_counts :: "(addr \<Rightarrow> u64) \<Rightarrow> (byte \<Rightarrow> u32) \<Rightarrow> (byte \<Rightarrow> u64) \<Rightarrow> (byte \<Rightarrow> addr list) \<Rightarrow> bool" where
  "queue_counts nt sz szb q \<longleftrightarrow> (\<forall>c. sz c = word_of_nat (length (q c)) \<and> szb c = (\<Sum>a\<in>set (q c). nt a))"

lemma queue_counts_remove:
  assumes "queue_counts nt sz szb q" and "a \<in> set (q c)" and "distinct (q c)"
  shows "queue_counts nt (sz(c := sz c - 1)) (szb(c := szb c - nt a)) (q(c := remove1 a (q c)))"
  using assms length_pos_if_in_set [OF assms(2)]
  by (auto simp: queue_counts_def sum_diff1 set_remove1_eq length_remove1 of_nat_diff Suc_leI)

lemma queue_counts_push:
  assumes "queue_counts nt sz szb q" and "a \<notin> set (q c)"
  shows "queue_counts nt (sz(c := sz c + 1)) (szb(c := szb c + nt a)) (q(c := a # q c))"
  using assms by (auto simp: queue_counts_def add.commute)

definition requeued :: "addr \<Rightarrow> byte \<Rightarrow> byte \<Rightarrow> (byte \<Rightarrow> addr list) \<Rightarrow> byte \<Rightarrow> addr list" where
  "requeued a c d q = (let q = q(c := remove1 a (q c)) in q(d := a # q d))"

definition requeue_change :: "(item \<Rightarrow> item) \<Rightarrow> bool" where
  "requeue_change f \<longleftrightarrow> (\<forall>it. h_next (f it) = h_next it \<and> it_next (f it) = it_next it \<and> it_prev (f it) = it_prev it
     \<and> refcount (f it) = refcount it \<and> content (f it) = content it
     \<and> has_flag (f it) ITEM_LINKED = has_flag it ITEM_LINKED \<and> has_flag (f it) ITEM_SLABBED = has_flag it ITEM_SLABBED
     \<and> has_flag (f it) ITEM_CAS = has_flag it ITEM_CAS \<and> has_flag (f it) ITEM_CFLAGS = has_flag it ITEM_CFLAGS)"

lemma requeue_changeD:
  assumes "requeue_change f"
  shows "h_next (f it) = h_next it" "it_next (f it) = it_next it" "it_prev (f it) = it_prev it" "refcount (f it) = refcount it"
    "content (f it) = content it" "has_flag (f it) ITEM_LINKED = has_flag it ITEM_LINKED"
    "has_flag (f it) ITEM_SLABBED = has_flag it ITEM_SLABBED" "ITEM_ntotal (f it) = ITEM_ntotal it"
  using assms by (auto simp: requeue_change_def content_def intro!: ITEM_ntotal_cong)

lemma same_but_links_ntotal: "same_but_links h h' \<Longrightarrow> ITEM_ntotal (h' x) = ITEM_ntotal (h x)"
  by (intro ITEM_ntotal_cong) (simp_all add: same_but_linksD has_flag_def)

lemma requeue_inv:
  assumes inv: "kv_inv hash m q held s" and a: "a \<in> ran m" and c: "c = slabs_clsid (items s a)"
    and f: "requeue_change f" and d: "\<And>it. slabs_clsid it = c \<Longrightarrow> slabs_clsid (f it) = d"
  shows "\<exists>s1 s2. do_item_unlink_q a s = Inr s1 \<and> do_item_link_q a (set_item a f s1) = Inr s2
     \<and> kv_inv hash m (requeued a c d q) held s2 \<and> same_content (items s) (items s2)
     \<and> s2 = s\<lparr>items := items s2, heads := heads s2, tails := tails s2, sizes := sizes s2, sizes_bytes := sizes_bytes s2\<rparr>
     \<and> (\<forall>x. x \<noteq> a \<longrightarrow> it_flags (items s2 x) = it_flags (items s x) \<and> slabs_clsid (items s2 x) = slabs_clsid (items s x))
     \<and> refcount (items s2 a) = refcount (items s a) \<and> slabs_clsid (items s2 a) = d
     \<and> s1 = s\<lparr>items := items s1, heads := heads s1, tails := tails s1, sizes := sizes s1, sizes_bytes := sizes_bytes s1\<rparr>
     \<and> same_but_links (items s) (items s1)"
proof -
  note ok = kv_invD(2) [OF inv]
  obtain e where "a \<in> set (q e)" using kv_invD(3) [OF inv] a by blast
  then have q: "a \<in> set (q c)" using lrus_okD(5) [OF ok] c by blast
  let ?q1 = "q(c := remove1 a (q c))"
  from do_item_unlink_q_ok [OF ok q] obtain s1 where s1: "do_item_unlink_q a s = Inr s1"
    "lrus_ok (items s1) (heads s1) (tails s1) ?q1" "same_but_links (items s) (items s1)"
    "s1 = s\<lparr>items := items s1, heads := heads s1, tails := tails s1, sizes := (sizes s)(c := sizes s c - 1),
       sizes_bytes := (sizes_bytes s)(c := sizes_bytes s c - ITEM_ntotal (items s a))\<rparr>" by blast
  note f1 = same_but_linksD [OF s1(3)] and g = requeue_changeD [OF f]
  let ?s = "set_item a f s1"
  have out: "a \<notin> set (?q1 e)" for e
    using lrus_okD(4) [OF ok, of c] lrus_okD(5) [OF ok q] lrus_okD(5) [OF ok, of a e] by (cases "e = c") auto
  have cd: "slabs_clsid (items ?s a) = d" using d f1(5) [of a] c by (simp add: set_item_def)
  have "lrus_ok (items ?s) (heads s1) (tails s1) ?q1"
  proof (rule lrus_ok_frame [OF s1(2)])
    fix x e assume "x \<in> set (?q1 e)"
    then have "x \<noteq> a" using out by metis
    then show "slabs_clsid (items ?s x) = slabs_clsid (items s1 x)" by (simp add: set_item_def)
  qed (simp add: set_item_def g)
  then have lru: "lrus_ok (items ?s) (heads ?s) (tails ?s) ?q1" by (simp add: set_item_def)
  have fl: "\<not> has_flag (items ?s a) ITEM_SLABBED"
    using refs_okD(2) [OF kv_invD(4) [OF inv], of a] a g(7) f1(3) [of a] by (simp add: set_item_def has_flag_def)
  from do_item_link_q_ok [OF lru fl out cd [symmetric]] obtain s2 where s2: "do_item_link_q a ?s = Inr s2"
    "lrus_ok (items s2) (heads s2) (tails s2) (requeued a c d q)" "same_but_links (items ?s) (items s2)"
    "s2 = ?s\<lparr>items := items s2, heads := heads s2, tails := tails s2, sizes := (sizes ?s)(d := sizes ?s d + 1),
       sizes_bytes := (sizes_bytes ?s)(d := sizes_bytes ?s d + ITEM_ntotal (items ?s a))\<rparr>" unfolding requeued_def Let_def by blast
  note f2 = same_but_linksD [OF s2(3)]
  have r1: "sizes s1 = (sizes s)(c := sizes s c - 1)" "sizes_bytes s1 = (sizes_bytes s)(c := sizes_bytes s c - ITEM_ntotal (items s a))"
    by (subst s1(4), simp)+
  have nt: "ITEM_ntotal (items ?s x) = ITEM_ntotal (items s x)" "ITEM_ntotal (items s2 x) = ITEM_ntotal (items s x)" for x
    using same_but_links_ntotal [OF s1(3), of x] same_but_links_ntotal [OF s2(3), of x] g(8) by (auto simp: set_item_def)
  obtain i1 h1 t1 z1 b1 where "s1 = s\<lparr>items := i1, heads := h1, tails := t1, sizes := z1, sizes_bytes := b1\<rparr>"
    using s1(4) by blast
  moreover obtain i2 h2 t2 z2 b2 where "s2 = ?s\<lparr>items := i2, heads := h2, tails := t2, sizes := z2, sizes_bytes := b2\<rparr>"
    using s2(4) by blast
  ultimately have s2f: "s2 = s\<lparr>items := items s2, heads := heads s2, tails := tails s2, sizes := sizes s2, sizes_bytes := sizes_bytes s2\<rparr>"
    by (simp add: set_item_def)
  have s1f: "s1 = s\<lparr>items := items s1, heads := heads s1, tails := tails s1, sizes := sizes s1, sizes_bytes := sizes_bytes s1\<rparr>"
    unfolding r1 by (rule s1(4))
  have r2: "sizes s2 = (sizes s1)(d := sizes s1 d + 1)" "sizes_bytes s2 = (sizes_bytes s1)(d := sizes_bytes s1 d + ITEM_ntotal (items s a))"
    by (subst s2(4), unfold nt(1), simp add: set_item_def)+
  have r3: "table s2 = table s" "curr_items s2 = curr_items s" "curr_bytes s2 = curr_bytes s" "slab_freed s2 = slab_freed s"
    by (subst s2f, simp)+
  have fields: "h_next (items s2 x) = h_next (items s x)" "refcount (items s2 x) = refcount (items s x)" "content (items s2 x) = content (items s x)"
    "has_flag (items s2 x) ITEM_LINKED = has_flag (items s x) ITEM_LINKED" "has_flag (items s2 x) ITEM_SLABBED = has_flag (items s x) ITEM_SLABBED"
    "x \<noteq> a \<Longrightarrow> it_flags (items s2 x) = it_flags (items s x) \<and> slabs_clsid (items s2 x) = slabs_clsid (items s x)" for x
    using f1 [of x] f2 [of x] g by (auto simp: set_item_def has_flag_def content_def)
  have "kv_inv hash m (requeued a c d q) held s2"
    unfolding kv_inv_def
  proof (intro conjI)
    show "assoc_rep hash (items s2) (table s2) m"
      unfolding r3 using fields(1,3) by (intro assoc_rep_frame [OF kv_invD(1) [OF inv]]) (auto simp: content_def)
    show "(\<Union>e. set (requeued a c d q e)) = ran m"
      using kv_invD(3) [OF inv] a unfolding requeued_def Let_def queues_push lrus_remove [OF ok q] by auto
    show "refs_ok (items s2) (ran m) held" using kv_invD(4) [OF inv] by (simp add: refs_ok_def fields)
    have "queue_counts (\<lambda>x. ITEM_ntotal (items s x)) (sizes s) (sizes_bytes s) q"
      using kv_invD(5) [OF inv] by (simp add: counts_ok_def queue_counts_def)
    from queue_counts_push [OF queue_counts_remove [OF this q lrus_okD(4) [OF ok]] out, of d]
    have "queue_counts (\<lambda>x. ITEM_ntotal (items s x)) (sizes s2) (sizes_bytes s2) (requeued a c d q)"
      unfolding r2 r1 requeued_def Let_def .
    then show "counts_ok s2 (ran m) (requeued a c d q)"
      using kv_invD(5) [OF inv] by (simp add: counts_ok_def queue_counts_def nt r3)
  qed (use s2(2) kv_invD(6) [OF inv] r3 in auto)
  then show ?thesis
    using s1(1,3) s2(1) s2f s1f fields(2,3,6) f2(5) [of a] cd by (auto simp: same_content_def)
qed

lemma kv_inv_set_item:
  assumes "kv_inv hash m q held s" and "soft_change (items s a) (f (items s a))"
  shows "kv_inv hash m q held (set_item a f s)"
  using assms(2) by (intro kv_inv_soft [OF assms(1)]) (auto simp: set_item_def soft_change_def)

lemma soft_time [simp]: "soft_change it (it\<lparr>it_time := t\<rparr>)"
  by (simp add: soft_change_def has_flag_def)

lemma soft_set_flags [simp]: "soft_change it (it\<lparr>it_flags := it_flags it OR ITEM_FETCHED\<rparr>)" "soft_change it (it\<lparr>it_flags := it_flags it OR ITEM_ACTIVE\<rparr>)"
  "soft_change it (it\<lparr>it_flags := it_flags it AND NOT ITEM_ACTIVE\<rparr>)"
  by (simp_all add: soft_change_def has_flag_bit bit_simps)

lemma set_item_simps [simp]:
  "items (set_item a f s) = (items s)(a := f (items s a))" "table (set_item a f s) = table s" "heads (set_item a f s) = heads s"
  "tails (set_item a f s) = tails s" "sizes (set_item a f s) = sizes s" "sizes_bytes (set_item a f s) = sizes_bytes s"
  "curr_items (set_item a f s) = curr_items s" "curr_bytes (set_item a f s) = curr_bytes s" "total_items (set_item a f s) = total_items s"
  "slab_freed (set_item a f s) = slab_freed s" "cas_id (set_item a f s) = cas_id s" "bump_queue (set_item a f s) = bump_queue s"
  by (simp_all add: set_item_def)

lemma kv_inv_set_stats [simp]: "kv_inv hash m q held (set_stats c f s) = kv_inv hash m q held s"
  by (simp add: kv_inv_def counts_ok_def set_stats_def)

lemma set_stats_simps [simp]:
  "items (set_stats c f s) = items s" "total_items (set_stats c f s) = total_items s" "slab_freed (set_stats c f s) = slab_freed s"
  "cas_id (set_stats c f s) = cas_id s" "bump_queue (set_stats c f s) = bump_queue s"
  by (simp_all add: set_stats_def)

text \<open>
  What a change of the recency of items may do: the queues may be reordered, the rest of the state that clients see
  stays.
\<close>

definition only_lru :: "(byte list \<Rightarrow> u32) \<Rightarrow> (byte list \<rightharpoonup> addr) \<Rightarrow> (addr \<Rightarrow> nat) \<Rightarrow> kv \<Rightarrow> kv \<Rightarrow> bool" where
  "only_lru hash m held s s' \<longleftrightarrow> (\<exists>q. kv_inv hash m q held s') \<and> same_content (items s) (items s')
     \<and> total_items s' = total_items s \<and> slab_freed s' = slab_freed s \<and> cas_id s' = cas_id s \<and> bump_queue s' = bump_queue s"

lemma only_lru_refl: "kv_inv hash m q held s \<Longrightarrow> only_lru hash m held s s"
  by (auto simp: only_lru_def)

lemma only_lru_set_item:
  assumes "kv_inv hash m q held s" and "soft_change (items s a) (f (items s a))" and "content (f (items s a)) = content (items s a)"
  shows "only_lru hash m held s (set_item a f s)"
  using kv_inv_set_item [of hash m q held s a f] assms by (auto simp: only_lru_def same_content_def)

lemma only_lru_requeue:
  assumes "kv_inv hash m q held s" and "a \<in> ran m" and "requeue_change f"
    and "\<And>it it'. slabs_clsid it = slabs_clsid it' \<Longrightarrow> slabs_clsid (f it) = slabs_clsid (f it')"
  shows "\<exists>s1 s2. do_item_unlink_q a s = Inr s1 \<and> do_item_link_q a (set_item a f s1) = Inr s2 \<and> only_lru hash m held s s2"
proof -
  have d: "slabs_clsid (f it) = slabs_clsid (f (items s a))" if "slabs_clsid it = slabs_clsid (items s a)" for it using assms(4) that by blast
  obtain s1 s2 where s: "do_item_unlink_q a s = Inr s1" "do_item_link_q a (set_item a f s1) = Inr s2"
    "kv_inv hash m (requeued a (slabs_clsid (items s a)) (slabs_clsid (f (items s a))) q) held s2" "same_content (items s) (items s2)"
    "s2 = s\<lparr>items := items s2, heads := heads s2, tails := tails s2, sizes := sizes s2, sizes_bytes := sizes_bytes s2\<rparr>"
    using requeue_inv [OF assms(1,2) refl assms(3) d] by blast
  have "total_items s2 = total_items s" "slab_freed s2 = slab_freed s" "cas_id s2 = cas_id s" "bump_queue s2 = bump_queue s" by (subst s(5), simp)+
  then show ?thesis using s by (auto simp: only_lru_def)
qed

lemma requeue_changes [simp]:
  "requeue_change (\<lambda>it. it)" "requeue_change (\<lambda>it. it\<lparr>slabs_clsid := ITEM_clsid it OR WARM_LRU, it_flags := it_flags it AND NOT ITEM_ACTIVE\<rparr>)"
  by (simp_all add: requeue_change_def content_def has_flag_bit bit_simps)

lemma set_item_id: "set_item a (\<lambda>it. it) s = s"
  by (simp add: set_item_def)

lemma only_lru_trans: "only_lru hash m held s s' \<Longrightarrow> only_lru hash m held s' s'' \<Longrightarrow> only_lru hash m held s s''"
  by (auto simp: only_lru_def intro: same_content_trans)

lemma only_lru_set_stats [simp]: "only_lru hash m held s (set_stats c f s') = only_lru hash m held s s'"
  by (simp add: only_lru_def)

lemma do_item_update_inv:
  assumes inv: "kv_inv hash m q held s" and a: "a \<in> ran m \<or> held a > 0"
  shows "\<exists>s'. do_item_update cfg now a s = Inr s' \<and> only_lru hash m held s s'"
proof -
  note refs = refs_okD [OF kv_invD(4) [OF inv] a]
  let ?s = "set_item a (\<lambda>it. it\<lparr>it_time := now\<rparr>) s"
  have inv1: "kv_inv hash m q held ?s" and l1: "only_lru hash m held s ?s"
    using kv_inv_set_item [OF inv] only_lru_set_item [OF inv] by (auto simp: content_def)
  have warm: "\<exists>s1 s2. do_item_unlink_q a ?s = Inr s1
      \<and> item_link_q_warm a (set_item a (\<lambda>it. it\<lparr>slabs_clsid := ITEM_clsid it OR WARM_LRU, it_flags := it_flags it AND NOT ITEM_ACTIVE\<rparr>) s1) = Inr s2
      \<and> only_lru hash m held s s2" if "a \<in> ran m"
    using only_lru_requeue [OF inv1 that requeue_changes(2)] only_lru_trans [OF l1]
    by (fastforce simp: ITEM_clsid_def item_link_q_warm_def Let_def)
  have same: "\<exists>s1 s2. do_item_unlink_q a ?s = Inr s1 \<and> do_item_link_q a s1 = Inr s2 \<and> only_lru hash m held s s2" if "a \<in> ran m"
    using only_lru_requeue [OF inv1 that requeue_changes(1)] only_lru_trans [OF l1] by (auto simp: set_item_id)
  show ?thesis
    using refs warm same only_lru_refl [OF inv] l1 by (auto simp: do_item_update_def Let_def)
qed

text \<open>Taking a reference.\<close>

lemma kv_inv_incr:
  assumes inv: "kv_inv hash m q held s" and a: "a \<in> ran m \<or> held a > 0" and lim: "held a < 65534"
  shows "kv_inv hash m q (held(a := held a + 1)) (set_item a (\<lambda>it. it\<lparr>refcount := refcount it + 1\<rparr>) s)" (is "kv_inv _ _ _ _ ?s")
  unfolding kv_inv_def
proof (intro conjI)
  note refs = refs_okD [OF kv_invD(4) [OF inv] a]
  have rc: "unat (refcount (items s a) + 1) = held a + 1 + (if a \<in> ran m then 1 else 0)"
    using refs(3) lim by (subst unat_add_no_wrap) (auto split: if_splits)
  have nt: "ITEM_ntotal (items ?s x) = ITEM_ntotal (items s x)" for x
    by (intro ITEM_ntotal_cong) (simp_all add: has_flag_def)
  show "assoc_rep hash (items ?s) (table ?s) m" using assoc_rep_frame [OF kv_invD(1) [OF inv], of "items ?s"] by simp
  show "lrus_ok (items ?s) (heads ?s) (tails ?s) q" using lrus_ok_frame [OF kv_invD(2) [OF inv], of "items ?s"] by simp
  show "refs_ok (items ?s) (ran m) (held(a := held a + 1))"
    using refs rc by (intro refs_ok_freeI [OF kv_invD(4) [OF inv], of _ _ a]) (auto simp: has_flag_def)
  show "counts_ok ?s (ran m) q" using kv_invD(5) [OF inv] unfolding counts_ok_def nt by simp
qed (use kv_invD(3,6) [OF inv] a in auto)

text \<open>The references of the state: those of clients and those of the deferred moves.\<close>

definition bump_refs :: "kv \<Rightarrow> addr \<Rightarrow> nat" where
  "bump_refs s a = count_list (map fst (bump_queue s)) a"

definition kv_ok :: "(byte list \<Rightarrow> u32) \<Rightarrow> (byte list \<rightharpoonup> addr) \<Rightarrow> (addr \<Rightarrow> nat) \<Rightarrow> kv \<Rightarrow> bool" where
  "kv_ok hash m held s \<longleftrightarrow> length (bump_queue s) \<le> LRU_BUMP_BUF_SIZE \<and> (\<exists>q. kv_inv hash m q (\<lambda>a. held a + bump_refs s a) s)"

lemma kv_ok_bump_refs: "kv_ok hash m held s \<Longrightarrow> bump_refs s a \<le> LRU_BUMP_BUF_SIZE"
  unfolding kv_ok_def bump_refs_def using count_le_length [of "map fst (bump_queue s)" a] by simp

lemma bump_refs_cong: "bump_queue s' = bump_queue s \<Longrightarrow> bump_refs s' = bump_refs s"
  by (simp add: bump_refs_def fun_eq_iff)

lemma refs_shift: "(\<lambda>x. held x + b x)(a := held a + b a + 1) = (\<lambda>x. (held(a := held a + 1)) x + b x)"
  "(\<lambda>x. held x + b x)(a := held a + b a + 1) = (\<lambda>x. held x + (b(a := b a + 1)) x)"
  for b :: "addr \<Rightarrow> nat"
  by auto

lemma kv_ok_soft:
  assumes "kv_ok hash m held s" and "soft_change (items s a) (f (items s a))" 
  shows "kv_ok hash m held (set_item a f s)"
  using assms by (auto simp: kv_ok_def bump_refs_cong [of "set_item a f s" s] intro: kv_inv_set_item)

text \<open>What an operation that looks at items leaves as it was.\<close>

definition only_recency :: "kv \<Rightarrow> kv \<Rightarrow> bool" where
  "only_recency s s' \<longleftrightarrow> same_content (items s) (items s') \<and> total_items s' = total_items s \<and> cas_id s' = cas_id s"

lemma only_recency_trans: "only_recency s s' \<Longrightarrow> only_recency s' s'' \<Longrightarrow> only_recency s s''"
  by (auto simp: only_recency_def intro: same_content_trans)

lemma kv_ok_bumped:
  assumes ok: "kv_ok hash m held s" and a: "held a > 0" and lim: "held a + bump_refs s a < 65534"
    and room: "length (bump_queue s) < LRU_BUMP_BUF_SIZE"
  shows "kv_ok hash m held ((set_item a (\<lambda>it. it\<lparr>refcount := refcount it + 1\<rparr>) s)\<lparr>bump_queue := bump_queue s @ [(a, hv)]\<rparr>)"
    (is "kv_ok hash m held ?s")
proof -
  obtain q where inv: "kv_inv hash m q (\<lambda>a. held a + bump_refs s a) s" using ok by (auto simp: kv_ok_def)
  have b: "bump_refs ?s = (bump_refs s)(a := bump_refs s a + 1)" by (auto simp: bump_refs_def)
  from kv_inv_incr [OF inv, of a] a lim
  have "kv_inv hash m q (\<lambda>x. held x + bump_refs ?s x) (set_item a (\<lambda>it. it\<lparr>refcount := refcount it + 1\<rparr>) s)"
    unfolding b by (simp only: refs_shift(2)) simp
  then have "kv_inv hash m q (\<lambda>x. held x + bump_refs ?s x) ?s"
    by (rule kv_inv_soft) (simp_all add: soft_change_def)
  then show ?thesis using room by (auto simp: kv_ok_def)
qed

lemma only_recency_set_item: "content (f (items s a)) = content (items s a) \<Longrightarrow> only_recency s (set_item a f s)"
  by (auto simp: only_recency_def same_content_def)

lemma bump_refs_set_item [simp]: "bump_refs (set_item a f s) = bump_refs s"
  by (rule bump_refs_cong) simp

lemma do_item_update_ok:
  assumes ok: "kv_ok hash m held s" and a: "a \<in> ran m \<or> held a > 0"
  shows "\<exists>s'. do_item_update cfg now a s = Inr s' \<and> kv_ok hash m held s' \<and> only_recency s s'
     \<and> bump_refs s' = bump_refs s \<and> slab_freed s' = slab_freed s"
proof -
  obtain q where inv: "kv_inv hash m q (\<lambda>a. held a + bump_refs s a) s" using ok by (auto simp: kv_ok_def)
  obtain s' where s': "do_item_update cfg now a s = Inr s'" "only_lru hash m (\<lambda>a. held a + bump_refs s a) s s'"
    using do_item_update_inv [OF inv, of a cfg now] a by auto
  then have "bump_refs s' = bump_refs s" by (intro bump_refs_cong) (simp add: only_lru_def)
  then show ?thesis using s' ok by (auto simp: only_lru_def kv_ok_def only_recency_def)
qed

lemma kv_ok_dropped: "kv_ok hash m held (s\<lparr>bumps_dropped := n\<rparr>) = kv_ok hash m held s"
  by (simp add: kv_ok_def kv_inv_def counts_ok_def bump_refs_def)

lemma do_item_bump_ok:
  assumes ok: "kv_ok hash m held s" and a: "held a > 0" and lim: "held a + bump_refs s a < 65534"
  shows "\<exists>s'. do_item_bump cfg now room a hv s = Inr s' \<and> kv_ok hash m held s' \<and> only_recency s s'
     \<and> (\<forall>x. bump_refs s' x \<le> bump_refs s x + (if x = a then 1 else 0)) \<and> slab_freed s' = slab_freed s"
    (is "\<exists>s'. ?run s' \<and> ?P s'")
proof -
  have soft: "?P (set_item a f s)" if "soft_change (items s a) (f (items s a))" "content (f (items s a)) = content (items s a)" for f
    using kv_ok_soft [of hash m held s a f] only_recency_set_item [of f s a] that ok by auto
  let ?fetched = "set_item a (\<lambda>it. it\<lparr>it_flags := it_flags it OR ITEM_FETCHED\<rparr>) s"
  let ?active = "set_item a (\<lambda>it. it\<lparr>it_flags := it_flags it OR ITEM_ACTIVE\<rparr>) s"
  have P1: "?P ?fetched" "?P ?active" by (rule soft; simp add: content_def)+
  have time: "?P (set_item a (\<lambda>it. it\<lparr>it_time := now\<rparr>) ?active)"
    using soft [of "\<lambda>it. it\<lparr>it_flags := it_flags it OR ITEM_ACTIVE, it_time := now\<rparr>"]
    by (auto simp: set_item_def soft_change_def has_flag_bit bit_simps content_def)
  show ?thesis
  proof (cases "lru_segmented cfg")
    case False
    then show ?thesis
      using do_item_update_ok [OF conjunct1 [OF P1(1)], of a cfg now] a P1(1)
      by (auto simp: do_item_bump_def intro: only_recency_trans)
  next
    case True
    have ok1: "kv_ok hash m held ?active" "only_recency s ?active" using P1(2) by auto
    obtain s2 r where s2: "lru_bump_async room a hv ?active = (s2, r)" by fastforce
    let ?s3 = "if r then s2 else set_item a (\<lambda>it. it\<lparr>it_flags := it_flags it AND NOT ITEM_ACTIVE\<rparr>) s2"
    have "?P ?s3"
    proof (cases "room \<and> length (bump_queue s) < LRU_BUMP_BUF_SIZE")
      case True
      then have "?s3 = (set_item a (\<lambda>it. it\<lparr>refcount := refcount it + 1\<rparr>) ?active)\<lparr>bump_queue := bump_queue ?active @ [(a, hv)]\<rparr>"
        using s2 by (auto simp: lru_bump_async_def Let_def)
      then show ?thesis using kv_ok_bumped [OF ok1(1), of a hv] a lim ok1(2) True
        by (auto simp: only_recency_def same_content_def content_def bump_refs_def)
    next
      case False
      then have "?s3 = (set_item a (\<lambda>it. it\<lparr>it_flags := (it_flags it OR ITEM_ACTIVE) AND NOT ITEM_ACTIVE\<rparr>) s)\<lparr>bumps_dropped := bumps_dropped s + 1\<rparr>"
        using s2 by (auto simp: lru_bump_async_def Let_def set_item_def)
      moreover have "?P (set_item a (\<lambda>it. it\<lparr>it_flags := (it_flags it OR ITEM_ACTIVE) AND NOT ITEM_ACTIVE\<rparr>) s)"
        by (rule soft) (simp_all add: soft_change_def has_flag_bit bit_simps content_def)
      ultimately show ?thesis by (simp add: kv_ok_dropped) (simp add: only_recency_def bump_refs_def)
    qed
    then show ?thesis
      using True P1 time only_recency_trans s2 ok by (auto simp: do_item_bump_def Let_def only_recency_def)
  qed
qed

text \<open>The operations of the table on the state with its references.\<close>

lemma do_item_link_ok:
  assumes ok: "kv_ok hash m held s" and new: "a \<notin> ran m" "m (ikey (items s a)) = None"
    and held: "0 < held a" "held a + bump_refs s a < 65535"
  shows "\<exists>s'. do_item_link cfg now a (hash (ikey (items s a))) s = Inr s' \<and> kv_ok hash (m(ikey (items s a) \<mapsto> a)) held s'
     \<and> same_content (items s) (items s') \<and> total_items s' = total_items s + 1 \<and> slab_freed s' = slab_freed s
     \<and> bump_refs s' = bump_refs s"
proof -
  obtain q where inv: "kv_inv hash m q (\<lambda>a. held a + bump_refs s a) s" using ok by (auto simp: kv_ok_def)
  from do_item_link_inv [OF inv new _ _ refl, of cfg now] held
  obtain s' where s': "do_item_link cfg now a (hash (ikey (items s a))) s = Inr s'"
    "\<exists>q. kv_inv hash (m(ikey (items s a) \<mapsto> a)) q (\<lambda>a. held a + bump_refs s a) s'"
    "same_content (items s) (items s')" "total_items s' = total_items s + 1" "slab_freed s' = slab_freed s" "bump_queue s' = bump_queue s"
    by auto
  then show ?thesis using bump_refs_cong [OF s'(6)] ok by (auto simp: kv_ok_def)
qed

lemma do_item_remove_ok:
  assumes ok: "kv_ok hash m held s" and held: "0 < held a"
  shows "\<exists>s'. do_item_remove a s = Inr s' \<and> kv_ok hash m (held(a := held a - 1)) s' \<and> only_recency s s'
     \<and> bump_refs s' = bump_refs s
     \<and> slab_freed s' = (if a \<notin> ran m \<and> held a + bump_refs s a = 1 then a # slab_freed s else slab_freed s)"
proof -
  obtain q where inv: "kv_inv hash m q (\<lambda>a. held a + bump_refs s a) s" using ok by (auto simp: kv_ok_def)
  have h: "(\<lambda>x. held x + bump_refs s x)(a := held a + bump_refs s a - 1) = (\<lambda>x. (held(a := held a - 1)) x + bump_refs s x)"
    using held by auto
  from do_item_remove_inv [OF inv, of a] held obtain s' where s': "do_item_remove a s = Inr s'"
    "kv_inv hash m q (\<lambda>x. (held(a := held a - 1)) x + bump_refs s x) s'" "only_recency s s'" "bump_queue s' = bump_queue s"
    "slab_freed s' = (if a \<notin> ran m \<and> held a + bump_refs s a = 1 then a # slab_freed s else slab_freed s)"
    unfolding h only_recency_def by auto
  then show ?thesis using bump_refs_cong [OF s'(4)] ok by (auto simp: kv_ok_def)
qed

lemma do_item_unlink_ok:
  assumes ok: "kv_ok hash m held s" and found: "m k = Some a"
  shows "\<exists>s'. do_item_unlink a (hash k) s = Some (Inr s') \<and> kv_ok hash (m(k := None)) held s' \<and> only_recency s s'
     \<and> bump_refs s' = bump_refs s
     \<and> slab_freed s' = (if held a + bump_refs s a = 0 then a # slab_freed s else slab_freed s)"
proof -
  obtain q where inv: "kv_inv hash m q (\<lambda>a. held a + bump_refs s a) s" using ok by (auto simp: kv_ok_def)
  from do_item_unlink_inv [OF inv found refl] obtain s' where s': "do_item_unlink a (hash k) s = Some (Inr s')"
    "\<exists>q. kv_inv hash (m(k := None)) q (\<lambda>a. held a + bump_refs s a) s'" "only_recency s s'" "bump_queue s' = bump_queue s"
    "slab_freed s' = (if held a + bump_refs s a = 0 then a # slab_freed s else slab_freed s)"
    by (auto simp: only_recency_def)
  then show ?thesis using bump_refs_cong [OF s'(4)] ok by (auto simp: kv_ok_def)
qed

lemma kv_ok_incr:
  assumes ok: "kv_ok hash m held s" and a: "a \<in> ran m \<or> held a > 0" and lim: "held a + bump_refs s a < 65534"
  shows "kv_ok hash m (held(a := held a + 1)) (set_item a (\<lambda>it. it\<lparr>refcount := refcount it + 1\<rparr>) s)"
proof -
  obtain q where inv: "kv_inv hash m q (\<lambda>a. held a + bump_refs s a) s" using ok by (auto simp: kv_ok_def)
  from kv_inv_incr [OF inv, of a] a lim
  show ?thesis using ok unfolding kv_ok_def by (simp only: refs_shift(1) bump_refs_set_item) auto
qed

lemma kv_ok_key: "kv_ok hash m held s \<Longrightarrow> m key = Some a \<Longrightarrow> ikey (items s a) = key"
  by (auto simp: kv_ok_def dest: kv_invD(1) assoc_rep_key)

lemma kv_ok_find: "kv_ok hash m held s \<Longrightarrow> assoc_find (items s) (table s) key (hash key) = Some (Inr (m key))"
  by (auto simp: kv_ok_def dest: kv_invD(1) intro: assoc_find_map)

definition dead :: "kv_settings \<Rightarrow> u32 \<Rightarrow> item \<Rightarrow> bool" where
  "dead cfg now it \<longleftrightarrow> item_is_flushed cfg now it \<or> exptime it \<noteq> 0 \<and> exptime it \<le> now"

lemma item_is_flushed_refcount [simp]: "item_is_flushed cfg now (it\<lparr>refcount := r\<rparr>) = item_is_flushed cfg now it"
  by (simp add: item_is_flushed_def ITEM_get_cas_def has_flag_def)

lemma do_item_get_none: "kv_ok hash m held s \<Longrightarrow> m key = None \<Longrightarrow> do_item_get cfg now room key (hash key) do_update s = Some (Inr (s, None))"
  by (simp add: do_item_get_def kv_ok_find)

lemma do_item_get_live:
  assumes ok: "kv_ok hash m held s" and found: "m key = Some a" and live: "\<not> dead cfg now (items s a)"
    and lim: "held a + bump_refs s a < 65533"
  shows "\<exists>s'. do_item_get cfg now room key (hash key) do_update s = Some (Inr (s', Some a)) \<and> kv_ok hash m (held(a := held a + 1)) s'
     \<and> only_recency s s' \<and> (\<forall>x. bump_refs s' x \<le> bump_refs s x + (if x = a then 1 else 0)) \<and> slab_freed s' = slab_freed s"
proof -
  let ?s = "set_item a (\<lambda>it. it\<lparr>refcount := refcount it + 1\<rparr>) s"
  have ok1: "kv_ok hash m (held(a := held a + 1)) ?s" using kv_ok_incr [OF ok, of a] found lim by (auto simp: ran_def)
  have r1: "only_recency s ?s" by (rule only_recency_set_item) (simp add: content_def)
  have "\<not> item_is_flushed cfg now (items ?s a)" "\<not> (exptime (items ?s a) \<noteq> 0 \<and> exptime (items ?s a) \<le> now)"
    using live by (auto simp: dead_def)
  then have run: "do_item_get cfg now room key (hash key) do_update s
      = (if do_update then Some (bindE (do_item_bump cfg now room a (hash key) ?s) (\<lambda>s. Inr (s, Some a))) else Some (Inr (?s, Some a)))"
    by (auto simp: do_item_get_def kv_ok_find [OF ok] found Let_def)
  obtain s2 where s2: "do_item_bump cfg now room a (hash key) ?s = Inr s2" "kv_ok hash m (held(a := held a + 1)) s2" "only_recency ?s s2"
    "\<forall>x. bump_refs s2 x \<le> bump_refs ?s x + (if x = a then 1 else 0)" "slab_freed s2 = slab_freed s"
    using do_item_bump_ok [OF ok1, of a cfg now room "hash key"] lim by auto
  show ?thesis
    using run s2 only_recency_trans [OF r1 s2(3)] ok1 r1
    by (intro exI [of _ "if do_update then s2 else ?s"]) (simp add: le_SucI)
qed

lemma do_item_get_dead:
  assumes ok: "kv_ok hash m held s" and found: "m key = Some a" and dead: "dead cfg now (items s a)"
    and lim: "held a + bump_refs s a < 65533"
  shows "\<exists>s'. do_item_get cfg now room key (hash key) do_update s = Some (Inr (s', None)) \<and> kv_ok hash (m(key := None)) held s'
     \<and> only_recency s s' \<and> bump_refs s' = bump_refs s
     \<and> slab_freed s' = (if held a + bump_refs s a = 0 then a # slab_freed s else slab_freed s)"
proof -
  let ?s = "set_item a (\<lambda>it. it\<lparr>refcount := refcount it + 1\<rparr>) s"
  have ok1: "kv_ok hash m (held(a := held a + 1)) ?s" using kv_ok_incr [OF ok, of a] found lim by (auto simp: ran_def)
  have r1: "only_recency s ?s" by (rule only_recency_set_item) (simp add: content_def)
  obtain s2 where s2: "do_item_unlink a (hash key) ?s = Some (Inr s2)" "kv_ok hash (m(key := None)) (held(a := held a + 1)) s2"
    "only_recency ?s s2" "bump_refs s2 = bump_refs s" "slab_freed s2 = slab_freed s"
    using do_item_unlink_ok [OF ok1 found] by auto
  have nr: "a \<notin> ran (m(key := None))"
    using ok found by (auto simp: kv_ok_def dest!: kv_invD(1) assoc_rep_inj ran_delete)
  obtain s3 where s3: "do_item_remove a s2 = Inr s3" "kv_ok hash (m(key := None)) held s3" "only_recency s2 s3" "bump_refs s3 = bump_refs s"
    "slab_freed s3 = (if held a + bump_refs s a = 0 then a # slab_freed s else slab_freed s)"
    using do_item_remove_ok [OF s2(2), of a] s2 nr by auto
  have ok4: "kv_ok hash (m(key := None)) held (s3\<lparr>get_flushed := n\<rparr>)" "kv_ok hash (m(key := None)) held (s3\<lparr>get_expired := n\<rparr>)" for n
    using s3(2) by (simp_all add: kv_ok_def kv_inv_def counts_ok_def bump_refs_def)
  have b4: "bump_refs (s3\<lparr>get_flushed := n\<rparr>) = bump_refs s" "bump_refs (s3\<lparr>get_expired := n\<rparr>) = bump_refs s" for n
    using s3(4) bump_refs_cong [of "s3\<lparr>get_flushed := n\<rparr>" s3] bump_refs_cong [of "s3\<lparr>get_expired := n\<rparr>" s3] by simp_all
  have rec: "only_recency s s3" using r1 s2(3) s3(3) by (blast intro: only_recency_trans)
  have "item_is_flushed cfg now (items ?s a) \<or> exptime (items ?s a) \<noteq> 0 \<and> exptime (items ?s a) \<le> now"
    using dead by (simp add: dead_def)
  then have "do_item_get cfg now room key (hash key) do_update s
      = Some (Inr (if item_is_flushed cfg now (items ?s a) then s3\<lparr>get_flushed := get_flushed s3 + 1\<rparr> else s3\<lparr>get_expired := get_expired s3 + 1\<rparr>, None))"
    using s2(1) s3(1) by (auto simp: do_item_get_def kv_ok_find [OF ok] found Let_def)
  then show ?thesis using ok4 b4 rec s3(5) by (auto simp: only_recency_def)
qed

lemma do_item_replace_ok:
  assumes ok: "kv_ok hash m held s" and found: "m key = Some a" and held: "0 < held a"
    and new: "b \<notin> ran m" "ikey (items s b) = key" "0 < held b" "held b + bump_refs s b < 65535"
  shows "\<exists>s'. do_item_replace cfg now a b (hash key) s = Some (Inr s') \<and> kv_ok hash (m(key \<mapsto> b)) held s'
     \<and> same_content (items s) (items s') \<and> total_items s' = total_items s + 1 \<and> slab_freed s' = slab_freed s
     \<and> bump_refs s' = bump_refs s"
proof -
  obtain s1 where s1: "do_item_unlink a (hash key) s = Some (Inr s1)" "kv_ok hash (m(key := None)) held s1" "only_recency s s1"
    "bump_refs s1 = bump_refs s" "slab_freed s1 = slab_freed s" using do_item_unlink_ok [OF ok found] held by auto
  have k: "ikey (items s1 b) = key" using s1(3) new(2) same_contentD by (auto simp: only_recency_def)
  have "b \<notin> ran (m(key := None))" using new(1) by (auto simp: ran_def split: if_splits)
  from do_item_link_ok [OF s1(2) this, of cfg now] k new s1(4) obtain s2 where
    s2: "do_item_link cfg now b (hash key) s1 = Inr s2" "kv_ok hash (m(key \<mapsto> b)) held s2" "same_content (items s1) (items s2)"
      "total_items s2 = total_items s1 + 1" "slab_freed s2 = slab_freed s1" "bump_refs s2 = bump_refs s1" by auto
  have "\<not> has_flag (items s a) ITEM_SLABBED"
    using ok held by (auto simp: kv_ok_def dest!: kv_invD(4) refs_okD(2) [of _ _ _ a])
  then have "do_item_replace cfg now a b (hash key) s = Some (Inr s2)" using s1(1) s2(1) by (simp add: do_item_replace_def)
  then show ?thesis using s1 s2 by (auto simp: only_recency_def intro: same_content_trans)
qed

end
