(* ===== verification/Mc_Lru.thy ===== *)
theory Mc_Lru
  imports Mc_Items
begin

text \<open>
  Reclaiming memory, \<^verbatim>\<open>src/memcached/items.c\<close>: the walk from the tail of a queue that frees expired items, moves
  items between queues and evicts, the allocation of an item on top of it, and the rounds of the maintainer
  thread. The slab allocator is an argument: \<open>chunk i\<close> is what it returns on attempt \<open>i\<close>. \<open>busy hv\<close> says that another
  thread holds the lock of the hash value. Requests to move a slab page are listed in \<open>reassign_calls\<close>. The lemmas show that the
  walk ends without a fault, drops only dead items unless it evicts, and keeps the table, the queues, the
  reference counts and the statistics in agreement.
\<close>

section \<open>The code\<close>

definition LRU_PULL_EVICT :: byte where "LRU_PULL_EVICT = 1"
definition LRU_PULL_CRAWL_BLOCKS :: byte where "LRU_PULL_CRAWL_BLOCKS = 2"
definition LRU_PULL_RETURN_ITEM :: byte where "LRU_PULL_RETURN_ITEM = 4"

record pull =
  pl_orig_id :: byte
  pl_cur_lru :: byte
  pl_total_bytes :: u64
  pl_flags :: byte
  pl_max_age :: u32

definition pull_id :: "pull \<Rightarrow> byte" where
  "pull_id p = pl_orig_id p OR pl_cur_lru p"

definition pull_has :: "pull \<Rightarrow> byte \<Rightarrow> bool" where
  "pull_has p f = (pl_flags p AND f \<noteq> 0)"

text \<open>How one pass of the loop ends: go on, go on without counting, give up, or stop at the item.\<close>

datatype pass_end = Continue | ContinueCrawler | CrawlBlocks | StopAt byte "(addr \<times> u32) option"

definition bump_stat :: "pull \<Rightarrow> (itemstats_t \<Rightarrow> itemstats_t) \<Rightarrow> kv \<Rightarrow> kv" where
  "bump_stat p f s = set_stats (pull_id p) f s"

definition clear_active :: "addr \<Rightarrow> kv \<Rightarrow> kv" where
  "clear_active a s = set_item a (\<lambda>it. it\<lparr>it_flags := it_flags it AND NOT ITEM_ACTIVE\<rparr>) s"

text \<open>The cases of the hot and the warm queue.\<close>

definition pull_hot_warm :: "kv_settings \<Rightarrow> u32 \<Rightarrow> pull \<Rightarrow> addr \<Rightarrow> kv \<Rightarrow> (kv \<times> int \<times> pass_end) res" where
  "pull_hot_warm cfg now p a s =
     (let hot = (if pl_cur_lru p = HOT_LRU then pl_total_bytes p * hot_lru_pct cfg div 100 else 0);
          lim = (if hot = 0 then pl_total_bytes p * warm_lru_pct cfg div 100 else hot)
      in if has_flag (items s a) ITEM_ACTIVE then
           let s = clear_active a s in
           if pl_cur_lru p = WARM_LRU then
             let s = bump_stat p (\<lambda>st. st\<lparr>moves_within_lru := moves_within_lru st + 1\<rparr>) s in
             bindE (do_item_unlink_q a s) (\<lambda>s. bindE (do_item_link_q a s) (\<lambda>s. bindE (do_item_remove a s) (\<lambda>s.
               Inr (s, 1, Continue))))
           else
             let s = bump_stat p (\<lambda>st. st\<lparr>moves_to_warm := moves_to_warm st + 1\<rparr>) s in
             bindE (do_item_unlink_q a s) (\<lambda>s. Inr (s, 1, StopAt WARM_LRU None))
         else if sizes_bytes s (pull_id p) > lim \<or> now - it_time (items s a) > pl_max_age p then
           let s = bump_stat p (\<lambda>st. st\<lparr>moves_to_cold := moves_to_cold st + 1\<rparr>) s in
           bindE (do_item_unlink_q a s) (\<lambda>s. Inr (s, 1, StopAt COLD_LRU None))
         else Inr (s, 0, StopAt 0 None))"

definition count_eviction :: "u32 \<Rightarrow> pull \<Rightarrow> item \<Rightarrow> kv \<Rightarrow> kv" where
  "count_eviction now p it s =
     bump_stat p (\<lambda>st. st\<lparr>evicted := evicted st + 1, evicted_time := now - it_time it,
       evicted_nonzero := evicted_nonzero st + (if exptime it \<noteq> 0 then 1 else 0),
       evicted_unfetched := evicted_unfetched st + (if has_flag it ITEM_FETCHED then 0 else 1),
       evicted_active := evicted_active st + (if has_flag it ITEM_ACTIVE then 1 else 0)\<rparr>) s"

definition pull_cold :: "kv_settings \<Rightarrow> u32 \<Rightarrow> u32 \<Rightarrow> pull \<Rightarrow> addr \<Rightarrow> kv \<Rightarrow> (kv \<times> int \<times> pass_end) res option" where
  "pull_cold cfg now hv p a s =
     (if pull_has p LRU_PULL_EVICT then
        if \<not> evict_to_free cfg then Some (Inr (s, 0, StopAt 0 None))
        else let s = count_eviction now p (items s a) s in
          bindO (do_item_unlink a hv s) (\<lambda>s.
            Some (Inr (if automove_mode cfg = 2 then s\<lparr>reassign_calls := reassign_calls s @ [unat (pl_orig_id p)]\<rparr> else s, 1, StopAt 0 None)))
      else if pull_has p LRU_PULL_RETURN_ITEM then Some (Inr (s, 0, StopAt 0 (Some (a, hv))))
      else if has_flag (items s a) ITEM_ACTIVE \<and> lru_segmented cfg then
        let s = clear_active a (bump_stat p (\<lambda>st. st\<lparr>moves_to_warm := moves_to_warm st + 1\<rparr>) s) in
        Some (bindE (do_item_unlink_q a s) (\<lambda>s. Inr (s, 1, StopAt WARM_LRU None)))
      else Some (Inr (s, 0, StopAt 0 None)))"

definition pull_switch :: "kv_settings \<Rightarrow> u32 \<Rightarrow> u32 \<Rightarrow> pull \<Rightarrow> addr \<Rightarrow> kv \<Rightarrow> (kv \<times> int \<times> pass_end) res option" where
  "pull_switch cfg now hv p a s =
     (if pl_cur_lru p = HOT_LRU \<or> pl_cur_lru p = WARM_LRU then Some (pull_hot_warm cfg now p a s)
      else if pl_cur_lru p = COLD_LRU then pull_cold cfg now hv p a s
      else if pl_cur_lru p = TEMP_LRU then Some (Inr (s, 0, StopAt 0 None))
      else Some (Inr (s, 0, Continue)))"

text \<open>One pass of the loop over the item \<open>a\<close>, with the change to the count of removed items.\<close>

definition pull_pass ::
    "kv_settings \<Rightarrow> u32 \<Rightarrow> (byte list \<Rightarrow> u32) \<Rightarrow> (u32 \<Rightarrow> bool) \<Rightarrow> pull \<Rightarrow> addr \<Rightarrow> kv \<Rightarrow> (kv \<times> int \<times> pass_end) res option" where
  "pull_pass cfg now hash busy p a s =
     (let it = items s a in
      if nbytes it = 0 \<and> ikey it = [] \<and> it_flags it = 1 then
        Some (Inr (s, 0, if pull_has p LRU_PULL_CRAWL_BLOCKS then CrawlBlocks else ContinueCrawler))
      else let hv = hash (ikey it) in
      if busy hv then Some (Inr (s, 0, Continue))
      else let s = set_item a (\<lambda>it. it\<lparr>refcount := refcount it + 1\<rparr>) s;
               reflocked = (refcount (items s a) \<noteq> 2);
               s = (if reflocked then bump_stat p (\<lambda>st. st\<lparr>lrutail_reflocked := lrutail_reflocked st + 1\<rparr>) s else s)
      in if reflocked \<and> tail_repair_time cfg \<noteq> 0 \<and> it_time it + tail_repair_time cfg < now then
           let s = bump_stat p (\<lambda>st. st\<lparr>tailrepairs := tailrepairs st + 1\<rparr>) s;
               s = set_item a (\<lambda>it. it\<lparr>refcount := 1\<rparr>) s
           in bindO (do_item_unlink a hv s) (\<lambda>s. Some (Inr (s, 0, Continue)))
         else if exptime it \<noteq> 0 \<and> exptime it < now \<or> item_is_flushed cfg now it then
           let s = bump_stat p (\<lambda>st. st\<lparr>reclaimed := reclaimed st + 1,
                     expired_unfetched := expired_unfetched st + (if has_flag it ITEM_FETCHED then 0 else 1)\<rparr>) s
           in bindO (do_item_unlink a hv s) (\<lambda>s. Some (bindE (do_item_remove a s) (\<lambda>s. Inr (s, 1, Continue))))
         else pull_switch cfg now hv p a s)"

datatype pull_end = PullEmpty | PullBlocked | PullStopped addr byte "(addr \<times> u32) option"

partial_function (option) pull_loop ::
    "kv_settings \<Rightarrow> u32 \<Rightarrow> (byte list \<Rightarrow> u32) \<Rightarrow> (u32 \<Rightarrow> bool) \<Rightarrow> pull \<Rightarrow> nat \<Rightarrow> addr option \<Rightarrow> kv \<times> int \<Rightarrow> ((kv \<times> int) \<times> pull_end) res option" where
  "pull_loop cfg now hash busy p tries search st =
     (case search of
        None \<Rightarrow> Some (Inr (st, PullEmpty))
      | Some a \<Rightarrow>
         if tries = 0 then Some (Inr (st, PullEmpty))
         else (case pull_pass cfg now hash busy p a (fst st) of
             None \<Rightarrow> None
           | Some (Inl e) \<Rightarrow> Some (Inl e)
           | Some (Inr r) \<Rightarrow>
              (case snd (snd r) of
                 Continue \<Rightarrow> pull_loop cfg now hash busy p (tries - 1) (it_prev (items (fst st) a)) (fst r, snd st + fst (snd r))
               | ContinueCrawler \<Rightarrow> pull_loop cfg now hash busy p tries (it_prev (items (fst st) a)) (fst r, snd st + fst (snd r))
               | CrawlBlocks \<Rightarrow> Some (Inr (st, PullBlocked))
               | StopAt move ret \<Rightarrow> Some (Inr ((fst r, snd st + fst (snd r)), PullStopped a move ret)))))"

declare pull_loop.simps [code]

definition lru_pull_tail ::
    "kv_settings \<Rightarrow> u32 \<Rightarrow> (byte list \<Rightarrow> u32) \<Rightarrow> (u32 \<Rightarrow> bool) \<Rightarrow> pull \<Rightarrow> kv \<Rightarrow> (kv \<times> int \<times> (addr \<times> u32) option) res option" where
  "lru_pull_tail cfg now hash busy p s =
     (if pl_orig_id p = 0 then Some (Inr (s, 0, None))
      else bindO (pull_loop cfg now hash busy p 5 (tails s (pull_id p)) (s, 0)) (\<lambda>((s, removed), how). Some (case how of
          PullEmpty \<Rightarrow> Inr (s, removed, None)
        | PullBlocked \<Rightarrow> Inr (s, 0, None)
        | PullStopped a move ret \<Rightarrow>
            bindE (if move \<noteq> 0 then do_item_link_q a (set_item a (\<lambda>it. it\<lparr>slabs_clsid := ITEM_clsid it OR move\<rparr>) s) else Inr s) (\<lambda>s.
            bindE (if pull_has p LRU_PULL_RETURN_ITEM then Inr s else do_item_remove a s) (\<lambda>s.
              Inr (s, removed, ret))))))"

section \<open>One pass\<close>

lemma kv_ok_set_stats [simp]: "kv_ok hash m held (set_stats c f s) = kv_ok hash m held s"
  using bump_refs_cong [of "set_stats c f s" s] by (simp add: kv_ok_def)

lemma kv_ok_bump_stat [simp]: "kv_ok hash m held (bump_stat p f s) = kv_ok hash m held s"
  by (simp add: bump_stat_def)

lemma bump_stat_simps [simp]:
  "items (bump_stat p f s) = items s" "bump_queue (bump_stat p f s) = bump_queue s" "total_items (bump_stat p f s) = total_items s"
  "cas_id (bump_stat p f s) = cas_id s" "bump_refs (bump_stat p f s) = bump_refs s"
  using bump_refs_cong [of "bump_stat p f s" s] by (simp_all add: bump_stat_def)

lemma only_recency_bump_stat [simp]: "only_recency s (bump_stat p f s') = only_recency s s'" "only_recency (bump_stat p f s) s' = only_recency s s'"
  by (simp_all add: only_recency_def)

lemma only_recency_refl [simp]: "only_recency s s"
  by (simp add: only_recency_def)

lemma kv_ok_clear_active: "kv_ok hash m held s \<Longrightarrow> kv_ok hash m held (clear_active a s)"
  unfolding clear_active_def by (rule kv_ok_soft) simp_all

lemma only_recency_clear_active: "only_recency s (clear_active a s)"
  unfolding clear_active_def by (rule only_recency_set_item) (simp add: content_def)

lemma clear_active_simps [simp]: "bump_refs (clear_active a s) = bump_refs s"
  by (simp add: clear_active_def)

text \<open>An item that is taken out of its queue to be put into another.\<close>

definition detached :: "(byte list \<Rightarrow> u32) \<Rightarrow> (byte list \<rightharpoonup> addr) \<Rightarrow> (addr \<Rightarrow> nat) \<Rightarrow> addr \<Rightarrow> kv \<Rightarrow> bool" where
  "detached hash m held a s \<longleftrightarrow> (\<exists>s0. kv_ok hash m held s0 \<and> do_item_unlink_q a s0 = Inr s \<and> a \<in> ran m
     \<and> bump_refs s = bump_refs s0 \<and> only_recency s0 s)"

lemma kv_ok_requeue:
  assumes ok: "kv_ok hash m held s" and a: "a \<in> ran m" and f: "requeue_change f"
    and d: "\<And>it it'. slabs_clsid it = slabs_clsid it' \<Longrightarrow> slabs_clsid (f it) = slabs_clsid (f it')"
  shows "\<exists>s1 s2. do_item_unlink_q a s = Inr s1 \<and> do_item_link_q a (set_item a f s1) = Inr s2 \<and> kv_ok hash m held s2
     \<and> only_recency s s2 \<and> bump_refs s2 = bump_refs s"
proof -
  obtain q where inv: "kv_inv hash m q (\<lambda>a. held a + bump_refs s a) s" using ok by (auto simp: kv_ok_def)
  obtain s1 s2 where s: "do_item_unlink_q a s = Inr s1" "do_item_link_q a (set_item a f s1) = Inr s2"
    "only_lru hash m (\<lambda>a. held a + bump_refs s a) s s2" using only_lru_requeue [OF inv a f d] by blast
  then have "bump_refs s2 = bump_refs s" by (intro bump_refs_cong) (simp add: only_lru_def)
  then show ?thesis using s ok by (auto simp: only_lru_def kv_ok_def only_recency_def)
qed

lemma kv_ok_detach:
  assumes ok: "kv_ok hash m held s" and a: "a \<in> ran m"
  shows "\<exists>s1. do_item_unlink_q a s = Inr s1 \<and> detached hash m held a s1 \<and> only_recency s s1 \<and> bump_refs s1 = bump_refs s"
proof -
  obtain q where inv: "kv_inv hash m q (\<lambda>a. held a + bump_refs s a) s" using ok by (auto simp: kv_ok_def)
  from a obtain c where "a \<in> set (q c)" using kv_invD(3) [OF inv] by blast
  from do_item_unlink_q_ok [OF kv_invD(2) [OF inv] this] obtain s1 h t z b where s1: "do_item_unlink_q a s = Inr s1"
    "same_but_links (items s) (items s1)"
    "s1 = s\<lparr>items := items s1, heads := h, tails := t, sizes := z, sizes_bytes := b\<rparr>" by blast
  have "total_items s1 = total_items s" "cas_id s1 = cas_id s" "bump_queue s1 = bump_queue s" by (subst s1(3), simp)+
  then have "only_recency s s1" "bump_refs s1 = bump_refs s"
    using same_content_links [OF s1(2)] bump_refs_cong [of s1 s] by (auto simp: only_recency_def)
  then show ?thesis using s1(1) ok a by (auto simp: detached_def)
qed

lemma detached_link:
  assumes "detached hash m held a s"
  shows "\<exists>s'. do_item_link_q a (set_item a (\<lambda>it. it\<lparr>slabs_clsid := ITEM_clsid it OR c\<rparr>) s) = Inr s' \<and> kv_ok hash m held s'
     \<and> only_recency s s' \<and> bump_refs s' = bump_refs s"
proof -
  let ?f = "\<lambda>it. it\<lparr>slabs_clsid := ITEM_clsid it OR c\<rparr>"
  obtain s0 where s0: "kv_ok hash m held s0" "do_item_unlink_q a s0 = Inr s" "a \<in> ran m" "bump_refs s = bump_refs s0" "only_recency s0 s"
    using assms by (auto simp: detached_def)
  have "requeue_change ?f" by (simp add: requeue_change_def content_def has_flag_def)
  from kv_ok_requeue [OF s0(1,3) this] obtain s2 where "do_item_link_q a (set_item a ?f s) = Inr s2" "kv_ok hash m held s2"
    "only_recency s0 s2" "bump_refs s2 = bump_refs s0" using s0(2) by (auto simp: ITEM_clsid_def)
  then show ?thesis using s0(4,5) by (auto simp: only_recency_def same_content_def)
qed

text \<open>What one pass may do to the map: nothing, or drop the item, for a reason.\<close>

definition drops :: "(byte list \<rightharpoonup> addr) \<Rightarrow> (byte list \<rightharpoonup> addr) \<Rightarrow> addr \<Rightarrow> bool \<Rightarrow> bool" where
  "drops m m' a why \<longleftrightarrow> m' = m \<or> why \<and> (\<exists>k. m k = Some a \<and> m' = m(k := None))"

definition is_lru :: "byte \<Rightarrow> bool" where
  "is_lru c \<longleftrightarrow> c = HOT_LRU \<or> c = WARM_LRU \<or> c = COLD_LRU \<or> c = TEMP_LRU"

definition pass_ok ::
    "(byte list \<Rightarrow> u32) \<Rightarrow> pull \<Rightarrow> bool \<Rightarrow> (byte list \<rightharpoonup> addr) \<Rightarrow> (addr \<Rightarrow> nat) \<Rightarrow> addr \<Rightarrow> kv \<Rightarrow> kv \<Rightarrow> pass_end \<Rightarrow> bool" where
  "pass_ok hash p expired m held a s s' how \<longleftrightarrow> only_recency s s' \<and> bump_refs s' = bump_refs s
     \<and> (case how of
          Continue \<Rightarrow> \<exists>m'. kv_ok hash m' held s' \<and> drops m m' a expired
        | StopAt mv ret \<Rightarrow> (if mv = 0 then \<exists>m'. kv_ok hash m' (held(a := held a + 1)) s' \<and> drops m m' a (pull_has p LRU_PULL_EVICT)
                             else detached hash m (held(a := held a + 1)) a s')
        | _ \<Rightarrow> False)"

lemma drops_refl [simp]: "drops m m a why"
  by (simp add: drops_def)

lemma lru_nonzero [simp]: "WARM_LRU \<noteq> 0" "COLD_LRU \<noteq> 0"
  by (simp_all add: WARM_LRU_def COLD_LRU_def)

lemma pull_hot_warm_ok:
  assumes ok: "kv_ok hash m (held(a := held a + 1)) s" and a: "a \<in> ran m"
  shows "\<exists>s' n how. pull_hot_warm cfg now p a s = Inr (s', n, how) \<and> pass_ok hash p expired m held a s s' how"
proof -
  have move: "\<exists>s1. do_item_unlink_q a s0 = Inr s1 \<and> pass_ok hash p expired m held a s s1 (StopAt c None)"
    if "kv_ok hash m (held(a := held a + 1)) s0" "only_recency s s0" "bump_refs s0 = bump_refs s" "c \<noteq> 0" for s0 c
    using kv_ok_detach [OF that(1) a] only_recency_trans [OF that(2)] that(3,4) unfolding pass_ok_def by fastforce
  let ?s = "clear_active a s"
  have ok1: "kv_ok hash m (held(a := held a + 1)) ?s" using kv_ok_clear_active [OF ok] .
  have within: "\<exists>s1 s2 s3. do_item_unlink_q a s0 = Inr s1 \<and> do_item_link_q a s1 = Inr s2 \<and> do_item_remove a s2 = Inr s3
      \<and> pass_ok hash p expired m held a s s3 Continue"
    if t: "kv_ok hash m (held(a := held a + 1)) s0" "only_recency s s0" "bump_refs s0 = bump_refs s" for s0
  proof -
    obtain s1 s2 where s2: "do_item_unlink_q a s0 = Inr s1" "do_item_link_q a s1 = Inr s2" "kv_ok hash m (held(a := held a + 1)) s2"
      "only_recency s0 s2" "bump_refs s2 = bump_refs s0"
      using kv_ok_requeue [OF t(1) a requeue_changes(1)] by (auto simp: set_item_id)
    obtain s3 where "do_item_remove a s2 = Inr s3" "kv_ok hash m held s3" "only_recency s2 s3" "bump_refs s3 = bump_refs s2"
      using do_item_remove_ok [OF s2(3), of a] by auto
    then show ?thesis using s2 t only_recency_trans [OF only_recency_trans [OF t(2) s2(4)]] drops_refl unfolding pass_ok_def by fastforce
  qed
  have stay: "pass_ok hash p expired m held a s s (StopAt 0 None)" using ok drops_refl by (auto simp: pass_ok_def)
  have w: "\<exists>s1 s2 s3. do_item_unlink_q a (bump_stat p f ?s) = Inr s1 \<and> do_item_link_q a s1 = Inr s2 \<and> do_item_remove a s2 = Inr s3
      \<and> pass_ok hash p expired m held a s s3 Continue" for f
    using within [of "bump_stat p f ?s"] ok1 only_recency_clear_active [of s a] by simp
  have h: "\<exists>s1. do_item_unlink_q a (bump_stat p f ?s) = Inr s1 \<and> pass_ok hash p expired m held a s s1 (StopAt WARM_LRU None)" for f
    using move [of "bump_stat p f ?s" WARM_LRU] ok1 only_recency_clear_active [of s a] by simp
  have c: "\<exists>s1. do_item_unlink_q a (bump_stat p f s) = Inr s1 \<and> pass_ok hash p expired m held a s s1 (StopAt COLD_LRU None)" for f
    using move [of "bump_stat p f s" COLD_LRU] ok by simp
  show ?thesis
  proof (cases "has_flag (items s a) ITEM_ACTIVE")
    case True
    then show ?thesis using w [of "\<lambda>st. st\<lparr>moves_within_lru := moves_within_lru st + 1\<rparr>"] h [of "\<lambda>st. st\<lparr>moves_to_warm := moves_to_warm st + 1\<rparr>"]
      unfolding pull_hot_warm_def Let_def by (cases "pl_cur_lru p = WARM_LRU") auto
  next
    case False
    then show ?thesis using c [of "\<lambda>st. st\<lparr>moves_to_cold := moves_to_cold st + 1\<rparr>"] stay
      unfolding pull_hot_warm_def Let_def by auto
  qed
qed

lemma kv_ok_reassign [simp]: "kv_ok hash m held (s\<lparr>reassign_calls := xs\<rparr>) = kv_ok hash m held s"
  by (simp add: kv_ok_def kv_inv_def counts_ok_def bump_refs_def)

lemma reassign_simps [simp]: "bump_refs (s\<lparr>reassign_calls := xs\<rparr>) = bump_refs s"
  "only_recency s0 (s\<lparr>reassign_calls := xs\<rparr>) = only_recency s0 s"
  by (rule bump_refs_cong, simp) (simp add: only_recency_def)

lemma pull_cold_ok:
  assumes ok: "kv_ok hash m (held(a := held a + 1)) s" and k: "m k = Some a"
  shows "\<exists>s' n how. pull_cold cfg now (hash k) p a s = Some (Inr (s', n, how)) \<and> pass_ok hash p expired m held a s s' how"
proof -
  have a: "a \<in> ran m" using k by (auto simp: ran_def)
  have stay: "pass_ok hash p expired m held a s s (StopAt 0 r)" for r using ok drops_refl by (auto simp: pass_ok_def)
  let ?e = "count_eviction now p (items s a) s"
  have oke: "kv_ok hash m (held(a := held a + 1)) ?e" "only_recency s ?e" "bump_refs ?e = bump_refs s"
    using ok by (simp_all add: count_eviction_def)
  obtain s1 where s1: "do_item_unlink a (hash k) ?e = Some (Inr s1)" "kv_ok hash (m(k := None)) (held(a := held a + 1)) s1"
    "only_recency ?e s1" "bump_refs s1 = bump_refs ?e" using do_item_unlink_ok [OF oke(1) k] by auto
  have ev: "pass_ok hash p expired m held a s s1 (StopAt 0 None)" if "pull_has p LRU_PULL_EVICT"
    using s1 oke only_recency_trans [OF oke(2) s1(3)] that k by (auto simp: pass_ok_def drops_def)
  then have ev2: "pass_ok hash p expired m held a s (s1\<lparr>reassign_calls := xs\<rparr>) (StopAt 0 None)" if "pull_has p LRU_PULL_EVICT" for xs
    using that by (simp add: pass_ok_def)
  let ?w = "clear_active a (bump_stat p (\<lambda>st. st\<lparr>moves_to_warm := moves_to_warm st + 1\<rparr>) s)"
  have okw: "kv_ok hash m (held(a := held a + 1)) ?w" using kv_ok_clear_active [of hash m _ "bump_stat p _ s"] ok by simp
  have recw: "only_recency s ?w" using only_recency_clear_active [of "bump_stat p _ s" a] by simp
  obtain s2 where s2: "do_item_unlink_q a ?w = Inr s2" "detached hash m (held(a := held a + 1)) a s2" "only_recency ?w s2" "bump_refs s2 = bump_refs s"
    using kv_ok_detach [OF okw a] by auto
  have w: "pass_ok hash p expired m held a s s2 (StopAt WARM_LRU None)"
    using s2 only_recency_trans [OF recw s2(3)] by (simp add: pass_ok_def)
  show ?thesis
  proof (cases "pull_has p LRU_PULL_EVICT")
    case True
    then show ?thesis using stay ev ev2 s1(1) by (auto simp: pull_cold_def Let_def)
  next
    case False
    then show ?thesis using stay w s2(1) by (auto simp: pull_cold_def Let_def)
  qed
qed

lemma kv_ok_ranD: "kv_ok hash m held s \<Longrightarrow> a \<in> ran m \<Longrightarrow> m (ikey (items s a)) = Some a"
  using kv_ok_key by (fastforce simp: ran_def)

lemma pull_pass_ok:
  assumes ok: "kv_ok hash m held s" and a: "a \<in> ran m" and lim: "held a + bump_refs s a < 65534"
    and real: "ikey (items s a) \<noteq> []" and norepair: "tail_repair_time cfg = 0" and lru: "is_lru (pl_cur_lru p)"
  shows "\<exists>s' n how. pull_pass cfg now hash busy p a s = Some (Inr (s', n, how))
     \<and> pass_ok hash p (exptime (items s a) \<noteq> 0 \<and> exptime (items s a) < now \<or> item_is_flushed cfg now (items s a)) m held a s s' how"
proof -
  let ?it = "items s a" and ?k = "ikey (items s a)"
  let ?dead = "exptime ?it \<noteq> 0 \<and> exptime ?it < now \<or> item_is_flushed cfg now ?it"
  have k: "m ?k = Some a" using kv_ok_ranD [OF ok a] .
  define s1 where "s1 = set_item a (\<lambda>it. it\<lparr>refcount := refcount it + 1\<rparr>) s"
  define s2 where "s2 = (if refcount (items s1 a) \<noteq> 2 then bump_stat p (\<lambda>st. st\<lparr>lrutail_reflocked := lrutail_reflocked st + 1\<rparr>) s1 else s1)"
  have ok2: "kv_ok hash m (held(a := held a + 1)) s2" using kv_ok_incr [OF ok, of a] a lim by (simp add: s2_def s1_def)
  have rec: "only_recency s s2" "bump_refs s2 = bump_refs s"
    by (auto simp: s2_def s1_def content_def intro!: only_recency_set_item)
  have lift: "pass_ok hash p ?dead m held a s s' how" if "pass_ok hash p ?dead m held a s2 s' how" for s' how
    using that rec only_recency_trans [OF rec(1)] by (auto simp: pass_ok_def)
  have run: "pull_pass cfg now hash busy p a s = (if busy (hash ?k) then Some (Inr (s, 0, Continue))
     else if ?dead then bindO (do_item_unlink a (hash ?k) (bump_stat p (\<lambda>st. st\<lparr>reclaimed := reclaimed st + 1,
                     expired_unfetched := expired_unfetched st + (if has_flag ?it ITEM_FETCHED then 0 else 1)\<rparr>) s2))
                   (\<lambda>s. Some (bindE (do_item_remove a s) (\<lambda>s. Inr (s, 1, Continue))))
     else pull_switch cfg now (hash ?k) p a s2)"
    using real norepair by (simp add: pull_pass_def Let_def s2_def s1_def)
  have idle: "pass_ok hash p ?dead m held a s s Continue" using ok by (auto simp: pass_ok_def)
  have dead: "\<exists>s3 s4. do_item_unlink a (hash ?k) (bump_stat p f s2) = Some (Inr s3) \<and> do_item_remove a s3 = Inr s4
      \<and> pass_ok hash p ?dead m held a s s4 Continue" if d: ?dead for f
  proof -
    obtain s3 where s3: "do_item_unlink a (hash ?k) (bump_stat p f s2) = Some (Inr s3)" "kv_ok hash (m(?k := None)) (held(a := held a + 1)) s3"
      "only_recency s2 s3" "bump_refs s3 = bump_refs s" using do_item_unlink_ok [of hash m _ "bump_stat p f s2" ?k a] ok2 k rec by auto
    obtain s4 where s4: "do_item_remove a s3 = Inr s4" "kv_ok hash (m(?k := None)) held s4" "only_recency s3 s4" "bump_refs s4 = bump_refs s"
      using do_item_remove_ok [OF s3(2), of a] s3(4) by auto
    have "only_recency s s4" using only_recency_trans [OF only_recency_trans [OF rec(1) s3(3)] s4(3)] .
    then show ?thesis using s3(1) s4 d k by (auto simp: pass_ok_def drops_def)
  qed
  have sw: "\<exists>s' n how. pull_switch cfg now (hash ?k) p a s2 = Some (Inr (s', n, how)) \<and> pass_ok hash p ?dead m held a s s' how"
  proof -
    have "pass_ok hash p ?dead m held a s2 s2 (StopAt 0 None)" using ok2 drops_refl by (auto simp: pass_ok_def)
    then show ?thesis
      using pull_hot_warm_ok [OF ok2 a, of cfg now p ?dead] pull_cold_ok [OF ok2 k, of cfg now p ?dead] lru lift
      unfolding pull_switch_def is_lru_def by (auto; blast)
  qed
  consider "busy (hash ?k)" | "\<not> busy (hash ?k)" ?dead | "\<not> busy (hash ?k)" "\<not> ?dead" by blast
  then show ?thesis
  proof cases
    case 1
    then show ?thesis using run idle by (simp only: if_True) blast
  next
    case 2
    obtain s3 s4 where "do_item_unlink a (hash ?k) (bump_stat p (\<lambda>st. st\<lparr>reclaimed := reclaimed st + 1,
        expired_unfetched := expired_unfetched st + (if has_flag ?it ITEM_FETCHED then 0 else 1)\<rparr>) s2) = Some (Inr s3)"
      "do_item_remove a s3 = Inr s4" "pass_ok hash p ?dead m held a s s4 Continue" using dead [OF 2(2)] by blast
    then show ?thesis using run 2(1) unfolding if_P [OF 2(2)] by simp
  next
    case 3
    then show ?thesis using run sw by (simp only: if_False simp_thms) 
  qed
qed

section \<open>The walk\<close>

lemma kv_ok_prev:
  assumes ok: "kv_ok hash m held s" and a: "a \<in> ran m" and b: "it_prev (items s a) = Some b"
  shows "b \<in> ran m" "b \<noteq> a"
proof -
  obtain q where inv: "kv_inv hash m q (\<lambda>a. held a + bump_refs s a) s" using ok by (auto simp: kv_ok_def)
  obtain c where "a \<in> set (q c)" using kv_invD(3) [OF inv] a by blast
  then obtain xs ys where q: "q c = xs @ a # ys" by (auto simp: in_set_conv_decomp)
  have "final xs = Some b" using segment_links lrus_okD(3) [OF kv_invD(2) [OF inv], of c] q b by auto
  then have "b \<in> set xs" by (rule final_in)
  then have "b \<in> set (q c)" "b \<noteq> a" using q lrus_okD(4) [OF kv_invD(2) [OF inv], of c] by auto
  then show "b \<in> ran m" "b \<noteq> a" using kv_invD(3) [OF inv] by auto
qed

lemma kv_ok_tail: "kv_ok hash m held s \<Longrightarrow> tails s c = Some a \<Longrightarrow> a \<in> ran m"
proof -
  assume ok: "kv_ok hash m held s" and t: "tails s c = Some a"
  obtain q where inv: "kv_inv hash m q (\<lambda>a. held a + bump_refs s a) s" using ok by (auto simp: kv_ok_def)
  have "a \<in> set (q c)" using lrus_okD(2) [OF kv_invD(2) [OF inv], of c] t final_in [of "q c" a] by auto
  then show "a \<in> ran m" using kv_invD(3) [OF inv] by auto
qed

text \<open>The items that a walk may drop: only expired ones, unless it evicts or items have been flushed.\<close>

definition reduced :: "kv_settings \<Rightarrow> u32 \<Rightarrow> pull \<Rightarrow> kv \<Rightarrow> (byte list \<rightharpoonup> addr) \<Rightarrow> (byte list \<rightharpoonup> addr) \<Rightarrow> bool" where
  "reduced cfg now p s m m' \<longleftrightarrow> m' \<subseteq>\<^sub>m m \<and> (\<not> pull_has p LRU_PULL_EVICT \<and> oldest_live cfg = 0 \<longrightarrow>
     (\<forall>k a. m k = Some a \<and> m' k = None \<longrightarrow> exptime (items s a) \<noteq> 0 \<and> exptime (items s a) < now))"

lemma map_le_ran: "m \<subseteq>\<^sub>m m' \<Longrightarrow> ran m \<subseteq> ran m'"
  unfolding ran_def map_le_def dom_def by force

lemma reduced_refl [simp]: "reduced cfg now p s m m"
  by (auto simp: reduced_def)

lemma reduced_trans:
  assumes "reduced cfg now p s m m'" and "reduced cfg now p s' m' m''" and "only_recency s s'"
  shows "reduced cfg now p s m m''"
proof -
  have e: "exptime (items s' a) = exptime (items s a)" for a using assms(3) same_contentD by (auto simp: only_recency_def)
  show ?thesis
    using assms(1,2) unfolding reduced_def e by (auto intro: map_le_trans) (metis (no_types, lifting) option.exhaust map_le_def domI)+
qed

lemma drops_reduced:
  assumes "drops m m' a why"
    and "why \<Longrightarrow> \<not> pull_has p LRU_PULL_EVICT \<Longrightarrow> oldest_live cfg = 0 \<Longrightarrow> exptime (items s a) \<noteq> 0 \<and> exptime (items s a) < now"
  shows "reduced cfg now p s m m'"
  using assms by (auto simp: drops_def reduced_def map_le_def split: if_splits)

lemma drops_other: "drops m m' a why \<Longrightarrow> b \<in> ran m \<Longrightarrow> b \<noteq> a \<Longrightarrow> b \<in> ran m'"
  unfolding drops_def ran_def by (auto split: if_splits) (metis option.inject)

definition walk_ok ::
    "(byte list \<Rightarrow> u32) \<Rightarrow> kv_settings \<Rightarrow> u32 \<Rightarrow> pull \<Rightarrow> (byte list \<rightharpoonup> addr) \<Rightarrow> (addr \<Rightarrow> nat) \<Rightarrow> kv \<Rightarrow> kv \<Rightarrow> pull_end \<Rightarrow> bool" where
  "walk_ok hash cfg now p m held s s' how \<longleftrightarrow> only_recency s s' \<and> bump_refs s' = bump_refs s
     \<and> (\<exists>m'. reduced cfg now p s m m' \<and> (case how of
          PullEmpty \<Rightarrow> kv_ok hash m' held s'
        | PullBlocked \<Rightarrow> False
        | PullStopped a mv ret \<Rightarrow> if mv = 0 then kv_ok hash m' (held(a := held a + 1)) s' else detached hash m' (held(a := held a + 1)) a s'))"

lemma walk_ok_same: "kv_ok hash m held s \<Longrightarrow> walk_ok hash cfg now p m held s s PullEmpty"
  unfolding walk_ok_def by (intro conjI exI [of _ m]) simp_all

lemma pull_loop_ok:
  assumes "kv_ok hash m held s" and "\<And>a. search = Some a \<Longrightarrow> a \<in> ran m" and "\<And>a. held a + bump_refs s a < 65534"
    and "\<And>a. a \<in> ran m \<Longrightarrow> ikey (items s a) \<noteq> []" and "tail_repair_time cfg = 0" and "is_lru (pl_cur_lru p)"
  shows "\<exists>s' n' how. pull_loop cfg now hash busy p tries search (s, n) = Some (Inr ((s', n'), how)) \<and> walk_ok hash cfg now p m held s s' how"
  using assms
proof (induction tries arbitrary: m s search n)
  case 0
  then have "walk_ok hash cfg now p m held s s PullEmpty" by (simp add: walk_ok_same)
  then show ?case by (subst pull_loop.simps) (auto split: option.splits)
next
  case (Suc tries)
  show ?case
  proof (cases search)
    case None
    then have "walk_ok hash cfg now p m held s s PullEmpty" using Suc.prems(1) by (simp add: walk_ok_same)
    then show ?thesis using None by (subst pull_loop.simps) auto
  next
    case (Some a)
    then have a: "a \<in> ran m" using Suc.prems(2) by simp
    let ?dead = "exptime (items s a) \<noteq> 0 \<and> exptime (items s a) < now \<or> item_is_flushed cfg now (items s a)"
    obtain s' i how where pass: "pull_pass cfg now hash busy p a s = Some (Inr (s', i, how))" "pass_ok hash p ?dead m held a s s' how"
      using pull_pass_ok [OF Suc.prems(1) a Suc.prems(3) Suc.prems(4) [OF a] Suc.prems(5,6)] by blast
    have rec: "only_recency s s'" "bump_refs s' = bump_refs s" using pass(2) by (auto simp: pass_ok_def)
    show ?thesis
    proof (cases how)
      case Continue
      obtain m' where m': "kv_ok hash m' held s'" "drops m m' a ?dead" using pass(2) Continue by (auto simp: pass_ok_def)
      have red: "reduced cfg now p s m m'" using m'(2) by (rule drops_reduced) (auto simp: item_is_flushed_def)
      have sub: "ran m' \<subseteq> ran m" using red by (simp add: reduced_def map_le_ran)
      have prev: "b \<in> ran m'" if "it_prev (items s a) = Some b" for b
        using kv_ok_prev [OF Suc.prems(1) a that] drops_other [OF m'(2)] by blast
      have keys: "ikey (items s' x) \<noteq> []" if "x \<in> ran m'" for x
        using Suc.prems(4) [of x] sub that rec(1) same_contentD [of "items s" "items s'" x] by (auto simp: only_recency_def)
      obtain s2 n2 how2 where "pull_loop cfg now hash busy p tries (it_prev (items s a)) (s', n + i) = Some (Inr ((s2, n2), how2))"
        "walk_ok hash cfg now p m' held s' s2 how2"
        using Suc.IH [OF m'(1), of "it_prev (items s a)" "n + i"] prev keys Suc.prems(3,5,6) rec(2) by auto
      moreover from this(2) have "walk_ok hash cfg now p m held s s2 how2"
        using only_recency_trans [OF rec(1)] rec(2) reduced_trans [OF red _ rec(1)] unfolding walk_ok_def by auto
      ultimately show ?thesis using Some pass(1) Continue by (subst pull_loop.simps) auto
    next
      case (StopAt mv ret)
      then have "walk_ok hash cfg now p m held s s' (PullStopped a mv ret)"
        using pass(2) drops_reduced [of m _ a "pull_has p LRU_PULL_EVICT" p cfg s now] reduced_refl [of cfg now p s m]
        unfolding pass_ok_def walk_ok_def by (cases "mv = 0") (simp_all, blast, blast intro: reduced_refl)
      then show ?thesis using Some pass(1) StopAt by (subst pull_loop.simps) auto
    qed (use pass(2) in \<open>auto simp: pass_ok_def\<close>)
  qed
qed

lemma lru_pull_tail_ok:
  assumes ok: "kv_ok hash m held s" and lim: "\<And>a. held a + bump_refs s a < 65534"
    and keys: "\<And>a. a \<in> ran m \<Longrightarrow> ikey (items s a) \<noteq> []"
    and "tail_repair_time cfg = 0" and "is_lru (pl_cur_lru p)" and noret: "\<not> pull_has p LRU_PULL_RETURN_ITEM"
  shows "\<exists>s' n r m'. lru_pull_tail cfg now hash busy p s = Some (Inr (s', n, r)) \<and> kv_ok hash m' held s'
     \<and> reduced cfg now p s m m' \<and> only_recency s s' \<and> bump_refs s' = bump_refs s"
proof (cases "pl_orig_id p = 0")
  case True
  then show ?thesis using ok reduced_refl unfolding lru_pull_tail_def by auto
next
  case False
  obtain s1 n how where s1: "pull_loop cfg now hash busy p 5 (tails s (pull_id p)) (s, 0) = Some (Inr ((s1, n), how))"
    "walk_ok hash cfg now p m held s s1 how"
    using pull_loop_ok [OF ok kv_ok_tail [OF ok, of "pull_id p"] lim keys] assms(4,5) by blast
  have rec: "only_recency s s1" "bump_refs s1 = bump_refs s" using s1(2) by (auto simp: walk_ok_def)
  show ?thesis
  proof (cases how)
    case PullEmpty
    then obtain m' where "reduced cfg now p s m m'" "kv_ok hash m' held s1" using s1(2) by (auto simp: walk_ok_def)
    then show ?thesis using s1(1) rec False PullEmpty by (auto simp: lru_pull_tail_def)
  next
    case PullBlocked
    then show ?thesis using s1(2) by (simp add: walk_ok_def)
  next
    case (PullStopped a mv ret)
    then obtain m' where m': "reduced cfg now p s m m'" "if mv = 0 then kv_ok hash m' (held(a := held a + 1)) s1 else detached hash m' (held(a := held a + 1)) a s1"
      using s1(2) by (auto simp: walk_ok_def)
    have "\<exists>s2. (if mv \<noteq> 0 then do_item_link_q a (set_item a (\<lambda>it. it\<lparr>slabs_clsid := ITEM_clsid it OR mv\<rparr>) s1) else Inr s1) = Inr s2
        \<and> kv_ok hash m' (held(a := held a + 1)) s2 \<and> only_recency s1 s2 \<and> bump_refs s2 = bump_refs s1"
      using m'(2) detached_link [of hash m' _ a s1 mv] by (cases "mv = 0") auto
    then obtain s2 where s2: "(if mv \<noteq> 0 then do_item_link_q a (set_item a (\<lambda>it. it\<lparr>slabs_clsid := ITEM_clsid it OR mv\<rparr>) s1) else Inr s1) = Inr s2"
      "kv_ok hash m' (held(a := held a + 1)) s2" "only_recency s1 s2" "bump_refs s2 = bump_refs s1" by blast
    obtain s3 where s3: "do_item_remove a s2 = Inr s3" "kv_ok hash m' held s3" "only_recency s2 s3" "bump_refs s3 = bump_refs s2"
      using do_item_remove_ok [OF s2(2), of a] by auto
    have "only_recency s s3" using only_recency_trans [OF only_recency_trans [OF rec(1) s2(3)] s3(3)] .
    moreover have "lru_pull_tail cfg now hash busy p s = Some (Inr (s3, n, ret))"
      using s1(1) False PullStopped s2(1) s3(1) noret by (simp add: lru_pull_tail_def)
    ultimately show ?thesis using m'(1) s3(2,4) s2(4) rec(2) by auto
  qed
qed

text \<open>A sequence of walks, from a state \<open>s\<close> on: the table may lose items, the content of the items stays.\<close>

definition shrunk :: "(byte list \<Rightarrow> u32) \<Rightarrow> (byte list \<rightharpoonup> addr) \<Rightarrow> (addr \<Rightarrow> nat) \<Rightarrow> kv \<Rightarrow> (byte list \<rightharpoonup> addr) \<Rightarrow> kv \<Rightarrow> bool" where
  "shrunk hash m held s m' s' \<longleftrightarrow> m' \<subseteq>\<^sub>m m \<and> kv_ok hash m' held s' \<and> only_recency s s' \<and> bump_refs s' = bump_refs s"

definition pullable :: "kv_settings \<Rightarrow> (byte list \<rightharpoonup> addr) \<Rightarrow> (addr \<Rightarrow> nat) \<Rightarrow> kv \<Rightarrow> bool" where
  "pullable cfg m held s \<longleftrightarrow> (\<forall>a. held a + bump_refs s a < 65534) \<and> (\<forall>a \<in> ran m. ikey (items s a) \<noteq> []) \<and> tail_repair_time cfg = 0"

lemma shrunk_refl: "kv_ok hash m held s \<Longrightarrow> shrunk hash m held s m s"
  by (simp add: shrunk_def)

lemma shrunk_keys:
  assumes "shrunk hash m held s m' s'" and "pullable cfg m held s"
  shows "pullable cfg m' held s'"
proof -
  have "ikey (items s' a) = ikey (items s a)" for a
    using assms(1) same_contentD [of "items s" "items s'" a] by (simp add: shrunk_def only_recency_def)
  then show ?thesis using assms map_le_ran [of m' m] by (auto simp: shrunk_def pullable_def)
qed

lemma shrunk_trans: "shrunk hash m held s m1 s1 \<Longrightarrow> shrunk hash m1 held s1 m2 s2 \<Longrightarrow> shrunk hash m held s m2 s2"
  unfolding shrunk_def by (metis map_le_trans only_recency_trans)

lemma lru_pull_tail_shrunk:
  assumes sh: "shrunk hash m held s m1 s1" and ok: "pullable cfg m held s"
    and "is_lru (pl_cur_lru p)" and "\<not> pull_has p LRU_PULL_RETURN_ITEM"
  shows "\<exists>s' n r m'. lru_pull_tail cfg now hash busy p s1 = Some (Inr (s', n, r)) \<and> shrunk hash m held s m' s'"
proof -
  note p = shrunk_keys [OF sh ok]
  obtain s' n r m' where "lru_pull_tail cfg now hash busy p s1 = Some (Inr (s', n, r))" "kv_ok hash m' held s'"
    "reduced cfg now p s1 m1 m'" "only_recency s1 s'" "bump_refs s' = bump_refs s1"
    using lru_pull_tail_ok [of hash m1 held s1 cfg p now busy] sh p assms(3,4) by (auto simp: shrunk_def pullable_def)
  moreover from this have "shrunk hash m1 held s1 m' s'" by (simp add: shrunk_def reduced_def)
  ultimately show ?thesis using shrunk_trans [OF sh] by blast
qed

section \<open>Allocation\<close>

text \<open>
  What the slab allocator returns on an attempt may depend on the state. It is a free chunk: its header carries the
  mark that \<^verbatim>\<open>do_slabs_free\<close> writes.
\<close>

type_synonym allocator = "nat \<Rightarrow> kv \<Rightarrow> addr option"

definition slab_contract :: "allocator \<Rightarrow> bool" where
  "slab_contract chunk \<longleftrightarrow> (\<forall>i s a. chunk i s = Some a \<longrightarrow> it_flags (items s a) = ITEM_SLABBED)"

definition pull_from :: "byte \<Rightarrow> byte \<Rightarrow> byte \<Rightarrow> pull" where
  "pull_from cls lru fl = \<lparr>pl_orig_id = cls, pl_cur_lru = lru, pl_total_bytes = 0, pl_flags = fl, pl_max_age = 0\<rparr>"

function alloc_pull_loop ::
    "kv_settings \<Rightarrow> u32 \<Rightarrow> (byte list \<Rightarrow> u32) \<Rightarrow> (u32 \<Rightarrow> bool) \<Rightarrow> allocator \<Rightarrow> byte \<Rightarrow> nat \<Rightarrow> kv \<Rightarrow> (kv \<times> nat \<times> addr option) res option" where
  "alloc_pull_loop cfg now hash busy chunk cls i s =
     (if \<not> i < 10 then Some (Inr (s, i, None))
      else bindO (if lru_segmented cfg then Some (Inr (s, 0, None)) else lru_pull_tail cfg now hash busy (pull_from cls COLD_LRU 0) s) (\<lambda>(s, _).
        case chunk i s of
          Some a \<Rightarrow> Some (Inr (slabs_hand_out a s, i, Some a))
        | None \<Rightarrow>
            bindO (lru_pull_tail cfg now hash busy (pull_from cls COLD_LRU LRU_PULL_EVICT) s) (\<lambda>(s, n, _).
              if n \<le> 0 then
                if lru_segmented cfg then
                  bindO (lru_pull_tail cfg now hash busy (pull_from cls HOT_LRU 0) s) (\<lambda>(s, _). alloc_pull_loop cfg now hash busy chunk cls (i + 1) s)
                else Some (Inr (s, i, None))
              else alloc_pull_loop cfg now hash busy chunk cls (i + 1) s)))"
  by pat_completeness auto
termination
  by (relation "measure (\<lambda>(cfg, now, hash, busy, chunk, cls, i, s). 10 - i)") auto

declare alloc_pull_loop.simps [simp del]

definition do_item_alloc_pull ::
    "kv_settings \<Rightarrow> u32 \<Rightarrow> (byte list \<Rightarrow> u32) \<Rightarrow> (u32 \<Rightarrow> bool) \<Rightarrow> allocator \<Rightarrow> byte \<Rightarrow> kv \<Rightarrow> (kv \<times> addr option) res option" where
  "do_item_alloc_pull cfg now hash busy chunk cls s =
     bindO (alloc_pull_loop cfg now hash busy chunk cls 0 s) (\<lambda>(s, i, it).
       Some (Inr (if i > 0 then set_stats cls (\<lambda>st. st\<lparr>direct_reclaims := direct_reclaims st + word_of_nat i\<rparr>) s else s, it)))"

text \<open>\<open>clsid\<close> is \<^verbatim>\<open>slabs_clsid\<close>, the class for a size; the size of an item chunk header is 48 bytes.\<close>

definition item_total :: "kv_settings \<Rightarrow> nat \<Rightarrow> u32 \<Rightarrow> int \<Rightarrow> u64" where
  "item_total cfg nkey fl nb = fst (item_make_header (word_of_nat nkey + 1) fl nb) + (if use_cas cfg then 8 else 0)"

text \<open>The class of the chunk: that of the whole item, or that of the header of a large item.\<close>

definition alloc_class :: "kv_settings \<Rightarrow> (u64 \<Rightarrow> byte) \<Rightarrow> nat \<Rightarrow> u32 \<Rightarrow> int \<Rightarrow> byte" where
  "alloc_class cfg clsid nkey fl nb =
     (if item_total cfg nkey fl nb > slab_chunk_size_max cfg then
        clsid (word_of_nat nkey + 1 + word_of_nat (snd (item_make_header (word_of_nat nkey + 1) fl nb)) + 80 + 48 + (if use_cas cfg then 8 else 0))
      else clsid (item_total cfg nkey fl nb))"

definition item_init :: "kv_settings \<Rightarrow> u32 \<Rightarrow> byte \<Rightarrow> byte list \<Rightarrow> u32 \<Rightarrow> u32 \<Rightarrow> int \<Rightarrow> item \<Rightarrow> item" where
  "item_init cfg now cls key fl exp nb it =
     (let nsuffix = snd (item_make_header (word_of_nat (length key) + 1) fl nb);
          lru = (if temp_lru cfg \<and> exp - now \<le> temporary_ttl cfg then TEMP_LRU
                 else if lru_segmented cfg then HOT_LRU else COLD_LRU)
      in it\<lparr>it_next := None, it_prev := None, slabs_clsid := cls OR lru,
           it_flags := it_flags it OR (if use_cas cfg then ITEM_CAS else 0) OR (if nsuffix \<noteq> 0 then ITEM_CFLAGS else 0),
           nbytes := nb, ikey := key, exptime := exp,
           client_flags := (if nsuffix > 0 then fl else client_flags it), h_next := None\<rparr>)"

definition do_item_alloc ::
    "kv_settings \<Rightarrow> u32 \<Rightarrow> (byte list \<Rightarrow> u32) \<Rightarrow> (u32 \<Rightarrow> bool) \<Rightarrow> allocator \<Rightarrow> (u64 \<Rightarrow> byte) \<Rightarrow> byte list \<Rightarrow> u32 \<Rightarrow> u32 \<Rightarrow> int \<Rightarrow>
      kv \<Rightarrow> (kv \<times> addr option) res option" where
  "do_item_alloc cfg now hash busy chunk clsid key fl exp nb s =
     (let ntotal = item_total cfg (length key) fl nb; cls = clsid ntotal in
      if nb < 2 then Some (Inr (s, None))
      else if cls = 0 then Some (Inr (s, None))
      else bindO (do_item_alloc_pull cfg now hash busy chunk (alloc_class cfg clsid (length key) fl nb) s) (\<lambda>(s, got).
        case got of
          None \<Rightarrow> Some (Inr (set_stats cls (\<lambda>st. st\<lparr>outofmemory := outofmemory st + 1\<rparr>) s, None))
        | Some a \<Rightarrow>
          let s = set_item a (\<lambda>it. if ntotal > slab_chunk_size_max cfg then it\<lparr>it_flags := it_flags it OR ITEM_CHUNKED\<rparr> else it) s in
          if \<not> (it_flags (items s a) = 0 \<or> it_flags (items s a) = ITEM_CHUNKED) then Some (Inl AssertFail)
          else Some (Inr (set_item a (item_init cfg now cls key fl exp nb) s, Some a))))"

definition item_size_ok :: "kv_settings \<Rightarrow> (u64 \<Rightarrow> byte) \<Rightarrow> nat \<Rightarrow> u32 \<Rightarrow> int \<Rightarrow> bool" where
  "item_size_ok cfg clsid nkey fl nb =
     (if nb < 2 then False
      else clsid (item_total cfg nkey fl nb) \<noteq> 0)"

lemma assoc_rep_frame_ran:
  assumes "assoc_rep hash h t m" and f: "\<And>x. x \<in> ran m \<Longrightarrow> h_next (h' x) = h_next (h x) \<and> ikey (h' x) = ikey (h x)"
  shows "assoc_rep hash h' t m"
proof -
  obtain ch where ch: "chains_ok hash h t ch" "m = chains_map hash h t ch" using assms(1) by (auto simp: assoc_rep_def)
  have r: "x \<in> ran m" if "x \<in> set (ch b)" for x b using chains_mapI [OF ch(1) that] ch(2) by (auto simp: ran_def)
  then have k: "ikey (h' x) = ikey (h x)" if "x \<in> set (ch b)" for x b using f that by blast
  have "chain h' (bucket_head t b) (ch b)" if "in_use t b" for b
    using chain_frame [OF chains_chain [OF ch(1) that]] f r by blast
  moreover have "map (\<lambda>a. ikey (h' a)) (ch b) = map (\<lambda>a. ikey (h a)) (ch b)" for b using k by auto
  ultimately have "chains_ok hash h' t ch" using ch(1) k unfolding chains_ok_def by metis
  moreover have "List.find (\<lambda>a. ikey (h' a) = key) (ch b) = List.find (\<lambda>a. ikey (h a) = key) (ch b)" for key b
    using k by (intro find_cong) auto
  then have "chains_map hash h' t ch = m" using ch(2) by (simp add: chains_map_def fun_eq_iff)
  ultimately show ?thesis by (auto simp: assoc_rep_def)
qed

lemma kv_inv_fresh:
  assumes inv: "kv_inv hash m q held s" and a: "a \<notin> ran m" "held a = 0"
    and it: "refcount it = 1" "\<not> has_flag it ITEM_LINKED" "\<not> has_flag it ITEM_SLABBED"
  shows "kv_inv hash m q (held(a := 1)) (s\<lparr>items := (items s)(a := it), slab_freed := removeAll a (slab_freed s)\<rparr>)" (is "kv_inv _ _ _ _ ?s")
  unfolding kv_inv_def
proof (intro conjI)
  have nq: "a \<notin> set (q c)" for c using kv_invD(3) [OF inv] a(1) by blast
  show "assoc_rep hash (items ?s) (table ?s) m"
    using a(1) by (simp, intro assoc_rep_frame_ran [OF kv_invD(1) [OF inv]]) auto
  have "segment (items ?s) None (q c) None" for c using segment_upd [OF lrus_okD(3) [OF kv_invD(2) [OF inv]] nq] by simp
  then show "lrus_ok (items ?s) (heads ?s) (tails ?s) q"
    using kv_invD(2) [OF inv] nq unfolding lrus_ok_def by auto
  show "refs_ok (items ?s) (ran m) (held(a := 1))"
    using it a by (intro refs_ok_freeI [OF kv_invD(4) [OF inv], of _ _ a]) auto
  have "(\<Sum>x\<in>X. ITEM_ntotal (items ?s x)) = (\<Sum>x\<in>X. ITEM_ntotal (items s x))" if "a \<notin> X" for X
    using that by (intro sum.cong) auto
  then show "counts_ok ?s (ran m) q" using kv_invD(5) [OF inv] a nq by (simp add: counts_ok_def)
qed (use kv_invD(3,6) [OF inv] in auto)

lemma kv_ok_slabbed:
  assumes "kv_ok hash m held s" and "it_flags (items s a) = ITEM_SLABBED"
  shows "a \<notin> ran m" "held a = 0" "bump_refs s a = 0"
proof -
  obtain q where inv: "kv_inv hash m q (\<lambda>a. held a + bump_refs s a) s" using assms by (auto simp: kv_ok_def)
  have "has_flag (items s a) ITEM_SLABBED" using assms(2) by (simp add: has_flag_bit)
  then have "\<not> (a \<in> ran m \<or> held a + bump_refs s a > 0)" using refs_okD(2) [OF kv_invD(4) [OF inv], of a] by (cases "held a"; cases "bump_refs s a") auto
  then show "a \<notin> ran m" "held a = 0" "bump_refs s a = 0" by auto
qed

lemma kv_ok_fresh:
  assumes ok: "kv_ok hash m held s" and a: "it_flags (items s a) = ITEM_SLABBED"
    and it: "refcount it = 1" "\<not> has_flag it ITEM_LINKED" "\<not> has_flag it ITEM_SLABBED"
  shows "kv_ok hash m (held(a := 1)) (s\<lparr>items := (items s)(a := it), slab_freed := removeAll a (slab_freed s)\<rparr>)" (is "kv_ok _ _ _ ?s")
proof -
  obtain q where inv: "kv_inv hash m q (\<lambda>a. held a + bump_refs s a) s" using ok by (auto simp: kv_ok_def)
  note fr = kv_ok_slabbed [OF ok a]
  have h: "(\<lambda>x. held x + bump_refs s x)(a := 1) = (\<lambda>x. (held(a := 1)) x + bump_refs s x)" using fr by auto
  have b: "bump_refs ?s = bump_refs s" by (rule bump_refs_cong) simp
  show ?thesis using kv_inv_fresh [OF inv fr(1) _ it] fr ok unfolding kv_ok_def b h [symmetric] by auto
qed

text \<open>The state after the attempts: the table may have lost items, and a chunk is handed out or there is none.\<close>

definition pulled ::
    "(byte list \<Rightarrow> u32) \<Rightarrow> (byte list \<rightharpoonup> addr) \<Rightarrow> (addr \<Rightarrow> nat) \<Rightarrow> kv \<Rightarrow> kv \<Rightarrow> addr option \<Rightarrow> bool" where
  "pulled hash m held s s' r \<longleftrightarrow> (\<exists>m' s0. shrunk hash m held s m' s0
     \<and> (case r of None \<Rightarrow> s' = s0 | Some a \<Rightarrow> it_flags (items s0 a) = ITEM_SLABBED \<and> s' = slabs_hand_out a s0))"

lemma pulledI:
  "shrunk hash m held s m' s0 \<Longrightarrow> pulled hash m held s s0 None"
  "shrunk hash m held s m' s0 \<Longrightarrow> it_flags (items s0 a) = ITEM_SLABBED \<Longrightarrow> pulled hash m held s (slabs_hand_out a s0) (Some a)"
  by (auto simp: pulled_def)

lemma alloc_pull_loop_ok:
  assumes "shrunk hash m held s m1 s1" and "pullable cfg m held s" and "slab_contract chunk"
  shows "\<exists>s' j r. alloc_pull_loop cfg now hash busy chunk cls i s1 = Some (Inr (s', j, r)) \<and> pulled hash m held s s' r"
  using assms(1)
proof (induction "10 - i" arbitrary: i m1 s1 rule: less_induct)
  case less
  note step = alloc_pull_loop.simps [of cfg now hash busy chunk cls i s1]
  have pull: "\<exists>s' n r m'. lru_pull_tail cfg now hash busy (pull_from cls lru fl) s2 = Some (Inr (s', n, r)) \<and> shrunk hash m held s m' s'"
    if "shrunk hash m held s m2 s2" "is_lru lru" "fl AND LRU_PULL_RETURN_ITEM = 0" for s2 m2 lru fl
    using lru_pull_tail_shrunk [OF that(1) assms(2)] that by (simp add: pull_from_def pull_has_def)
  show ?case
  proof (cases "i < 10")
    case False
    then show ?thesis using pulledI(1) [OF less.prems(1)] step by simp
  next
    case True
    have again: "\<exists>s' j r. alloc_pull_loop cfg now hash busy chunk cls (i + 1) s2 = Some (Inr (s', j, r)) \<and> pulled hash m held s s' r"
      if "shrunk hash m held s m2 s2" for s2 m2 using less.hyps [of "i + 1"] True that by simp
    obtain s2 m2 n2 r2 where s2: "(if lru_segmented cfg then Some (Inr (s1, 0, None)) else lru_pull_tail cfg now hash busy (pull_from cls COLD_LRU 0) s1)
        = Some (Inr (s2, n2, r2))" "shrunk hash m held s m2 s2"
      using pull [OF less.prems, of COLD_LRU 0] less.prems by (cases "lru_segmented cfg") (auto simp: is_lru_def)
    show ?thesis
    proof (cases "chunk i s2")
      case (Some a)
      then have "it_flags (items s2 a) = ITEM_SLABBED" using assms(3) by (auto simp: slab_contract_def)
      then show ?thesis using pulledI(2) [OF s2(2)] s2(1) True Some by (simp add: step)
    next
      case None
      obtain s3 n3 r3 m3 where s3: "lru_pull_tail cfg now hash busy (pull_from cls COLD_LRU LRU_PULL_EVICT) s2 = Some (Inr (s3, n3, r3))"
        "shrunk hash m held s m3 s3"
        using pull [OF s2(2), of COLD_LRU LRU_PULL_EVICT] by (auto simp: is_lru_def LRU_PULL_EVICT_def LRU_PULL_RETURN_ITEM_def)
      obtain s4 n4 r4 m4 where s4: "lru_pull_tail cfg now hash busy (pull_from cls HOT_LRU 0) s3 = Some (Inr (s4, n4, r4))"
        "shrunk hash m held s m4 s4" using pull [OF s3(2), of HOT_LRU 0] by (auto simp: is_lru_def)
      show ?thesis
        using again [OF s3(2)] again [OF s4(2)] pulledI(1) [OF s3(2)] s2(1) s3(1) s4(1) True None by (simp add: step)
    qed
  qed
qed

definition alloced ::
    "(byte list \<Rightarrow> u32) \<Rightarrow> (byte list \<rightharpoonup> addr) \<Rightarrow> (addr \<Rightarrow> nat) \<Rightarrow> kv \<Rightarrow> kv \<Rightarrow> addr option \<Rightarrow> bool" where
  "alloced hash m held s s' r \<longleftrightarrow> (\<exists>m'. m' \<subseteq>\<^sub>m m \<and> bump_refs s' = bump_refs s \<and> total_items s' = total_items s \<and> (case r of
     None \<Rightarrow> kv_ok hash m' held s' \<and> only_recency s s'
   | Some a \<Rightarrow> a \<notin> ran m' \<and> held a = 0 \<and> bump_refs s a = 0 \<and> kv_ok hash m' (held(a := 1)) s'
       \<and> (\<forall>x. x \<noteq> a \<longrightarrow> content (items s' x) = content (items s x))
       \<and> mac (items s' a) = mac (items s a) \<and> mt_index (items s' a) = mt_index (items s a) \<and> idata (items s' a) = idata (items s a)))"

lemma kv_ok_outofmemory [simp]: "alloced hash m held s (set_stats c f s') None = alloced hash m held s s' None"
  using bump_refs_cong [of "set_stats c f s'" s'] by (simp add: alloced_def only_recency_def)

lemma do_item_alloc_pull_ok:
  assumes "kv_ok hash m held s" and "pullable cfg m held s" and "slab_contract chunk"
  shows "\<exists>s' r. do_item_alloc_pull cfg now hash busy chunk cls s = Some (Inr (s', r)) \<and> (\<exists>s1 st. pulled hash m held s s1 r \<and> s' = s1\<lparr>itemstats := st\<rparr>)"
proof -
  obtain s1 j r where s1: "alloc_pull_loop cfg now hash busy chunk cls 0 s = Some (Inr (s1, j, r))" "pulled hash m held s s1 r"
    using alloc_pull_loop_ok [OF shrunk_refl [OF assms(1)] assms(2,3)] by blast
  have "\<exists>st. (if j > 0 then set_stats cls f s1 else s1) = s1\<lparr>itemstats := st\<rparr>" for f
    by (cases "j > 0") (auto simp: set_stats_def intro: exI [of _ "itemstats s1"])
  then show ?thesis using s1 by (auto simp: do_item_alloc_pull_def simp del: kv.update_convs)
qed

lemma kv_ok_itemstats [simp]: "kv_ok hash m held (s\<lparr>itemstats := st\<rparr>) = kv_ok hash m held s" "bump_refs (s\<lparr>itemstats := st\<rparr>) = bump_refs s"
proof -
  show b: "bump_refs (s\<lparr>itemstats := st\<rparr>) = bump_refs s" by (rule bump_refs_cong) simp
  show "kv_ok hash m held (s\<lparr>itemstats := st\<rparr>) = kv_ok hash m held s"
    by (simp add: kv_ok_def b) (simp add: kv_inv_def counts_ok_def)
qed

lemma pulled_alloced:
  assumes p: "pulled hash m held s s1 (Some a)"
    and f: "\<And>it. it_flags it = 0 \<Longrightarrow> refcount (f it) = refcount it \<and> \<not> has_flag (f it) ITEM_LINKED \<and> \<not> has_flag (f it) ITEM_SLABBED
      \<and> mac (f it) = mac it \<and> mt_index (f it) = mt_index it \<and> idata (f it) = idata it"
  shows "alloced hash m held s (set_item a f (s1\<lparr>itemstats := st\<rparr>)) (Some a)" and "it_flags (items s1 a) = 0"
proof -
  obtain m' s0 where r: "m' \<subseteq>\<^sub>m m" "kv_ok hash m' held s0" "only_recency s s0" "bump_refs s0 = bump_refs s"
    "it_flags (items s0 a) = ITEM_SLABBED" "s1 = slabs_hand_out a s0" using p by (auto simp: pulled_def shrunk_def)
  let ?it = "(items s0 a)\<lparr>it_flags := 0, refcount := 1\<rparr>"
  have i1: "items s1 a = ?it" using r(5,6) by (simp add: slabs_hand_out_def)
  then show "it_flags (items s1 a) = 0" by simp
  have fi: "refcount (f ?it) = 1" "\<not> has_flag (f ?it) ITEM_LINKED" "\<not> has_flag (f ?it) ITEM_SLABBED"
    "mac (f ?it) = mac (items s0 a)" "mt_index (f ?it) = mt_index (items s0 a)" "idata (f ?it) = idata (items s0 a)"
    using f [of ?it] by auto
  have s': "set_item a f (s1\<lparr>itemstats := st\<rparr>) = (s0\<lparr>items := (items s0)(a := f ?it), slab_freed := removeAll a (slab_freed s0)\<rparr>)\<lparr>itemstats := st\<rparr>"
    using r(5,6) by (simp add: set_item_def slabs_hand_out_def)
  have con: "content (items s0 x) = content (items s x)" for x using r(3) by (simp add: only_recency_def same_content_def)
  note fr = kv_ok_slabbed [OF r(2,5)]
  have b: "bump_refs (set_item a f (s1\<lparr>itemstats := st\<rparr>)) = bump_refs s"
    unfolding s' kv_ok_itemstats r(4) [symmetric] by (rule bump_refs_cong) simp
  have k: "kv_ok hash m' (held(a := 1)) (set_item a f (s1\<lparr>itemstats := st\<rparr>))"
    unfolding s' kv_ok_itemstats using kv_ok_fresh [OF r(2,5) fi(1-3)] .
  show "alloced hash m held s (set_item a f (s1\<lparr>itemstats := st\<rparr>)) (Some a)"
    unfolding alloced_def using r(1) b k fr fi con [of a] con r(3,4)
    by (intro exI [of _ m']) (simp add: s' only_recency_def content_def)
qed

lemma set_item_set_item: "set_item a g (set_item a f s) = set_item a (\<lambda>it. g (f it)) s"
  by (simp add: set_item_def)

lemma do_item_alloc_ok:
  assumes ok: "kv_ok hash m held s" and "pullable cfg m held s" and "slab_contract chunk"
  shows "\<exists>s' r. do_item_alloc cfg now hash busy chunk clsid key fl exp nb s = Some (Inr (s', r)) \<and> alloced hash m held s s' r
     \<and> (\<forall>a. r = Some a \<longrightarrow> ikey (items s' a) = key \<and> nbytes (items s' a) = nb \<and> exptime (items s' a) = exp
          \<and> has_flag (items s' a) ITEM_CHUNKED = (item_total cfg (length key) fl nb > slab_chunk_size_max cfg))"
proof (cases "nb < 2 \<or> clsid (item_total cfg (length key) fl nb) = 0")
  case True
  have "alloced hash m held s s None" using ok unfolding alloced_def by (intro exI [of _ m]) simp
  then show ?thesis using True by (auto simp: do_item_alloc_def Let_def)
next
  case False
  let ?cls = "clsid (item_total cfg (length key) fl nb)"
  let ?mark = "\<lambda>it. if item_total cfg (length key) fl nb > slab_chunk_size_max cfg then it\<lparr>it_flags := it_flags it OR ITEM_CHUNKED\<rparr> else it"
  obtain s1 r s0 st where s1: "do_item_alloc_pull cfg now hash busy chunk (alloc_class cfg clsid (length key) fl nb) s = Some (Inr (s1, r))"
    "pulled hash m held s s0 r" "s1 = s0\<lparr>itemstats := st\<rparr>" using do_item_alloc_pull_ok [OF assms] by blast
  show ?thesis
  proof (cases r)
    case None
    then have "alloced hash m held s s1 None" using s1(2,3) by (auto simp: pulled_def shrunk_def alloced_def only_recency_def)
    then show ?thesis using False s1(1) None by (simp add: do_item_alloc_def Let_def)
  next
    case (Some a)
    let ?f = "\<lambda>it. item_init cfg now ?cls key fl exp nb (?mark it)"
    have f: "refcount (?f it) = refcount it \<and> \<not> has_flag (?f it) ITEM_LINKED \<and> \<not> has_flag (?f it) ITEM_SLABBED
      \<and> mac (?f it) = mac it \<and> mt_index (?f it) = mt_index it \<and> idata (?f it) = idata it" if "it_flags it = 0" for it
      using that by (simp add: item_init_def Let_def has_flag_bit bit_simps)
    note al = pulled_alloced(1) [OF s1(2) [unfolded Some] f, of st] pulled_alloced(2) [OF s1(2) [unfolded Some] f]
    have fl: "it_flags (items (set_item a ?mark s1) a) = 0 \<or> it_flags (items (set_item a ?mark s1) a) = ITEM_CHUNKED"
      using al(2) s1(3) by auto
    have "do_item_alloc cfg now hash busy chunk clsid key fl exp nb s
        = Some (Inr (set_item a (item_init cfg now ?cls key fl exp nb) (set_item a ?mark s1), Some a))"
      using False s1(1) Some fl unfolding do_item_alloc_def Let_def by simp
    moreover have "alloced hash m held s (set_item a (item_init cfg now ?cls key fl exp nb) (set_item a ?mark s1)) (Some a)"
      using al(1) s1(3) by (simp add: set_item_set_item)
    ultimately show ?thesis using al(2) s1(3) by (simp add: item_init_def Let_def has_flag_bit bit_simps)
  qed
qed

section \<open>The maintainer\<close>

text \<open>Deferred moves: every entry holds a reference, which is released after the move.\<close>

fun bumps_loop :: "kv_settings \<Rightarrow> u32 \<Rightarrow> (addr \<times> u32) list \<Rightarrow> kv \<Rightarrow> kv res" where
  "bumps_loop cfg now [] s = Inr s"
| "bumps_loop cfg now (be # bes) s =
     bindE (do_item_update cfg now (fst be) s) (\<lambda>s. bindE (do_item_remove (fst be) s) (bumps_loop cfg now bes))"

definition lru_maintainer_bumps :: "kv_settings \<Rightarrow> u32 \<Rightarrow> kv \<Rightarrow> (kv \<times> bool) res" where
  "lru_maintainer_bumps cfg now s =
     (let bes = bump_queue s in
      if bes = [] then Inr (s, False)
      else bindE (bumps_loop cfg now bes s) (\<lambda>s. Inr (s\<lparr>bump_queue := drop (length bes) (bump_queue s)\<rparr>, True)))"

text \<open>
  One call for a class: expired items of the temporary queue first, then up to 500 rounds over the others. The ages allowed
  in the hot and the warm queue are multiples of the age of the cold one; the floating-point products are the arguments
  \<open>hot_age\<close> and \<open>warm_age\<close>.
\<close>

function temp_loop ::
    "kv_settings \<Rightarrow> u32 \<Rightarrow> (byte list \<Rightarrow> u32) \<Rightarrow> (u32 \<Rightarrow> bool) \<Rightarrow> byte \<Rightarrow> nat \<Rightarrow> kv \<times> nat \<Rightarrow> (kv \<times> nat) res option" where
  "temp_loop cfg now hash busy cls i st =
     (if \<not> i < 500 then Some (Inr st)
      else bindO (lru_pull_tail cfg now hash busy (pull_from cls TEMP_LRU 0) (fst st)) (\<lambda>(s, n, _).
        if n \<le> 0 then Some (Inr (s, snd st)) else temp_loop cfg now hash busy cls (i + 1) (s, snd st + 1)))"
  by pat_completeness auto
termination
  by (relation "measure (\<lambda>(cfg, now, hash, busy, cls, i, st). 500 - i)") auto

declare temp_loop.simps [simp del]

definition cold_age :: "u32 \<Rightarrow> byte \<Rightarrow> kv \<Rightarrow> u32" where
  "cold_age now cls s = (case tails s (cls OR COLD_LRU) of None \<Rightarrow> 0 | Some a \<Rightarrow> now - it_time (items s a))"

definition juggle_round ::
    "kv_settings \<Rightarrow> u32 \<Rightarrow> (byte list \<Rightarrow> u32) \<Rightarrow> (u32 \<Rightarrow> bool) \<Rightarrow> byte \<Rightarrow> u64 \<Rightarrow> u32 \<Rightarrow> u32 \<Rightarrow> kv \<Rightarrow> (kv \<times> int) res option" where
  "juggle_round cfg now hash busy cls total_b hot_a warm_a s =
     (let from = (\<lambda>lru age. \<lparr>pl_orig_id = cls, pl_cur_lru = lru, pl_total_bytes = total_b, pl_flags = LRU_PULL_CRAWL_BLOCKS, pl_max_age = age\<rparr>) in
      bindO (lru_pull_tail cfg now hash busy (from HOT_LRU hot_a) s) (\<lambda>(s, n, _).
      bindO (if n \<noteq> 0 then Some (Inr (s, 1))
             else bindO (lru_pull_tail cfg now hash busy (from WARM_LRU warm_a) s) (\<lambda>(s, n, _). Some (Inr (s, if n \<noteq> 0 then 1 else 0)))) (\<lambda>(s, do_more).
      if lru_segmented cfg then
        bindO (lru_pull_tail cfg now hash busy (from COLD_LRU 0) s) (\<lambda>(s, n, _). Some (Inr (s, do_more + n)))
      else Some (Inr (s, do_more)))))"

function juggle_loop ::
    "kv_settings \<Rightarrow> u32 \<Rightarrow> (byte list \<Rightarrow> u32) \<Rightarrow> (u32 \<Rightarrow> bool) \<Rightarrow> byte \<Rightarrow> u64 \<Rightarrow> u32 \<Rightarrow> u32 \<Rightarrow> nat \<Rightarrow> kv \<times> nat \<Rightarrow> (kv \<times> nat) res option" where
  "juggle_loop cfg now hash busy cls total_b hot_a warm_a i st =
     (if \<not> i < 500 then Some (Inr st)
      else bindO (juggle_round cfg now hash busy cls total_b hot_a warm_a (fst st)) (\<lambda>(s, do_more).
        if do_more = 0 then Some (Inr (s, snd st))
        else juggle_loop cfg now hash busy cls total_b hot_a warm_a (i + 1) (s, snd st + 1)))"
  by pat_completeness auto
termination
  by (relation "measure (\<lambda>(cfg, now, hash, busy, cls, total_b, hot_a, warm_a, i, st). 500 - i)") auto

declare juggle_loop.simps [simp del]

definition lru_maintainer_juggle ::
    "kv_settings \<Rightarrow> u32 \<Rightarrow> (byte list \<Rightarrow> u32) \<Rightarrow> (u32 \<Rightarrow> bool) \<Rightarrow> (u32 \<Rightarrow> u32) \<Rightarrow> (u32 \<Rightarrow> u32) \<Rightarrow> byte \<Rightarrow> kv \<Rightarrow> (kv \<times> nat) res option" where
  "lru_maintainer_juggle cfg now hash busy hot_age warm_age cls s =
     bindO (if temp_lru cfg then temp_loop cfg now hash busy cls 0 (s, 0) else Some (Inr (s, 0))) (\<lambda>(s, did_moves).
       let age = (if lru_segmented cfg then cold_age now cls s else 0);
           total_b = (if lru_segmented cfg then sizes_bytes s (cls OR COLD_LRU) + sizes_bytes s (cls OR HOT_LRU) + sizes_bytes s (cls OR WARM_LRU) else 0)
       in juggle_loop cfg now hash busy cls total_b (if lru_segmented cfg then hot_age age else 0)
            (if lru_segmented cfg then warm_age age else 0) 0 (s, did_moves))"

lemma bumps_loop_inv:
  assumes "kv_inv hash m q (\<lambda>a. held a + count_list (map fst bes) a) s"
  shows "\<exists>s' q'. bumps_loop cfg now bes s = Inr s' \<and> kv_inv hash m q' held s' \<and> only_recency s s' \<and> bump_queue s' = bump_queue s"
  using assms
proof (induction bes arbitrary: q s)
  case (Cons be bes)
  let ?a = "fst be" and ?h = "\<lambda>a. held a + count_list (map fst (be # bes)) a"
  obtain s1 where s1: "do_item_update cfg now ?a s = Inr s1" "only_lru hash m ?h s s1"
    using do_item_update_inv [OF Cons.prems, of ?a cfg now] by auto
  then obtain q1 where q1: "kv_inv hash m q1 ?h s1" by (auto simp: only_lru_def)
  have h: "?h(?a := ?h ?a - 1) = (\<lambda>a. held a + count_list (map fst bes) a)" by auto
  obtain s2 where s2: "do_item_remove ?a s1 = Inr s2" "kv_inv hash m q1 (\<lambda>a. held a + count_list (map fst bes) a) s2" "only_recency s1 s2"
    "bump_queue s2 = bump_queue s1"
    using do_item_remove_inv [OF q1, of ?a] unfolding h only_recency_def by auto
  obtain s3 q3 where s3: "bumps_loop cfg now bes s2 = Inr s3" "kv_inv hash m q3 held s3" "only_recency s2 s3" "bump_queue s3 = bump_queue s2"
    using Cons.IH [OF s2(2)] by blast
  have "only_recency s s1" "bump_queue s1 = bump_queue s" using s1(2) by (auto simp: only_lru_def only_recency_def)
  then show ?case using s1(1) s2 s3 by (auto intro: only_recency_trans)
qed auto

lemma lru_maintainer_bumps_ok:
  assumes "kv_ok hash m held s"
  shows "\<exists>s' b. lru_maintainer_bumps cfg now s = Inr (s', b) \<and> kv_ok hash m held s' \<and> only_recency s s' \<and> bump_queue s' = []"
proof (cases "bump_queue s = []")
  case True
  then show ?thesis using assms by (auto simp: lru_maintainer_bumps_def)
next
  case False
  obtain q where "kv_inv hash m q (\<lambda>a. held a + count_list (map fst (bump_queue s)) a) s" using assms by (auto simp: kv_ok_def bump_refs_def)
  from bumps_loop_inv [OF this, of cfg now] obtain s1 q1 where s1: "bumps_loop cfg now (bump_queue s) s = Inr s1" "kv_inv hash m q1 held s1"
    "only_recency s s1" "bump_queue s1 = bump_queue s" by blast
  have "kv_ok hash m held (s1\<lparr>bump_queue := []\<rparr>)"
    using s1(2) by (auto simp: kv_ok_def bump_refs_def kv_inv_def counts_ok_def)
  then show ?thesis using False s1 by (auto simp: lru_maintainer_bumps_def Let_def only_recency_def)
qed

lemma temp_loop_ok:
  assumes "shrunk hash m held s m1 s1" and "pullable cfg m held s"
  shows "\<exists>s' k m'. temp_loop cfg now hash busy cls i (s1, n) = Some (Inr (s', k)) \<and> shrunk hash m held s m' s'"
  using assms(1)
proof (induction "500 - i" arbitrary: i m1 s1 n rule: less_induct)
  case less
  obtain s2 n2 r2 m2 where s2: "lru_pull_tail cfg now hash busy (pull_from cls TEMP_LRU 0) s1 = Some (Inr (s2, n2, r2))" "shrunk hash m held s m2 s2"
    using lru_pull_tail_shrunk [OF less.prems assms(2), of "pull_from cls TEMP_LRU 0" now busy] by (auto simp: is_lru_def pull_from_def pull_has_def)
  show ?case
    using less.hyps [of "i + 1" m2 s2 "n + 1"] s2 less.prems by (cases "i < 500") (auto simp: temp_loop.simps [of cfg now hash busy cls i])
qed

lemma juggle_round_ok:
  assumes sh: "shrunk hash m held s m1 s1" and ok: "pullable cfg m held s"
  shows "\<exists>s' k m'. juggle_round cfg now hash busy cls tot hot_a warm_a s1 = Some (Inr (s', k)) \<and> shrunk hash m held s m' s'"
proof -
  let ?from = "\<lambda>lru age. \<lparr>pl_orig_id = cls, pl_cur_lru = lru, pl_total_bytes = tot, pl_flags = LRU_PULL_CRAWL_BLOCKS, pl_max_age = age\<rparr>"
  have pull: "\<exists>s' n r m'. lru_pull_tail cfg now hash busy (?from lru age) s2 = Some (Inr (s', n, r)) \<and> shrunk hash m held s m' s'"
    if "shrunk hash m held s m2 s2" "is_lru lru" for s2 m2 lru age
    using lru_pull_tail_shrunk [OF that(1) ok] that(2) by (simp add: pull_has_def LRU_PULL_CRAWL_BLOCKS_def LRU_PULL_RETURN_ITEM_def)
  have lru: "is_lru HOT_LRU" "is_lru WARM_LRU" "is_lru COLD_LRU" by (simp_all add: is_lru_def)
  obtain s2 n2 r2 m2 where s2: "lru_pull_tail cfg now hash busy (?from HOT_LRU hot_a) s1 = Some (Inr (s2, n2, r2))" "shrunk hash m held s m2 s2"
    using pull [OF sh lru(1)] by blast
  obtain s3 k3 m3 where s3: "(if n2 \<noteq> 0 then Some (Inr (s2, 1)) else bindO (lru_pull_tail cfg now hash busy (?from WARM_LRU warm_a) s2)
      (\<lambda>(s, n, _). Some (Inr (s, if n \<noteq> 0 then 1 else 0)))) = Some (Inr (s3, k3 :: int))" "shrunk hash m held s m3 s3"
    using pull [OF s2(2) lru(2), of warm_a] s2(2) by (cases "n2 = 0") auto
  show ?thesis using pull [OF s3(2) lru(3), of 0] s2(1) s3 unfolding juggle_round_def Let_def by (cases "lru_segmented cfg") auto
qed

lemma juggle_loop_ok:
  assumes "shrunk hash m held s m1 s1" and "pullable cfg m held s"
  shows "\<exists>s' k m'. juggle_loop cfg now hash busy cls tot hot_a warm_a i (s1, n) = Some (Inr (s', k)) \<and> shrunk hash m held s m' s'"
  using assms(1)
proof (induction "500 - i" arbitrary: i m1 s1 n rule: less_induct)
  case less
  obtain s2 k2 m2 where s2: "juggle_round cfg now hash busy cls tot hot_a warm_a s1 = Some (Inr (s2, k2))" "shrunk hash m held s m2 s2"
    using juggle_round_ok [OF less.prems assms(2)] by blast
  show ?case
    using less.hyps [of "i + 1" m2 s2 "n + 1"] s2 less.prems
    by (cases "i < 500") (auto simp: juggle_loop.simps [of cfg now hash busy cls tot hot_a warm_a i])
qed

lemma lru_maintainer_juggle_ok:
  assumes "kv_ok hash m held s" and "pullable cfg m held s"
  shows "\<exists>s' k m'. lru_maintainer_juggle cfg now hash busy hot_age warm_age cls s = Some (Inr (s', k)) \<and> shrunk hash m held s m' s'"
proof -
  obtain s1 k1 m1 where "(if temp_lru cfg then temp_loop cfg now hash busy cls 0 (s, 0) else Some (Inr (s, 0))) = Some (Inr (s1, k1))"
    "shrunk hash m held s m1 s1"
    using temp_loop_ok [OF shrunk_refl [OF assms(1)] assms(2), of now busy cls 0 0] shrunk_refl [OF assms(1)] by (cases "temp_lru cfg") auto
  then show ?thesis using juggle_loop_ok [OF _ assms(2)] unfolding lru_maintainer_juggle_def Let_def by auto
qed

end
