(* ===== verification/Kvs_Requests.thy ===== *)
theory Kvs_Requests
  imports Mc_Lru Merkle Aes_Cmac
begin

text \<open>
  The requests of a client, from \<^verbatim>\<open>src/memcached/proto_text.c\<close>, \<^verbatim>\<open>src/memcached/memcached.c\<close> and \<^verbatim>\<open>src/memcached/thread.c\<close>:
  storing an item with its authentication code and its leaf in the Merkle tree, reading it with the check against
  the tree, deleting and touching it, and the start of the server. Requests are taken after the command line has been split into tokens and the numbers
  have been parsed; a reply is a value instead of text. \<open>idata\<close> is the value of an item, in the item or, when it is large, in its chain of
  chunks. The build has the integrity layer enabled and is without external storage.
\<close>

section \<open>The code\<close>

datatype nread = NREAD_ADD | NREAD_SET | NREAD_REPLACE | NREAD_APPEND | NREAD_PREPEND | NREAD_CAS

datatype store_item_type = NOT_STORED | STORED | EXISTS | NOT_FOUND | TOO_LARGE | NO_MEMORY

datatype cas_result = CAS_NONE | CAS_MATCH | CAS_BADVAL | CAS_STALE | CAS_MISS

record thread_stats =
  set_cmds :: "byte \<Rightarrow> u64"
  cas_hits :: "byte \<Rightarrow> u64"
  cas_badval :: "byte \<Rightarrow> u64"
  cas_misses :: u64
  get_cmds :: u64
  get_misses :: u64
  lru_hits :: "byte \<Rightarrow> u64"
  touch_cmds :: u64
  touch_hits :: "byte \<Rightarrow> u64"
  touch_misses :: u64
  delete_hits :: "byte \<Rightarrow> u64"
  delete_misses :: u64

record server =
  cache :: kv
  merkle :: "mt_t option"
  tstats :: thread_stats
  tree_add_failures :: nat
  tree_verify_failures :: nat

text \<open>
  What a request runs in: the settings, the clock, the hash function, the locks held by others, the slab allocator and its classes, whether the buffer of
  deferred moves takes an entry, whether the tree gets memory, and the copy of a large value from chunk to chunk, which
  may fail.
\<close>

record env =
  e_cfg :: kv_settings
  e_now :: u32
  e_hash :: "byte list \<Rightarrow> u32"
  e_busy :: "u32 \<Rightarrow> bool"
  e_chunk :: allocator
  e_clsid :: "u64 \<Rightarrow> byte"
  e_room :: bool
  e_tree_mem :: "nat \<Rightarrow> bool"
  e_copy_chunks :: "byte list \<Rightarrow> bool"

definition lift_kv :: "server \<Rightarrow> kv res option \<Rightarrow> server res option" where
  "lift_kv s r = bindO r (\<lambda>k. Some (Inr (s\<lparr>cache := k\<rparr>)))"

definition item_remove :: "addr \<Rightarrow> server \<Rightarrow> server res option" where
  "item_remove a s = lift_kv s (Some (do_item_remove a (cache s)))"

definition item_get :: "env \<Rightarrow> byte list \<Rightarrow> bool \<Rightarrow> server \<Rightarrow> (server \<times> addr option) res option" where
  "item_get e key do_update s =
     bindO (do_item_get (e_cfg e) (e_now e) (e_room e) key (e_hash e key) do_update (cache s)) (\<lambda>(k, r). Some (Inr (s\<lparr>cache := k\<rparr>, r)))"

definition item_touch :: "env \<Rightarrow> byte list \<Rightarrow> u32 \<Rightarrow> server \<Rightarrow> (server \<times> addr option) res option" where
  "item_touch e key exp s =
     bindO (do_item_touch (e_cfg e) (e_now e) (e_room e) key exp (e_hash e key) (cache s)) (\<lambda>(k, r). Some (Inr (s\<lparr>cache := k\<rparr>, r)))"

definition item_unlink :: "env \<Rightarrow> addr \<Rightarrow> server \<Rightarrow> server res option" where
  "item_unlink e a s = lift_kv s (do_item_unlink a (e_hash e (ikey (items (cache s) a))) (cache s))"

definition item_alloc :: "env \<Rightarrow> byte list \<Rightarrow> u32 \<Rightarrow> u32 \<Rightarrow> int \<Rightarrow> server \<Rightarrow> (server \<times> addr option) res option" where
  "item_alloc e key fl exp nb s =
     bindO (do_item_alloc (e_cfg e) (e_now e) (e_hash e) (e_busy e) (e_chunk e) (e_clsid e) key fl exp nb (cache s))
       (\<lambda>(k, r). Some (Inr (s\<lparr>cache := k\<rparr>, r)))"

definition IT_REFCOUNT_LIMIT :: u16 where "IT_REFCOUNT_LIMIT = 60000"

definition limited_get :: "env \<Rightarrow> byte list \<Rightarrow> u32 \<Rightarrow> bool \<Rightarrow> bool \<Rightarrow> server \<Rightarrow> (server \<times> addr option \<times> bool) res option" where
  "limited_get e key exp should_touch do_update s =
     bindO (if should_touch then item_touch e key exp s else item_get e key do_update s) (\<lambda>(s, it). case it of
       Some a \<Rightarrow> if refcount (items (cache s) a) > IT_REFCOUNT_LIMIT then bindO (item_remove a s) (\<lambda>s. Some (Inr (s, None, True)))
                 else Some (Inr (s, Some a, False))
     | None \<Rightarrow> Some (Inr (s, None, False)))"

text \<open>Storing an item.\<close>

definition store_cas :: "bool \<Rightarrow> item \<Rightarrow> item \<Rightarrow> cas_result" where
  "store_cas set_stale it old_it =
     (let it_cas = ITEM_get_cas it; old_cas = ITEM_get_cas old_it in
      if it_cas = 0 then CAS_NONE
      else if it_cas = old_cas then CAS_MATCH
      else if set_stale \<and> it_cas < old_cas then CAS_STALE
      else CAS_BADVAL)"

definition FLAGS_CONV :: "item \<Rightarrow> u32" where
  "FLAGS_CONV it = (if has_flag it ITEM_CFLAGS then client_flags it else 0)"

definition store_item_copy_data :: "env \<Rightarrow> nread \<Rightarrow> item \<Rightarrow> item \<Rightarrow> item \<Rightarrow> byte list option res" where
  "store_item_copy_data e comm old_it new_it add_it =
     (let (front, back) = (if comm = NREAD_APPEND then (old_it, add_it) else (add_it, old_it)) in
      bindE (arr_read (idata front) 0 (nat (nbytes front))) (\<lambda>f.
      bindE (arr_read (idata back) 0 (nat (nbytes back))) (\<lambda>b.
        let joined = take (nat (nbytes front) - 2) f @ b in
        Inr (if has_flag new_it ITEM_CHUNKED \<and> \<not> e_copy_chunks e joined then None else Some joined))))"

text \<open>
  What is decided about a key that has an item: to store an item (the given one or a new one that joins two values), or not.
  The third component is the new item, which the caller releases.
\<close>

definition store_join :: "env \<Rightarrow> nread \<Rightarrow> addr \<Rightarrow> addr \<Rightarrow> kv \<Rightarrow> (kv \<times> addr option \<times> addr option) res option" where
  "store_join e comm a old k =
     (let it = items k a; old_it = items k old in
      bindO (do_item_alloc (e_cfg e) (e_now e) (e_hash e) (e_busy e) (e_chunk e) (e_clsid e) (ikey it) (FLAGS_CONV old_it) (exptime old_it)
               (nbytes it + nbytes old_it - 2) k) (\<lambda>(k, new_it). case new_it of
        None \<Rightarrow> Some (Inr (k, None, None))
      | Some b \<Rightarrow> Some (bindE (store_item_copy_data e comm (items k old) (items k b) (items k a)) (\<lambda>copied. case copied of
          None \<Rightarrow> Inr (k, None, Some b)
        | Some joined \<Rightarrow> Inr (set_item b (\<lambda>it. it\<lparr>idata := joined\<rparr>) k, Some b, Some b)))))"

definition set_tstats :: "(thread_stats \<Rightarrow> thread_stats) \<Rightarrow> server \<Rightarrow> server" where
  "set_tstats f s = s\<lparr>tstats := f (tstats s)\<rparr>"

definition mark_stale :: "addr \<Rightarrow> addr \<Rightarrow> kv \<Rightarrow> kv" where
  "mark_stale a old k =
     set_item a (\<lambda>it. it\<lparr>exptime := exptime (items k old),
       it_flags := it_flags it OR ITEM_STALE OR (if has_flag (items k old) ITEM_TOKEN_SENT then ITEM_TOKEN_SENT else 0)\<rparr>) k"

definition store_existing ::
    "env \<Rightarrow> nread \<Rightarrow> bool \<Rightarrow> addr \<Rightarrow> addr \<Rightarrow> server \<Rightarrow> (server \<times> addr option \<times> addr option \<times> store_item_type) res option" where
  "store_existing e comm set_stale a old s =
     (let k = cache s; cas_res = store_cas set_stale (items k a) (items k old); c = ITEM_clsid (items k old);
          hit = set_tstats (\<lambda>t. t\<lparr>cas_hits := (cas_hits t)(c := cas_hits t c + 1)\<rparr>)
      in case comm of
        NREAD_ADD \<Rightarrow> bindO (lift_kv s (Some (do_item_update (e_cfg e) (e_now e) old k))) (\<lambda>s. Some (Inr (s, None, None, NOT_STORED)))
      | NREAD_CAS \<Rightarrow>
          if cas_res = CAS_MATCH then Some (Inr (hit s, Some a, None, NOT_STORED))
          else if cas_res = CAS_STALE then Some (Inr (hit (s\<lparr>cache := mark_stale a old k\<rparr>), Some a, None, NOT_STORED))
          else Some (Inr (set_tstats (\<lambda>t. t\<lparr>cas_badval := (cas_badval t)(c := cas_badval t c + 1)\<rparr>) s, None, None, EXISTS))
      | NREAD_SET \<Rightarrow> Some (Inr (s, Some a, None, NOT_STORED))
      | NREAD_REPLACE \<Rightarrow> Some (Inr (s, Some a, None, NOT_STORED))
      | _ \<Rightarrow> if cas_res \<noteq> CAS_NONE \<and> cas_res \<noteq> CAS_MATCH then Some (Inr (s, None, None, EXISTS))
             else bindO (store_join e comm a old k) (\<lambda>(k, stored, new_it). Some (Inr (s\<lparr>cache := k\<rparr>, stored, new_it, NOT_STORED))))"

definition do_store_item :: "env \<Rightarrow> nread \<Rightarrow> bool \<Rightarrow> addr \<Rightarrow> u32 \<Rightarrow> server \<Rightarrow> (server \<times> store_item_type) res option" where
  "do_store_item e comm set_stale a hv s =
     bindO (do_item_get (e_cfg e) (e_now e) (e_room e) (ikey (items (cache s) a)) hv False (cache s)) (\<lambda>(k, old_it).
     let s = s\<lparr>cache := k\<rparr> in
     case old_it of
       Some old \<Rightarrow>
         bindO (store_existing e comm set_stale a old s) (\<lambda>(s, to_store, new_it, stored).
         bindO (case to_store of
             None \<Rightarrow> Some (Inr (s, stored))
           | Some b \<Rightarrow> bindO (lift_kv s (do_item_replace (e_cfg e) (e_now e) old b hv (cache s))) (\<lambda>s. Some (Inr (s, STORED)))) (\<lambda>(s, stored).
         bindO (item_remove old s) (\<lambda>s.
         bindO (case new_it of None \<Rightarrow> Some (Inr s) | Some b \<Rightarrow> item_remove b s) (\<lambda>s. Some (Inr (s, stored))))))
     | None \<Rightarrow>
         if comm = NREAD_ADD \<or> comm = NREAD_SET then
           bindO (lift_kv s (Some (do_item_link (e_cfg e) (e_now e) a hv (cache s)))) (\<lambda>s. Some (Inr (s, STORED)))
         else if comm = NREAD_CAS then Some (Inr (set_tstats (\<lambda>t. t\<lparr>cas_misses := cas_misses t + 1\<rparr>) s, NOT_FOUND))
         else Some (Inr (s, NOT_STORED)))"

definition store_item :: "env \<Rightarrow> nread \<Rightarrow> bool \<Rightarrow> addr \<Rightarrow> server \<Rightarrow> (server \<times> store_item_type) res option" where
  "store_item e comm set_stale a s = do_store_item e comm set_stale a (e_hash e (ikey (items (cache s) a))) s"

text \<open>The integrity layer: the authentication code of the value, its leaf, and the index of the leaf.\<close>

definition cmac_key :: "byte list" where
  "cmac_key = [0x2b, 0x7e, 0x15, 0x16, 0x28, 0xae, 0xd2, 0xa6, 0xab, 0xf7, 0x15, 0x88, 0x09, 0xcf, 0x4f, 0x3c]"

text \<open>
  The code is computed over \<^verbatim>\<open>nbytes\<close> bytes from \<^verbatim>\<open>ITEM_data\<close> on. For a large item that is memory behind its header, not the value.
\<close>

definition authenticate :: "bool \<Rightarrow> addr \<Rightarrow> kv \<Rightarrow> kv res" where
  "authenticate chunked a k =
     (let it = items k a in
      if chunked then Inl OutOfBounds
      else bindE (AES_CMAC cmac_key (idata it) (nbytes it)) (\<lambda>T. Inr (set_item a (\<lambda>it. it\<lparr>mac := T @ drop 16 (mac it)\<rparr>) k)))"

definition add_leaf :: "env \<Rightarrow> addr \<Rightarrow> server \<Rightarrow> server res" where
  "add_leaf e a s =
     bindE (mt_add (e_tree_mem e) (merkle s) (Some (mac (items (cache s) a))) 16) (\<lambda>(r, t).
       let s = s\<lparr>merkle := t, tree_add_failures := tree_add_failures s + (if r \<noteq> MT_SUCCESS then 1 else 0)\<rparr>
       in Inr (s\<lparr>cache := set_item a (\<lambda>it. it\<lparr>mt_index := ucast (total_items (cache s)) - 1\<rparr>) (cache s)\<rparr>))"

text \<open>
  The answers. The last component of a value is the result of the check against the tree, which the client does not get.
\<close>

datatype reply = BadDataChunk | Stored store_item_type | BadCommand | Value "byte list" u32 u64 "byte list" mt_error | Miss | Deleted | NotFound | Touched

definition complete_nread_ascii :: "env \<Rightarrow> nread \<Rightarrow> bool \<Rightarrow> addr \<Rightarrow> server \<Rightarrow> (server \<times> reply) res option" where
  "complete_nread_ascii e comm set_stale a s =
     (let it = items (cache s) a; c = ITEM_clsid it; chunked = has_flag it ITEM_CHUNKED;
          s = set_tstats (\<lambda>t. t\<lparr>set_cmds := (set_cmds t)(c := set_cmds t c + 1)\<rparr>) s
      in case arr_read (idata it) (nbytes it - 2) 2 of
        Inl err \<Rightarrow> Some (Inl err)
      | Inr last2 \<Rightarrow>
          if last2 \<noteq> [13, 10] then
            (if chunked then Some (Inl AssertFail) else bindO (item_remove a s) (\<lambda>s. Some (Inr (s, BadDataChunk))))
          else bindO (store_item e comm set_stale a s) (\<lambda>(s, ret).
            case authenticate chunked a (cache s) of
              Inl err \<Rightarrow> Some (Inl err)
            | Inr k \<Rightarrow> (case add_leaf e a (s\<lparr>cache := k\<rparr>) of
                Inl err \<Rightarrow> Some (Inl err)
              | Inr s \<Rightarrow> bindO (item_remove a s) (\<lambda>s. Some (Inr (s, Stored ret))))))"

definition KEY_MAX_LENGTH :: nat where "KEY_MAX_LENGTH = 250"

text \<open>A storage command with its data block: \<open>vlen\<close> is the length that the client announced, \<open>block\<close> the bytes that followed.\<close>

definition process_update_command ::
    "env \<Rightarrow> nread \<Rightarrow> byte list \<Rightarrow> u32 \<Rightarrow> u32 \<Rightarrow> int \<Rightarrow> u64 \<Rightarrow> byte list \<Rightarrow> server \<Rightarrow> (server \<times> reply) res option" where
  "process_update_command e comm key fl exp vlen req_cas block s =
     (if length key > KEY_MAX_LENGTH then Some (Inr (s, BadCommand))
      else if vlen < 0 \<or> vlen > INT_MAX - 2 then Some (Inr (s, BadCommand))
      else bindO (item_alloc e key fl exp (vlen + 2) s) (\<lambda>(s, it). case it of
        None \<Rightarrow>
          let status = (if item_size_ok (e_cfg e) (e_clsid e) (length key) fl (vlen + 2) then NO_MEMORY else TOO_LARGE) in
          if comm = NREAD_SET then
            bindO (item_get e key False s) (\<lambda>(s, it). case it of
              None \<Rightarrow> Some (Inr (s, Stored status))
            | Some a \<Rightarrow> bindO (item_unlink e a s) (\<lambda>s. bindO (item_remove a s) (\<lambda>s. Some (Inr (s, Stored status)))))
          else Some (Inr (s, Stored status))
      | Some a \<Rightarrow>
          complete_nread_ascii e comm False a
            (s\<lparr>cache := set_item a (\<lambda>it. (ITEM_set_cas req_cas it)\<lparr>idata := block\<rparr>) (cache s)\<rparr>)))"

text \<open>One key of a get command. The check of the tree is reported on the standard error stream only.\<close>

definition process_get_command :: "env \<Rightarrow> byte list \<Rightarrow> u32 \<Rightarrow> bool \<Rightarrow> server \<Rightarrow> (server \<times> reply) res option" where
  "process_get_command e key exp should_touch s =
     (if length key > KEY_MAX_LENGTH then Some (Inr (s, BadCommand))
      else bindO (limited_get e key exp should_touch True s) (\<lambda>(s, it, overflow). case it of
        Some a \<Rightarrow>
          let it = items (cache s) a in
          (case mt_verify (merkle s) (Some (mac it)) 16 (mt_index it) of
             Inl err \<Rightarrow> Some (Inl err)
           | Inr r \<Rightarrow>
             (case arr_read (idata it) 0 (nat (nbytes it)) of
                Inl err \<Rightarrow> Some (Inl err)
              | Inr data \<Rightarrow>
                let s = s\<lparr>tree_verify_failures := tree_verify_failures s + (if r \<noteq> MT_SUCCESS then 1 else 0)\<rparr>;
                    c = ITEM_clsid it;
                    s = set_tstats (\<lambda>t. if should_touch then t\<lparr>touch_cmds := touch_cmds t + 1, touch_hits := (touch_hits t)(c := touch_hits t c + 1)\<rparr>
                          else t\<lparr>lru_hits := (lru_hits t)(slabs_clsid it := lru_hits t (slabs_clsid it) + 1), get_cmds := get_cmds t + 1\<rparr>) s
                in bindO (item_remove a s) (\<lambda>s. Some (Inr (s, Value (ikey it) (FLAGS_CONV it) (ITEM_get_cas it) data r)))))
      | None \<Rightarrow>
          Some (Inr (set_tstats (\<lambda>t. if should_touch then t\<lparr>touch_cmds := touch_cmds t + 1, touch_misses := touch_misses t + 1\<rparr>
            else t\<lparr>get_misses := get_misses t + 1, get_cmds := get_cmds t + 1\<rparr>) s, Miss))))"

definition process_delete_command :: "env \<Rightarrow> byte list \<Rightarrow> server \<Rightarrow> (server \<times> reply) res option" where
  "process_delete_command e key s =
     (if length key > KEY_MAX_LENGTH then Some (Inr (s, BadCommand))
      else bindO (item_get e key False s) (\<lambda>(s, it). case it of
        Some a \<Rightarrow>
          let c = ITEM_clsid (items (cache s) a);
              s = set_tstats (\<lambda>t. t\<lparr>delete_hits := (delete_hits t)(c := delete_hits t c + 1)\<rparr>) s
          in bindO (item_unlink e a s) (\<lambda>s. bindO (item_remove a s) (\<lambda>s. Some (Inr (s, Deleted))))
      | None \<Rightarrow> Some (Inr (set_tstats (\<lambda>t. t\<lparr>delete_misses := delete_misses t + 1\<rparr>) s, NotFound))))"

definition process_touch_command :: "env \<Rightarrow> byte list \<Rightarrow> u32 \<Rightarrow> server \<Rightarrow> (server \<times> reply) res option" where
  "process_touch_command e key exp s =
     (if length key > KEY_MAX_LENGTH then Some (Inr (s, BadCommand))
      else bindO (item_touch e key exp s) (\<lambda>(s, it). case it of
        Some a \<Rightarrow>
          let c = ITEM_clsid (items (cache s) a);
              s = set_tstats (\<lambda>t. t\<lparr>touch_cmds := touch_cmds t + 1, touch_hits := (touch_hits t)(c := touch_hits t c + 1)\<rparr>) s
          in bindO (item_remove a s) (\<lambda>s. Some (Inr (s, Touched)))
      | None \<Rightarrow> Some (Inr (set_tstats (\<lambda>t. t\<lparr>touch_cmds := touch_cmds t + 1, touch_misses := touch_misses t + 1\<rparr>) s, NotFound))))"

text \<open>
  The requests of clients, each with its own surroundings, and the two background jobs of the maintainer thread in between. The client of \<open>Set\<close> announces the
  length of the block that it sends, which ends with a line break.
\<close>

datatype request = Set "byte list" u32 u32 "byte list" | Get "byte list" u32 bool | Delete "byte list" | Touch "byte list" u32 | Bumps
  | Juggle "u32 \<Rightarrow> u32" "u32 \<Rightarrow> u32" byte

definition serve :: "env \<Rightarrow> request \<Rightarrow> server \<Rightarrow> (server \<times> reply option) res option" where
  "serve e req s =
     (let answer = (\<lambda>r. bindO r (\<lambda>(s, a). Some (Inr (s, Some a)))) in
      case req of
        Set key fl exp block \<Rightarrow> answer (process_update_command e NREAD_SET key fl exp (int (length block) - 2) 0 block s)
      | Get key exp should_touch \<Rightarrow> answer (process_get_command e key exp should_touch s)
      | Delete key \<Rightarrow> answer (process_delete_command e key s)
      | Touch key exp \<Rightarrow> answer (process_touch_command e key exp s)
      | Bumps \<Rightarrow> bindO (Some (lru_maintainer_bumps (e_cfg e) (e_now e) (cache s))) (\<lambda>(k, _). Some (Inr (s\<lparr>cache := k\<rparr>, None)))
      | Juggle hot_age warm_age cls \<Rightarrow> bindO (lru_maintainer_juggle (e_cfg e) (e_now e) (e_hash e) (e_busy e) hot_age warm_age cls (cache s))
          (\<lambda>(k, _). Some (Inr (s\<lparr>cache := k\<rparr>, None))))"

fun kvs_run :: "(env \<times> request) list \<Rightarrow> server \<Rightarrow> (server \<times> reply option list) res option" where
  "kvs_run [] s = Some (Inr (s, []))"
| "kvs_run ((e, req) # evs) s = bindO (serve e req s) (\<lambda>(s, r). bindO (kvs_run evs s) (\<lambda>(s, rs). Some (Inr (s, r # rs))))"

text \<open>
  The start of the server. The static variables are zero, the pages of the allocator hold free chunks only, the table is made by \<open>assoc_init\<close>, and the
  tree by \<open>mt_create\<close>, whose failure is only reported. \<open>None\<close> as a tree is the null pointer.
\<close>

definition assoc_static :: assoc where
  "assoc_static = \<lparr>hashpower = 16, primary_hashtable = [], old_hashtable = [], expanding = False, expand_bucket = 0,
     hash_power_level = 0, hash_bytes = 0, hash_is_expanding = False\<rparr>"

definition item_free_chunk :: item where
  "item_free_chunk = \<lparr>it_next = None, it_prev = None, h_next = None, it_time = 0, exptime = 0, nbytes = 0, refcount = 0,
     it_flags = ITEM_SLABBED, slabs_clsid = 0, ikey = [], mac = replicate 32 0, mt_index = 0, cas = 0, client_flags = 0, idata = []\<rparr>"

definition itemstats_zero :: itemstats_t where
  "itemstats_zero = \<lparr>evicted = 0, evicted_nonzero = 0, reclaimed = 0, outofmemory = 0, tailrepairs = 0, expired_unfetched = 0,
     evicted_unfetched = 0, evicted_active = 0, lrutail_reflocked = 0, moves_to_cold = 0, moves_to_warm = 0, moves_within_lru = 0,
     direct_reclaims = 0, evicted_time = 0\<rparr>"

definition kv_static :: "assoc \<Rightarrow> kv" where
  "kv_static t = \<lparr>items = \<lambda>_. item_free_chunk, table = t, heads = \<lambda>_. None, tails = \<lambda>_. None, sizes = \<lambda>_. 0, sizes_bytes = \<lambda>_. 0,
     itemstats = \<lambda>_. itemstats_zero, curr_bytes = 0, curr_items = 0, total_items = 0, cas_id = 0, stats_sizes_hist = None,
     stats_sizes_cas_min = 0, get_flushed = 0, get_expired = 0, bump_queue = [], bumps_dropped = 0, slab_freed = [], reassign_calls = []\<rparr>"

definition thread_stats_zero :: thread_stats where
  "thread_stats_zero = \<lparr>set_cmds = \<lambda>_. 0, cas_hits = \<lambda>_. 0, cas_badval = \<lambda>_. 0, cas_misses = 0, get_cmds = 0, get_misses = 0, lru_hits = \<lambda>_. 0,
     touch_cmds = 0, touch_hits = \<lambda>_. 0, touch_misses = 0, delete_hits = \<lambda>_. 0, delete_misses = 0\<rparr>"

definition kvs_start :: "bool \<Rightarrow> nat \<Rightarrow> bool \<Rightarrow> (nat \<Rightarrow> bool) \<Rightarrow> server res" where
  "kvs_start table_mem hashpower_init tree_mem level_mem =
     (case assoc_init table_mem hashpower_init assoc_static of
        None \<Rightarrow> Inl ExitProcess
      | Some t \<Rightarrow> bindE (mt_create tree_mem level_mem) (\<lambda>mt.
          Inr \<lparr>cache = kv_static t, merkle = mt, tstats = thread_stats_zero, tree_add_failures = 0, tree_verify_failures = 0\<rparr>))"

end
