(* ===== verification/Kvs_Invariant.thy ===== *)
theory Kvs_Invariant
  imports Kvs_Requests
begin

text \<open>
  The invariant of the server: the table, the queues and the reference counts agree (\<open>kv_ok\<close>), and every linked item carries the code of its value and the index of
  its leaf in the tree. The locale \<open>item_cache\<close> is what the requests rely on from the items; it is interpreted on the operations of \<open>Mc_Items\<close>. One lemma
  for each request shows that it returns without a fault, keeps the invariant and gives an answer that a client is entitled to.
\<close>

section \<open>The interface of the items\<close>

text \<open>
  What the requests rely on: a lookup returns the item of the key with a reference, or drops it when it is dead; a reference is
  released; an item is unlinked. No operation changes what clients see of an item.
\<close>

locale item_cache =
  fixes ok :: "(byte list \<rightharpoonup> addr) \<Rightarrow> (addr \<Rightarrow> nat) \<Rightarrow> 'k \<Rightarrow> bool" and seen :: "'k \<Rightarrow> 'k \<Rightarrow> bool"
    and lookup :: "byte list \<Rightarrow> 'k \<Rightarrow> ('k \<times> addr option) res option"
    and release :: "addr \<Rightarrow> 'k \<Rightarrow> 'k res" and unlink :: "byte list \<Rightarrow> addr \<Rightarrow> 'k \<Rightarrow> 'k res option"
  assumes seen_trans: "seen k k' \<Longrightarrow> seen k' k'' \<Longrightarrow> seen k k''"
    and lookup_law: "ok m held k \<Longrightarrow> (\<And>a. held a \<le> 1) \<Longrightarrow>
      \<exists>k' r. lookup key k = Some (Inr (k', r)) \<and> seen k k' \<and> (case r of
          None \<Rightarrow> ok (m(key := None)) held k' | Some a \<Rightarrow> m key = Some a \<and> ok m (held(a := held a + 1)) k')"
    and release_law: "ok m held k \<Longrightarrow> held a > 0 \<Longrightarrow>
      \<exists>k'. release a k = Inr k' \<and> seen k k' \<and> ok m (held(a := held a - 1)) k'"
    and unlink_law: "ok m held k \<Longrightarrow> m key = Some a \<Longrightarrow>
      \<exists>k'. unlink key a k = Some (Inr k') \<and> seen k k' \<and> ok (m(key := None)) held k'"
begin

text \<open>A lookup whose reference is released afterwards, with something done in between that clients do not see.\<close>

lemma visit:
  assumes "ok m held k" and "\<And>a. held a \<le> 1"
  shows "\<exists>k' r. lookup key k = Some (Inr (k', r)) \<and> seen k k' \<and> (case r of
      None \<Rightarrow> ok (m(key := None)) held k'
    | Some a \<Rightarrow> m key = Some a \<and> ok m (held(a := held a + 1)) k' \<and> (\<exists>k''. release a k' = Inr k'' \<and> seen k k'' \<and> ok m held k''))"
proof -
  obtain k' r where k': "lookup key k = Some (Inr (k', r))" "seen k k'" "case r of None \<Rightarrow> ok (m(key := None)) held k'
      | Some a \<Rightarrow> m key = Some a \<and> ok m (held(a := held a + 1)) k'" using lookup_law [OF assms] by blast
  show ?thesis
  proof (cases r)
    case (Some a)
    then obtain k'' where "release a k' = Inr k''" "seen k' k''" "ok m held k''"
      using release_law [of m "held(a := held a + 1)" k' a] k'(3) by auto
    moreover from this(2) have "seen k k''" using k'(2) seen_trans by blast
    ultimately show ?thesis using k' Some by auto
  qed (use k' in auto)
qed

lemma visit_unlink:
  assumes "ok m held k" and "\<And>a. held a \<le> 1"
  shows "\<exists>k' r. lookup key k = Some (Inr (k', r)) \<and> seen k k' \<and> (case r of
      None \<Rightarrow> ok (m(key := None)) held k'
    | Some a \<Rightarrow> m key = Some a \<and> (\<exists>k1 k2. unlink key a k' = Some (Inr k1) \<and> release a k1 = Inr k2 \<and> seen k k2 \<and> ok (m(key := None)) held k2))"
proof -
  obtain k' r where k': "lookup key k = Some (Inr (k', r))" "seen k k'" "case r of None \<Rightarrow> ok (m(key := None)) held k'
      | Some a \<Rightarrow> m key = Some a \<and> ok m (held(a := held a + 1)) k'" using lookup_law [OF assms] by blast
  show ?thesis
  proof (cases r)
    case (Some a)
    then obtain k1 where k1: "unlink key a k' = Some (Inr k1)" "seen k' k1" "ok (m(key := None)) (held(a := held a + 1)) k1"
      using unlink_law [of m _ k' key a] k'(3) by auto
    then obtain k2 where "release a k1 = Inr k2" "seen k1 k2" "ok (m(key := None)) held k2"
      using release_law [of _ "held(a := held a + 1)" k1 a] by auto
    moreover from this(2) k1(2) have "seen k k2" using k'(2) seen_trans by blast
    ultimately show ?thesis using k' Some k1(1) by auto
  qed (use k' in auto)
qed

end

lemma do_item_get_ok:
  assumes ok: "kv_ok hash m held k" and held: "\<And>a. held a \<le> 1"
  shows "\<exists>k' r. do_item_get cfg now room key (hash key) do_update k = Some (Inr (k', r)) \<and> only_recency k k' \<and> (case r of
      None \<Rightarrow> kv_ok hash (m(key := None)) held k' | Some a \<Rightarrow> m key = Some a \<and> kv_ok hash m (held(a := held a + 1)) k')"
proof (cases "m key")
  case None
  then have "m(key := None) = m" by auto
  then show ?thesis using do_item_get_none [OF ok None] ok by simp
next
  case (Some a)
  have lim: "held a + bump_refs k a < 65533"
    using held [of a] kv_ok_bump_refs [OF ok, of a] by (simp add: LRU_BUMP_BUF_SIZE_def)
  show ?thesis
    using do_item_get_live [OF ok Some _ lim, of cfg now room do_update] do_item_get_dead [OF ok Some _ lim, of cfg now room do_update] Some
    by (cases "dead cfg now (items k a)") auto
qed

interpretation cached: item_cache "kv_ok hash" only_recency
  "\<lambda>key. do_item_get cfg now room key (hash key) do_update" do_item_remove "\<lambda>key a. do_item_unlink a (hash key)"
  for hash cfg now room do_update
proof unfold_locales
  show "\<exists>k'. do_item_remove a k = Inr k' \<and> only_recency k k' \<and> kv_ok hash m (held(a := held a - 1)) k'"
    if "kv_ok hash m held k" "held a > 0" for m held k a using do_item_remove_ok [OF that] by blast
  show "\<exists>k'. do_item_unlink a (hash key) k = Some (Inr k') \<and> only_recency k k' \<and> kv_ok hash (m(key := None)) held k'"
    if "kv_ok hash m held k" "m key = Some a" for m held k key a using do_item_unlink_ok [OF that] by blast
qed (use only_recency_trans do_item_get_ok in blast)+

section \<open>Stored items and the tree\<close>

text \<open>The code of the item is that of its value, and it is the leaf at the index of the item.\<close>

definition authentic :: "byte list list \<Rightarrow> item \<Rightarrow> bool" where
  "authentic xs it \<longleftrightarrow> AES_CMAC cmac_key (idata it) (nbytes it) = Inr (take 16 (mac it))
     \<and> unat (mt_index it) < length xs \<and> xs ! unat (mt_index it) = pad_tag (mac it) 16"

text \<open>\<open>val\<close> gives the last value stored under a key.\<close>

definition stored_ok :: "(byte list \<rightharpoonup> byte list) \<Rightarrow> byte list list \<Rightarrow> (byte list \<rightharpoonup> addr) \<Rightarrow> kv \<Rightarrow> bool" where
  "stored_ok val xs m k \<longleftrightarrow> (\<forall>a. length (mac (items k a)) = 32) \<and> (\<forall>a \<in> ran m. ikey (items k a) \<noteq> []
     \<and> val (ikey (items k a)) = Some (idata (items k a)) \<and> nbytes (items k a) = int (length (idata (items k a))) \<and> authentic xs (items k a))"

text \<open>
  The indices of the items refer to the leaves \<open>xs\<close>, the tree has the leaves \<open>ys\<close>. They are to be the same.
\<close>

definition server_ok :: "(byte list \<Rightarrow> u32) \<Rightarrow> (byte list \<rightharpoonup> byte list) \<Rightarrow> byte list list \<Rightarrow> byte list list \<Rightarrow> server \<Rightarrow> bool" where
  "server_ok hash val xs ys s \<longleftrightarrow> (\<exists>m mt. kv_ok hash m (\<lambda>_. 0) (cache s) \<and> stored_ok val xs m (cache s)
     \<and> merkle s = Some mt \<and> mt_rep mt ys \<and> total_items (cache s) = word_of_nat (length xs))"

text \<open>What a client may conclude about a key from the answer to a request: \<open>val\<close> is what was known before.\<close>

definition observe :: "request \<Rightarrow> reply option \<Rightarrow> (byte list \<rightharpoonup> byte list) \<Rightarrow> (byte list \<rightharpoonup> byte list)" where
  "observe req r val = (case req of
      Set key fl exp block \<Rightarrow> if r = Some (Stored STORED) then val(key \<mapsto> block)
        else if r = Some (Stored NO_MEMORY) \<or> r = Some (Stored TOO_LARGE) then val(key := None) else val
    | Get key exp touch \<Rightarrow> if r = Some Miss then val(key := None) else val
    | Delete key \<Rightarrow> if r = Some Deleted \<or> r = Some NotFound then val(key := None) else val
    | Touch key exp \<Rightarrow> if r = Some NotFound then val(key := None) else val
    | _ \<Rightarrow> val)"

text \<open>The answer that a client is entitled to: a value is the one known for the key, and its check against the tree succeeded.\<close>

definition answer_ok :: "(byte list \<rightharpoonup> byte list) \<Rightarrow> request \<Rightarrow> reply option \<Rightarrow> bool" where
  "answer_ok val req r \<longleftrightarrow> (case req of
      Set key fl exp block \<Rightarrow> r \<in> {Some BadCommand, Some BadDataChunk, Some (Stored STORED), Some (Stored NO_MEMORY), Some (Stored TOO_LARGE)}
    | Get key exp touch \<Rightarrow> r = Some BadCommand \<or> r = Some Miss \<or> (\<exists>fl c v. r = Some (Value key fl c v MT_SUCCESS) \<and> val key = Some v)
    | Delete key \<Rightarrow> r = Some BadCommand \<or> r = Some NotFound \<or> r = Some Deleted \<and> val key \<noteq> None
    | Touch key exp \<Rightarrow> r = Some BadCommand \<or> r = Some NotFound \<or> r = Some Touched \<and> val key \<noteq> None
    | _ \<Rightarrow> r = None)"

text \<open>The leaf of a value, and the leaves of the tree after an answer, when \<open>xs\<close> were its leaves before.\<close>

definition code_leaf :: "byte list \<Rightarrow> byte list" where
  "code_leaf block = (case AES_CMAC cmac_key block (int (length block)) of Inl _ \<Rightarrow> [] | Inr T \<Rightarrow> T @ replicate 16 0)"

definition leaves :: "request \<Rightarrow> reply option \<Rightarrow> byte list list \<Rightarrow> byte list list" where
  "leaves req r xs = (case req of Set key fl exp block \<Rightarrow> if r = Some (Stored STORED) then xs @ [code_leaf block] else xs | _ \<Rightarrow> xs)"

definition served ::
    "(byte list \<Rightarrow> u32) \<Rightarrow> (byte list \<rightharpoonup> byte list) \<Rightarrow> byte list list \<Rightarrow> byte list list \<Rightarrow> request \<Rightarrow> server \<Rightarrow> server \<Rightarrow> reply option \<Rightarrow> bool" where
  "served hash val xs ys req s s' r \<longleftrightarrow> answer_ok val req r \<and> tree_verify_failures s' = tree_verify_failures s \<and> tree_add_failures s' = tree_add_failures s
     \<and> server_ok hash (observe req r val) (leaves req r xs) (leaves req r ys) s'"

definition same_store :: "kv \<Rightarrow> kv \<Rightarrow> bool" where
  "same_store k k' \<longleftrightarrow> total_items k' = total_items k \<and> (\<forall>x. ikey (items k' x) = ikey (items k x) \<and> nbytes (items k' x) = nbytes (items k x)
     \<and> mac (items k' x) = mac (items k x) \<and> mt_index (items k' x) = mt_index (items k x) \<and> idata (items k' x) = idata (items k x))"

lemma same_store_recency: "only_recency k k' \<Longrightarrow> same_store k k'"
  by (auto simp: only_recency_def same_store_def dest: same_contentD)

lemma same_store_trans: "same_store k k' \<Longrightarrow> same_store k' k'' \<Longrightarrow> same_store k k''"
  by (simp add: same_store_def)

lemma stored_ok_same:
  assumes "stored_ok val xs m k" and "same_store k k'" and "ran m' \<subseteq> ran m"
  shows "stored_ok val xs m' k'"
  using assms unfolding stored_ok_def same_store_def authentic_def by auto

lemma stored_ok_unlinked:
  assumes "stored_ok val xs m k" and "a \<notin> ran m" and "length (mac (f (items k a))) = 32"
  shows "stored_ok val xs m (set_item a f k)"
  using assms unfolding stored_ok_def by auto

lemma ran_drop: "ran (m(key := None)) \<subseteq> ran m"
  by (auto simp: ran_def split: if_splits)

lemma kv_ok_linked_key: "kv_ok hash m held k \<Longrightarrow> a \<in> ran m \<Longrightarrow> m (ikey (items k a)) = Some a"
  by (auto simp: ran_def dest: kv_ok_key)

lemma stored_ok_forget: "stored_ok val xs m k \<Longrightarrow> kv_ok hash m held k \<Longrightarrow> m key = None \<Longrightarrow> stored_ok (val(key := None)) xs m k"
  using kv_ok_linked_key [of hash m held k] unfolding stored_ok_def by fastforce

text \<open>Following the cache while the tree stays.\<close>

lemma server_okI:
  assumes "kv_ok hash m' (\<lambda>_. 0) k'" and "same_store (cache s) k'" and "ran m' \<subseteq> ran m"
    and "stored_ok val xs m (cache s)" and "merkle s = Some mt" and "mt_rep mt ys" and "total_items (cache s) = word_of_nat (length xs)"
    and "cache s' = k'" and "merkle s' = merkle s"
  shows "server_ok hash val xs ys s'"
  using assms stored_ok_same [OF assms(4,2,3)] unfolding server_ok_def same_store_def by auto

lemma server_ok_forget:
  assumes "kv_ok hash (m(key := None)) (\<lambda>_. 0) k'" and "same_store (cache s) k'"
    and "stored_ok val xs m (cache s)" and "merkle s = Some mt" and "mt_rep mt ys" and "total_items (cache s) = word_of_nat (length xs)"
    and "cache s' = k'" and "merkle s' = merkle s"
  shows "server_ok hash (val(key := None)) xs ys s'"
  using assms stored_ok_forget [OF stored_ok_same [OF assms(3,2) ran_drop] assms(1)] unfolding server_ok_def same_store_def by auto

lemma zero_upd [simp]: "(\<lambda>_. 0 :: nat)(a := 0) = (\<lambda>_. 0)"
  by auto

lemma kv_ok_refcount:
  assumes "kv_ok hash m held k" and "a \<in> ran m"
  shows "unat (refcount (items k a)) = held a + bump_refs k a + 1"
proof -
  obtain q where inv: "kv_inv hash m q (\<lambda>a. held a + bump_refs k a) k" using assms by (auto simp: kv_ok_def)
  show ?thesis using refs_okD(3) [OF kv_invD(4) [OF inv], of a] assms(2) by simp
qed

lemma refcount_in_limit:
  assumes ok: "kv_ok hash m held k" and "a \<in> ran m" and "held a \<le> 2"
  shows "\<not> refcount (items k a) > IT_REFCOUNT_LIMIT"
  using kv_ok_refcount [OF ok assms(2)] kv_ok_bump_refs [OF ok, of a] assms(3)
  by (simp add: word_less_nat_alt IT_REFCOUNT_LIMIT_def LRU_BUMP_BUF_SIZE_def)

lemma do_item_touch_ok:
  assumes ok: "kv_ok hash m held k" and held: "\<And>a. held a \<le> 1"
  shows "\<exists>k' r. do_item_touch cfg now room key exp (hash key) k = Some (Inr (k', r)) \<and> same_store k k' \<and> (case r of
      None \<Rightarrow> kv_ok hash (m(key := None)) held k' | Some a \<Rightarrow> m key = Some a \<and> kv_ok hash m (held(a := held a + 1)) k')"
proof -
  obtain k' r where k': "do_item_get cfg now room key (hash key) True k = Some (Inr (k', r))" "only_recency k k'" "case r of
      None \<Rightarrow> kv_ok hash (m(key := None)) held k' | Some a \<Rightarrow> m key = Some a \<and> kv_ok hash m (held(a := held a + 1)) k'"
    using do_item_get_ok [OF ok held] by blast
  show ?thesis
  proof (cases r)
    case (Some a)
    let ?k = "set_item a (\<lambda>it. it\<lparr>exptime := exp\<rparr>) k'"
    have "kv_ok hash m (held(a := held a + 1)) ?k"
      using kv_ok_soft [of hash m _ k' a "\<lambda>it. it\<lparr>exptime := exp\<rparr>"] k'(3) Some by (simp add: soft_change_def has_flag_def)
    moreover have "same_store k ?k" using same_store_recency [OF k'(2)] by (auto simp: same_store_def)
    ultimately show ?thesis using k' Some by (simp add: do_item_touch_def)
  qed (use k' same_store_recency in \<open>simp add: do_item_touch_def\<close>)
qed

text \<open>The lookup of a get command, which may touch the item, and the release after the answer.\<close>

lemma limited_get_ok:
  assumes ok: "kv_ok (e_hash e) m (\<lambda>_. 0) (cache s)"
  shows "\<exists>k' r. limited_get e key exp touch True s = Some (Inr (s\<lparr>cache := k'\<rparr>, r, False)) \<and> same_store (cache s) k' \<and> (case r of
      None \<Rightarrow> kv_ok (e_hash e) (m(key := None)) (\<lambda>_. 0) k'
    | Some a \<Rightarrow> m key = Some a \<and> kv_ok (e_hash e) m ((\<lambda>_. 0)(a := 1)) k')"
proof -
  obtain k' r where k': "(if touch then item_touch e key exp s else item_get e key True s) = Some (Inr (s\<lparr>cache := k'\<rparr>, r))"
    "same_store (cache s) k'" "case r of None \<Rightarrow> kv_ok (e_hash e) (m(key := None)) (\<lambda>_. 0) k'
      | Some a \<Rightarrow> m key = Some a \<and> kv_ok (e_hash e) m ((\<lambda>_. 0)(a := 1)) k'"
  proof (cases touch)
    case True
    then show ?thesis
      using that do_item_touch_ok [OF ok, of "e_cfg e" "e_now e" "e_room e" key exp] by (auto simp: item_touch_def split: option.splits)
  next
    case False
    then show ?thesis using that do_item_get_ok [OF ok, of "e_cfg e" "e_now e" "e_room e" key True]
      by (fastforce simp: item_get_def split: option.splits dest: same_store_recency)
  qed
  show ?thesis
  proof (cases r)
    case (Some a)
    then have "\<not> refcount (items k' a) > IT_REFCOUNT_LIMIT"
      using refcount_in_limit [of "e_hash e" m "(\<lambda>_. 0)(a := 1)" k' a] k'(3) by (auto simp: ran_def)
    then show ?thesis using k' Some by (intro exI [of _ k'] exI [of _ r]) (simp add: limited_get_def)
  qed (use k' in \<open>intro exI [of _ k'] exI [of _ r], simp add: limited_get_def\<close>)
qed

lemma process_get_ok:
  assumes ok: "server_ok (e_hash e) val xs xs s"
  shows "\<exists>s' r. process_get_command e key exp touch s = Some (Inr (s', r)) \<and> served (e_hash e) val xs xs (Get key exp touch) s s' (Some r)"
proof (cases "length key > KEY_MAX_LENGTH")
  case True
  then show ?thesis using ok by (auto simp: process_get_command_def served_def observe_def answer_ok_def leaves_def)
next
  case False
  obtain m mt where s: "kv_ok (e_hash e) m (\<lambda>_. 0) (cache s)" "stored_ok val xs m (cache s)" "merkle s = Some mt" "mt_rep mt xs"
    "total_items (cache s) = word_of_nat (length xs)" using ok by (auto simp: server_ok_def)
  obtain k' r where k': "limited_get e key exp touch True s = Some (Inr (s\<lparr>cache := k'\<rparr>, r, False))" "same_store (cache s) k'" "case r of
      None \<Rightarrow> kv_ok (e_hash e) (m(key := None)) (\<lambda>_. 0) k' | Some a \<Rightarrow> m key = Some a \<and> kv_ok (e_hash e) m ((\<lambda>_. 0)(a := 1)) k'"
    using limited_get_ok [OF s(1)] by blast
  show ?thesis
  proof (cases r)
    case None
    then show ?thesis using k' False server_ok_forget [OF _ k'(2) s(2-5)]
      by (auto simp: process_get_command_def set_tstats_def served_def observe_def answer_ok_def leaves_def)
  next
    case (Some a)
    then have a: "m key = Some a" "a \<in> ran m" and ok1: "kv_ok (e_hash e) m ((\<lambda>_. 0)(a := 1)) k'" using k'(3) by (auto simp: ran_def)
    let ?it = "items k' a"
    have it: "val (ikey ?it) = Some (idata ?it)" "nbytes ?it = int (length (idata ?it))" "authentic xs ?it" "length (mac ?it) = 32"
      using stored_ok_same [OF s(2) k'(2) subset_refl] a(2) by (auto simp: stored_ok_def)
    have key: "ikey ?it = key" using kv_ok_key [OF ok1 a(1)] .
    have tag: "tag_ok (mac ?it) 16" using it(4) by (simp add: tag_ok_def)
    have v: "mt_verify (Some mt) (Some (mac ?it)) 16 (mt_index ?it) = Inr MT_SUCCESS"
      using mtree.verify_genuine [OF s(4) _ tag] it(3) by (simp add: authentic_def)
    have rd: "arr_read (idata ?it) 0 (nat (nbytes ?it)) = Inr (idata ?it)" using it(2) by (simp add: arr_read_def)
    obtain k2 where k2: "do_item_remove a k' = Inr k2" "only_recency k' k2" "kv_ok (e_hash e) m (\<lambda>_. 0) k2"
      using cached.release_law [OF ok1, of a] by auto
    have same: "same_store (cache s) k2" using same_store_trans [OF k'(2) same_store_recency [OF k2(2)]] .
    show ?thesis
      using k' Some False v rd k2(1) it(1) key s(3) server_okI [OF k2(3) same subset_refl s(2-5)]
      by (auto simp: process_get_command_def Let_def set_tstats_def item_remove_def lift_kv_def served_def observe_def answer_ok_def leaves_def
       )
  qed
qed

lemma server_ok_cache:
  assumes "server_ok hash val xs ys s"
  obtains m mt where "kv_ok hash m (\<lambda>_. 0) (cache s)" "stored_ok val xs m (cache s)" "merkle s = Some mt" "mt_rep mt ys"
    "total_items (cache s) = word_of_nat (length xs)"
  using assms by (auto simp: server_ok_def)

lemmas served_simps = served_def observe_def answer_ok_def leaves_def set_tstats_def item_remove_def lift_kv_def item_unlink_def

lemma process_delete_ok:
  assumes ok: "server_ok (e_hash e) val xs xs s"
  shows "\<exists>s' r. process_delete_command e key s = Some (Inr (s', r)) \<and> served (e_hash e) val xs xs (Delete key) s s' (Some r)"
proof (cases "length key > KEY_MAX_LENGTH")
  case True
  then show ?thesis using ok by (auto simp: process_delete_command_def served_simps)
next
  case False
  obtain m mt where s: "kv_ok (e_hash e) m (\<lambda>_. 0) (cache s)" "stored_ok val xs m (cache s)" "merkle s = Some mt" "mt_rep mt xs"
    "total_items (cache s) = word_of_nat (length xs)" using server_ok_cache [OF ok] .
  obtain k' r where k': "do_item_get (e_cfg e) (e_now e) (e_room e) key (e_hash e key) False (cache s) = Some (Inr (k', r))"
    "only_recency (cache s) k'" "case r of None \<Rightarrow> kv_ok (e_hash e) (m(key := None)) (\<lambda>_. 0) k'
      | Some a \<Rightarrow> m key = Some a \<and> (\<exists>k1 k2. do_item_unlink a (e_hash e key) k' = Some (Inr k1) \<and> do_item_remove a k1 = Inr k2
          \<and> only_recency (cache s) k2 \<and> kv_ok (e_hash e) (m(key := None)) (\<lambda>_. 0) k2)"
    using cached.visit_unlink [OF s(1), of "e_cfg e" "e_now e" "e_room e" key False] by auto
  show ?thesis
  proof (cases r)
    case None
    then show ?thesis using k' False server_ok_forget [OF _ same_store_recency [OF k'(2)] s(2-5)]
      by (auto simp: process_delete_command_def item_get_def served_simps)
  next
    case (Some a)
    then obtain k1 k2 where a: "m key = Some a" and k2: "do_item_unlink a (e_hash e key) k' = Some (Inr k1)" "do_item_remove a k1 = Inr k2"
      "only_recency (cache s) k2" "kv_ok (e_hash e) (m(key := None)) (\<lambda>_. 0) k2" using k'(3) by auto
    have key: "ikey (items k' a) = key" using kv_ok_key [OF s(1) a] k'(2) same_contentD by (auto simp: only_recency_def)
    have "val key \<noteq> None" using s(2) a kv_ok_key [OF s(1) a] by (auto simp: stored_ok_def ran_def)
    then show ?thesis using k'(1) Some False k2(1,2) key server_ok_forget [OF k2(4) same_store_recency [OF k2(3)] s(2-5)]
      by (auto simp: process_delete_command_def item_get_def Let_def served_simps)
  qed
qed

lemma process_touch_ok:
  assumes ok: "server_ok (e_hash e) val xs xs s"
  shows "\<exists>s' r. process_touch_command e key exp s = Some (Inr (s', r)) \<and> served (e_hash e) val xs xs (Touch key exp) s s' (Some r)"
proof (cases "length key > KEY_MAX_LENGTH")
  case True
  then show ?thesis using ok by (auto simp: process_touch_command_def served_simps)
next
  case False
  obtain m mt where s: "kv_ok (e_hash e) m (\<lambda>_. 0) (cache s)" "stored_ok val xs m (cache s)" "merkle s = Some mt" "mt_rep mt xs"
    "total_items (cache s) = word_of_nat (length xs)" using server_ok_cache [OF ok] .
  obtain k' r where k': "do_item_touch (e_cfg e) (e_now e) (e_room e) key exp (e_hash e key) (cache s) = Some (Inr (k', r))"
    "same_store (cache s) k'" "case r of None \<Rightarrow> kv_ok (e_hash e) (m(key := None)) (\<lambda>_. 0) k'
      | Some a \<Rightarrow> m key = Some a \<and> kv_ok (e_hash e) m ((\<lambda>_. 0)(a := 0 + 1)) k'" using do_item_touch_ok [OF s(1)] by blast
  show ?thesis
  proof (cases r)
    case None
    then show ?thesis using k' False server_ok_forget [OF _ k'(2) s(2-5)]
      by (auto simp: process_touch_command_def item_touch_def served_simps)
  next
    case (Some a)
    then have a: "m key = Some a" and ok1: "kv_ok (e_hash e) m ((\<lambda>_. 0)(a := 1)) k'" using k'(3) by auto
    obtain k2 where k2: "do_item_remove a k' = Inr k2" "only_recency k' k2" "kv_ok (e_hash e) m (\<lambda>_. 0) k2"
      using cached.release_law [OF ok1, of a] by auto
    have same: "same_store (cache s) k2" using same_store_trans [OF k'(2) same_store_recency [OF k2(2)]] .
    have "val key \<noteq> None" using s(2) a kv_ok_key [OF s(1) a] by (auto simp: stored_ok_def ran_def)
    then show ?thesis using k'(1) Some False k2(1) server_okI [OF k2(3) same subset_refl s(2-5)]
      by (auto simp: process_touch_command_def item_touch_def Let_def served_simps)
  qed
qed

text \<open>No reference count comes near its width, so that the tails can be searched.\<close>

lemma stored_pullable:
  assumes "kv_ok hash m held k" and "stored_ok val xs m k" and "\<And>a. held a \<le> 1" and "tail_repair_time cfg = 0"
  shows "pullable cfg m held k"
proof -
  have "held a + bump_refs k a < 65534" for a
    using kv_ok_bump_refs [OF assms(1), of a] assms(3) [of a] by (simp add: LRU_BUMP_BUF_SIZE_def)
  then show ?thesis using assms(2,4) by (auto simp: pullable_def stored_ok_def)
qed

lemma bumps_served:
  assumes ok: "server_ok (e_hash e) val xs xs s"
  shows "\<exists>s' r. serve e Bumps s = Some (Inr (s', r)) \<and> served (e_hash e) val xs xs Bumps s s' r"
proof -
  obtain m mt where s: "kv_ok (e_hash e) m (\<lambda>_. 0) (cache s)" "stored_ok val xs m (cache s)" "merkle s = Some mt" "mt_rep mt xs"
    "total_items (cache s) = word_of_nat (length xs)" using server_ok_cache [OF ok] .
  obtain k' b where "lru_maintainer_bumps (e_cfg e) (e_now e) (cache s) = Inr (k', b)" "kv_ok (e_hash e) m (\<lambda>_. 0) k'" "only_recency (cache s) k'"
    using lru_maintainer_bumps_ok [OF s(1)] by blast
  then show ?thesis using server_okI [OF _ same_store_recency subset_refl s(2-5)]
    by (auto simp: serve_def served_simps)
qed

lemma juggle_served:
  assumes ok: "server_ok (e_hash e) val xs xs s" and "tail_repair_time (e_cfg e) = 0"
  shows "\<exists>s' r. serve e (Juggle hot_age warm_age cls) s = Some (Inr (s', r)) \<and> served (e_hash e) val xs xs (Juggle hot_age warm_age cls) s s' r"
proof -
  obtain m mt where s: "kv_ok (e_hash e) m (\<lambda>_. 0) (cache s)" "stored_ok val xs m (cache s)" "merkle s = Some mt" "mt_rep mt xs"
    "total_items (cache s) = word_of_nat (length xs)" using server_ok_cache [OF ok] .
  obtain k' b m' where "lru_maintainer_juggle (e_cfg e) (e_now e) (e_hash e) (e_busy e) hot_age warm_age cls (cache s) = Some (Inr (k', b))"
    and k': "kv_ok (e_hash e) m' (\<lambda>_. 0) k'" "only_recency (cache s) k'" "m' \<subseteq>\<^sub>m m"
    using lru_maintainer_juggle_ok [OF s(1) stored_pullable [OF s(1,2) _ assms(2)]] by (fastforce simp: shrunk_def)
  then show ?thesis using server_okI [OF k'(1) same_store_recency [OF k'(2)] map_le_ran [OF k'(3)] s(2-5)]
    by (auto simp: serve_def served_simps)
qed

section \<open>Storing\<close>

lemma cmac_ok:
  assumes "int (length xs) + 15 \<le> INT_MAX"
  shows "\<exists>T. AES_CMAC cmac_key xs (int (length xs)) = Inr T \<and> length T = 16"
proof -
  have k: "length cmac_key = 16" by (simp add: cmac_key_def)
  obtain K1 K2 where K: "generate_subkey cmac_key = (K1, K2)" by force
  obtain T where T: "AES_CMAC cmac_key xs (int (length xs)) = Inr T" using AES_CMAC_eq [OF k order_refl assms K] by simp
  then have "length T = 16" using k by (auto simp: AES_CMAC_def K Let_def bindE_eq_Inr split: if_splits)
  with T show ?thesis by blast
qed

text \<open>An unlinked item of the thread takes the place of what the table has under its key.\<close>

lemma store_set_ok:
  assumes ok: "kv_ok (e_hash e) m ((\<lambda>_. 0)(a := 1)) (cache s)" and a: "a \<notin> ran m" and key: "ikey (items (cache s) a) = key"
  shows "\<exists>k'. store_item e NREAD_SET st a s = Some (Inr (s\<lparr>cache := k'\<rparr>, STORED)) \<and> kv_ok (e_hash e) (m(key \<mapsto> a)) ((\<lambda>_. 0)(a := 1)) k'
     \<and> same_content (items (cache s)) (items k') \<and> total_items k' = total_items (cache s) + 1"
proof -
  let ?held = "(\<lambda>_. 0 :: nat)(a := 1)" and ?hv = "e_hash e key"
  have h1: "?held x \<le> 1" for x by simp
  have pos: "0 < ?held a" by simp
  have bound: "?held a + bump_refs k a < 65535" if "kv_ok (e_hash e) m' held k" for m' held k
    using kv_ok_bump_refs [OF that, of a] by (simp add: LRU_BUMP_BUF_SIZE_def)
  obtain k1 r where k1: "do_item_get (e_cfg e) (e_now e) (e_room e) key ?hv False (cache s) = Some (Inr (k1, r))"
    "only_recency (cache s) k1" "case r of None \<Rightarrow> kv_ok (e_hash e) (m(key := None)) ?held k1
      | Some old \<Rightarrow> m key = Some old \<and> kv_ok (e_hash e) m (?held(old := ?held old + 1)) k1"
    using do_item_get_ok [OF ok h1] by blast
  have same: "same_content (items (cache s)) (items k1)" "total_items k1 = total_items (cache s)" using k1(2) by (auto simp: only_recency_def)
  then have key1: "ikey (items k1 a) = key" using key same_contentD [of _ _ a] by simp
  show ?thesis
  proof (cases r)
    case None
    then have ok1: "kv_ok (e_hash e) (m(key := None)) ?held k1" using k1(3) by simp
    have a1: "a \<notin> ran (m(key := None))" using a ran_drop [of m key] by blast
    obtain k' where k': "do_item_link (e_cfg e) (e_now e) a ?hv k1 = Inr k'" "kv_ok (e_hash e) (m(key \<mapsto> a)) ?held k'"
      "same_content (items k1) (items k')" "total_items k' = total_items k1 + 1"
      using do_item_link_ok [OF ok1 a1 _ pos bound [OF ok1], of "e_cfg e" "e_now e", unfolded key1 fun_upd_upd fun_upd_same] by blast
    show ?thesis using k1(1) None key k' same_content_trans [OF same(1) k'(3)] same(2)
      by (intro exI [of _ k']) (simp add: store_item_def do_store_item_def lift_kv_def)
  next
    case (Some old)
    then have old: "m key = Some old" "old \<noteq> a" using k1(3) a by (auto simp: ran_def)
    then have ok1: "kv_ok (e_hash e) m (?held(old := 1)) k1" using k1(3) Some by simp
    obtain k2 where k2: "do_item_replace (e_cfg e) (e_now e) old a ?hv k1 = Some (Inr k2)" "kv_ok (e_hash e) (m(key \<mapsto> a)) (?held(old := 1)) k2"
      "same_content (items k1) (items k2)" "total_items k2 = total_items k1 + 1"
      using do_item_replace_ok [OF ok1 old(1) _ a key1, of "e_cfg e" "e_now e"] bound [OF ok1] old(2) by fastforce
    have h: "(?held(old := 1))(old := 0) = ?held" using old(2) by auto
    obtain k3 where k3: "do_item_remove old k2 = Inr k3" "only_recency k2 k3" "kv_ok (e_hash e) (m(key \<mapsto> a)) ?held k3"
      using cached.release_law [OF k2(2), of old] h by auto
    have "same_content (items (cache s)) (items k3)" "total_items k3 = total_items (cache s) + 1"
      using same(2) k2(4) k3(2) same_content_trans [OF same_content_trans [OF same(1) k2(3)]] by (auto simp: only_recency_def)
    then show ?thesis using k1(1) Some key k2(1) k3(1,3)
      by (intro exI [of _ k3]) (simp add: store_item_def do_store_item_def store_existing_def Let_def lift_kv_def item_remove_def)
  qed
qed

lemma stored_ok_leaf:
  assumes st: "stored_ok val xs m k" and ok: "kv_ok hash (m(key \<mapsto> a)) held k" and a: "a \<notin> ran m"
    and it: "ikey (items k a) = key" "key \<noteq> []" "idata (items k a) = block" "nbytes (items k a) = int (length block)"
    and T: "AES_CMAC cmac_key block (int (length block)) = Inr T" "length T = 16" and i: "unat i = length xs"
  shows "stored_ok (val(key \<mapsto> block)) (xs @ [pad_tag (T @ drop 16 (mac (items k a))) 16]) (m(key \<mapsto> a))
    (set_item a (\<lambda>it. it\<lparr>mac := T @ drop 16 (mac it), mt_index := i\<rparr>) k)" (is "stored_ok ?val ?xs ?m ?k")
  unfolding stored_ok_def
proof (intro conjI allI ballI)
  have mac: "length (mac (items k x)) = 32" for x using st by (simp add: stored_ok_def)
  show "length (mac (items ?k x)) = 32" for x using mac T(2) by (cases "x = a") simp_all
  fix b assume b: "b \<in> ran ?m"
  have mb: "?m (ikey (items k b)) = Some b" using kv_ok_linked_key [OF ok b] .
  have keys: "ikey (items k b) = key \<longleftrightarrow> b = a" using mb it(1) by (cases "ikey (items k b) = key") auto
  have new: "b \<in> ran m" if "b \<noteq> a" using mb keys that by (auto intro: ranI)
  have old: "ikey (items k b) \<noteq> []" "val (ikey (items k b)) = Some (idata (items k b))" "nbytes (items k b) = int (length (idata (items k b)))"
    "authentic xs (items k b)" if "b \<noteq> a" using new [OF that] st unfolding stored_ok_def by blast+
  show "ikey (items ?k b) \<noteq> []" using old(1) it by (cases "b = a") simp_all
  show "?val (ikey (items ?k b)) = Some (idata (items ?k b))" using old(2) it keys by (cases "b = a") simp_all
  show "nbytes (items ?k b) = int (length (idata (items ?k b)))" using old(3) it by (cases "b = a") simp_all
  show "authentic ?xs (items ?k b)"
  proof (cases "b = a")
    case True
    then show ?thesis using it T i by (simp add: authentic_def)
  next
    case False
    then show ?thesis using old(4) by (simp add: authentic_def nth_append)
  qed
qed

lemma leaf_index:
  assumes "w = (word_of_nat (n + 1) :: u64)" and "n < 2 ^ 26"
  shows "unat (ucast w - 1 :: u32) = n"
proof -
  have "(ucast w :: u32) = word_of_nat (n + 1)" using assms by (simp add: unsigned_of_nat take_bit_nat_eq_self del: of_nat_add of_nat_Suc)
  then show ?thesis using assms(2) by (simp add: unat_of_nat)
qed

definition linked_until :: "(byte list \<Rightarrow> u32) \<Rightarrow> byte list \<Rightarrow> u32 \<Rightarrow> nat \<Rightarrow> server \<Rightarrow> bool" where
  "linked_until hash key exp i s \<longleftrightarrow> (\<exists>m a. kv_ok hash m (\<lambda>_. 0) (cache s) \<and> m key = Some a \<and> exptime (items (cache s) a) = exp
     \<and> unat (mt_index (items (cache s) a)) = i)"

lemma leaf_recorded:
  assumes ok: "kv_ok (e_hash e) m ((\<lambda>_. 0)(a := 1)) (cache s)" and mac: "length (mac (items (cache s) a)) = 32"
    and it: "idata (items (cache s) a) = block" "nbytes (items (cache s) a) = int (length block)"
    and T: "AES_CMAC cmac_key block (int (length block)) = Inr T" "length T = 16"
    and mt: "merkle s = Some mt" "mt_rep mt ys" "length ys < 2 ^ 26" "e_tree_mem e = (\<lambda>_. True)"
  obtains k s1 s' mt' where "authenticate False a (cache s) = Inr k" "add_leaf e a (s\<lparr>cache := k\<rparr>) = Inr s1" "item_remove a s1 = Some (Inr s')"
    "tree_add_failures s' = tree_add_failures s" "tree_verify_failures s' = tree_verify_failures s"
    "merkle s' = Some mt'" "mt_rep mt' (ys @ [code_leaf block])" "kv_ok (e_hash e) m (\<lambda>_. 0) (cache s')"
    "only_recency (set_item a (\<lambda>it. it\<lparr>mac := T @ drop 16 (mac it), mt_index := ucast (total_items (cache s)) - 1\<rparr>) (cache s)) (cache s')"
    "do_item_remove a (set_item a (\<lambda>it. it\<lparr>mac := T @ drop 16 (mac it), mt_index := ucast (total_items (cache s)) - 1\<rparr>) (cache s)) = Inr (cache s')"
proof -
  let ?mac = "T @ drop 16 (mac (items (cache s) a))" and ?i = "ucast (total_items (cache s)) - 1 :: u32"
  let ?k1 = "set_item a (\<lambda>it. it\<lparr>mac := T @ drop 16 (mac it)\<rparr>) (cache s)"
  let ?k2 = "set_item a (\<lambda>it. it\<lparr>mac := T @ drop 16 (mac it), mt_index := ?i\<rparr>) (cache s)"
  have leaf: "pad_tag ?mac 16 = code_leaf block" using T by (simp add: pad_tag_def code_leaf_def)
  have k12: "set_item a (\<lambda>it. it\<lparr>mt_index := ?i\<rparr>) ?k1 = ?k2" by (simp add: set_item_def)
  have "tag_ok ?mac 16" using T(2) mac by (simp add: tag_ok_def)
  then obtain mt' where mt': "mt_add (\<lambda>_. True) (Some mt) (Some ?mac) 16 = Inr (MT_SUCCESS, Some mt')" "mt_rep mt' (ys @ [code_leaf block])"
    using mtree.add_law [OF mt(2,3)] leaf by metis
  have ok2: "kv_ok (e_hash e) m ((\<lambda>_. 0)(a := 1)) ?k2" by (rule kv_ok_soft [OF ok]) (simp add: soft_change_def has_flag_def)
  obtain k3 where k3: "do_item_remove a ?k2 = Inr k3" "only_recency ?k2 k3" "kv_ok (e_hash e) m (\<lambda>_. 0) k3"
    using cached.release_law [OF ok2, of a] by auto
  let ?s = "s\<lparr>merkle := Some mt', cache := ?k2\<rparr>"
  have "authenticate False a (cache s) = Inr ?k1" using T(1) it by (simp add: authenticate_def)
  moreover have "add_leaf e a (s\<lparr>cache := ?k1\<rparr>) = Inr ?s" using mt'(1) mt(1,4) k12 by (simp add: add_leaf_def)
  moreover have "item_remove a ?s = Some (Inr (?s\<lparr>cache := k3\<rparr>))" using k3(1) by (simp add: item_remove_def lift_kv_def)
  ultimately show ?thesis using that [of ?k1 ?s "?s\<lparr>cache := k3\<rparr>" mt'] mt'(2) k3 by simp
qed

lemma leaf_added:
  assumes ok: "kv_ok (e_hash e) (m(key \<mapsto> a)) ((\<lambda>_. 0)(a := 1)) (cache s)" and a: "a \<notin> ran m" and st: "stored_ok val xs m (cache s)"
    and it: "ikey (items (cache s) a) = key" "key \<noteq> []" "idata (items (cache s) a) = block" "nbytes (items (cache s) a) = int (length block)"
    and len: "int (length block) + 15 \<le> INT_MAX"
    and mt: "merkle s = Some mt" "mt_rep mt ys" "total_items (cache s) = word_of_nat (length xs + 1)" "length xs < 2 ^ 26" "length ys < 2 ^ 26" "e_tree_mem e = (\<lambda>_. True)"
  shows "\<exists>k s1 s'. authenticate False a (cache s) = Inr k \<and> add_leaf e a (s\<lparr>cache := k\<rparr>) = Inr s1 \<and> item_remove a s1 = Some (Inr s')
     \<and> tree_add_failures s' = tree_add_failures s \<and> tree_verify_failures s' = tree_verify_failures s
     \<and> server_ok (e_hash e) (val(key \<mapsto> block)) (xs @ [code_leaf block]) (ys @ [code_leaf block]) s' \<and> linked_until (e_hash e) key (exptime (items (cache s) a)) (length xs) s'"
proof -
  obtain T where T: "AES_CMAC cmac_key block (int (length block)) = Inr T" "length T = 16" using cmac_ok [OF len] by blast
  let ?k2 = "set_item a (\<lambda>it. it\<lparr>mac := T @ drop 16 (mac it), mt_index := ucast (total_items (cache s)) - 1\<rparr>) (cache s)"
  have "length (mac (items (cache s) a)) = 32" using st by (simp add: stored_ok_def)
  from leaf_recorded [OF ok this it(3,4) T mt(1,2,5,6)] obtain k s1 s' mt' where s': "authenticate False a (cache s) = Inr k"
    "add_leaf e a (s\<lparr>cache := k\<rparr>) = Inr s1" "item_remove a s1 = Some (Inr s')"
    "tree_add_failures s' = tree_add_failures s" "tree_verify_failures s' = tree_verify_failures s"
    "merkle s' = Some mt'" "mt_rep mt' (ys @ [code_leaf block])" "kv_ok (e_hash e) (m(key \<mapsto> a)) (\<lambda>_. 0) (cache s')" "only_recency ?k2 (cache s')" "do_item_remove a ?k2 = Inr (cache s')" .
  have leaf: "pad_tag (T @ drop 16 (mac (items (cache s) a))) 16 = code_leaf block" using T by (simp add: pad_tag_def code_leaf_def)
  have st2: "stored_ok (val(key \<mapsto> block)) (xs @ [code_leaf block]) (m(key \<mapsto> a)) ?k2"
    unfolding leaf [symmetric] by (rule stored_ok_leaf [OF st ok a it T leaf_index [OF mt(3,4)]])
  have tot: "total_items ?k2 = word_of_nat (length (xs @ [code_leaf block]))" using mt(3) by simp
  have "server_ok (e_hash e) (val(key \<mapsto> block)) (xs @ [code_leaf block]) (ys @ [code_leaf block]) s'"
    by (rule server_okI [OF s'(8) _ subset_refl, of "s'\<lparr>cache := ?k2\<rparr>"]) (use same_store_recency [OF s'(9)] st2 s'(6,7) tot in simp_all)
  moreover have "exptime (items (cache s') a) = exptime (items (cache s) a)" "unat (mt_index (items (cache s') a)) = length xs"
    using s'(9) same_contentD [of "items ?k2" "items (cache s')" a] leaf_index [OF mt(3,4)] by (simp_all add: only_recency_def)
  then have "linked_until (e_hash e) key (exptime (items (cache s) a)) (length xs) s'" using s'(8) unfolding linked_until_def by fastforce
  ultimately show ?thesis using s'(1-5) by blast
qed

text \<open>The data block of a set command has arrived in the unlinked item.\<close>

lemma complete_set_ok:
  assumes ok: "kv_ok (e_hash e) m ((\<lambda>_. 0)(a := 1)) (cache s)" and a: "a \<notin> ran m" and st: "stored_ok val xs m (cache s)"
    and it: "ikey (items (cache s) a) = key" "key \<noteq> []" "idata (items (cache s) a) = block" "nbytes (items (cache s) a) = int (length block)"
      "\<not> has_flag (items (cache s) a) ITEM_CHUNKED"
    and len: "length block \<ge> 2" "int (length block) + 15 \<le> INT_MAX"
    and mt: "merkle s = Some mt" "mt_rep mt ys" "total_items (cache s) = word_of_nat (length xs)" "length xs < 2 ^ 26" "length ys < 2 ^ 26" "e_tree_mem e = (\<lambda>_. True)"
  shows "\<exists>s' r. complete_nread_ascii e NREAD_SET False a s = Some (Inr (s', r)) \<and> served (e_hash e) val xs ys (Set key fl exp block) s s' (Some r)
     \<and> (drop (length block - 2) block = [13, 10] \<longrightarrow> r = Stored STORED)
     \<and> (r = Stored STORED \<longrightarrow> linked_until (e_hash e) key (exptime (items (cache s) a)) (length xs) s')"
proof -
  define s1 where "s1 = set_tstats (\<lambda>t. t\<lparr>set_cmds := (set_cmds t)(ITEM_clsid (items (cache s) a) := set_cmds t (ITEM_clsid (items (cache s) a)) + 1)\<rparr>) s"
  have s1: "cache s1 = cache s" "merkle s1 = merkle s" "tree_add_failures s1 = tree_add_failures s" "tree_verify_failures s1 = tree_verify_failures s"
    by (simp_all add: s1_def set_tstats_def)
  have "nat (int (length block) - 2) + 2 \<le> length block" using len(1) by simp
  then have last2: "arr_read block (int (length block) - 2) 2 = Inr (drop (length block - 2) block)"
    using len(1) by (simp add: arr_read_def nat_diff_distrib)
  show ?thesis
  proof (cases "drop (length block - 2) block = [13, 10]")
    case False
    obtain k' where k': "do_item_remove a (cache s) = Inr k'" "only_recency (cache s) k'" "kv_ok (e_hash e) m (\<lambda>_. 0) k'"
      using cached.release_law [OF ok, of a] by auto
    have "server_ok (e_hash e) val xs ys (s1\<lparr>cache := k'\<rparr>)"
      by (rule server_okI [OF k'(3) same_store_recency [OF k'(2)] subset_refl st mt(1-3)]) (simp_all add: s1)
    then show ?thesis using last2 False it k'(1) s1
      by (intro exI conjI, simp add: complete_nread_ascii_def Let_def s1_def [symmetric] item_remove_def lift_kv_def)
        (auto simp: served_def observe_def answer_ok_def leaves_def)
  next
    case True
    obtain k2 where k2: "store_item e NREAD_SET False a s1 = Some (Inr (s1\<lparr>cache := k2\<rparr>, STORED))" "kv_ok (e_hash e) (m(key \<mapsto> a)) ((\<lambda>_. 0)(a := 1)) k2"
      "same_content (items (cache s)) (items k2)" "total_items k2 = total_items (cache s) + 1"
      using store_set_ok [of e m a s1 key False] ok a it(1) s1(1) by auto
    have fields: "ikey (items k2 x) = ikey (items (cache s) x) \<and> nbytes (items k2 x) = nbytes (items (cache s) x) \<and> mac (items k2 x) = mac (items (cache s) x)
        \<and> mt_index (items k2 x) = mt_index (items (cache s) x) \<and> idata (items k2 x) = idata (items (cache s) x) \<and> exptime (items k2 x) = exptime (items (cache s) x)" for x
      using same_contentD [OF k2(3)] by simp
    then have "stored_ok val xs m k2" using st by (auto simp: stored_ok_def authentic_def)
    then obtain k s2 s' where s': "authenticate False a k2 = Inr k" "add_leaf e a (s1\<lparr>cache := k\<rparr>) = Inr s2" "item_remove a s2 = Some (Inr s')"
      "tree_add_failures s' = tree_add_failures s1" "tree_verify_failures s' = tree_verify_failures s1"
      "server_ok (e_hash e) (val(key \<mapsto> block)) (xs @ [code_leaf block]) (ys @ [code_leaf block]) s'" "linked_until (e_hash e) key (exptime (items (cache s) a)) (length xs) s'"
      using leaf_added [of e m key a "s1\<lparr>cache := k2\<rparr>" val xs block mt ys] k2(2,4) a it(1-4) fields [of a] len(2) mt s1(2) by (auto simp: add.commute)
    then show ?thesis using last2 True it(3-5) k2(1) s1
      by (intro exI conjI, simp add: complete_nread_ascii_def Let_def s1_def [symmetric])
        (auto simp: served_def observe_def answer_ok_def leaves_def)
  qed
qed

text \<open>What is asked of the surroundings of a request, and of the request.\<close>

definition env_ok :: "(byte list \<Rightarrow> u32) \<Rightarrow> env \<Rightarrow> bool" where
  "env_ok hash e \<longleftrightarrow> e_hash e = hash \<and> slab_contract (e_chunk e) \<and> e_tree_mem e = (\<lambda>_. True) \<and> tail_repair_time (e_cfg e) = 0"

definition request_ok :: "env \<Rightarrow> request \<Rightarrow> bool" where
  "request_ok e req \<longleftrightarrow> (case req of
      Set key fl exp block \<Rightarrow> key \<noteq> [] \<and> int (length block) + 15 \<le> INT_MAX
        \<and> item_total (e_cfg e) (length key) fl (int (length block)) \<le> slab_chunk_size_max (e_cfg e)
    | _ \<Rightarrow> True)"

lemma map_le_drop: "m' \<subseteq>\<^sub>m m \<Longrightarrow> ran (m'(key := None)) \<subseteq> ran m"
  using map_le_ran [of m' m] ran_drop [of m' key] by blast

lemma set_refused:
  assumes ok: "kv_ok (e_hash e) m (\<lambda>_. 0) (cache s)" and s: "stored_ok val xs m (cache s)" "merkle s = Some mt" "mt_rep mt ys"
    "total_items (cache s) = word_of_nat (length xs)"
  shows "\<exists>s'. bindO (item_get e key False s) (\<lambda>(s, it). case it of
              None \<Rightarrow> Some (Inr (s, r))
            | Some a \<Rightarrow> bindO (item_unlink e a s) (\<lambda>s. bindO (item_remove a s) (\<lambda>s. Some (Inr (s, r))))) = Some (Inr (s', r))
     \<and> tree_add_failures s' = tree_add_failures s \<and> tree_verify_failures s' = tree_verify_failures s
     \<and> server_ok (e_hash e) (val(key := None)) xs ys s'"
proof -
  obtain k' i where k': "do_item_get (e_cfg e) (e_now e) (e_room e) key (e_hash e key) False (cache s) = Some (Inr (k', i))"
    "only_recency (cache s) k'" "case i of None \<Rightarrow> kv_ok (e_hash e) (m(key := None)) (\<lambda>_. 0) k'
      | Some a \<Rightarrow> m key = Some a \<and> (\<exists>k1 k2. do_item_unlink a (e_hash e key) k' = Some (Inr k1) \<and> do_item_remove a k1 = Inr k2
          \<and> only_recency (cache s) k2 \<and> kv_ok (e_hash e) (m(key := None)) (\<lambda>_. 0) k2)"
    using cached.visit_unlink [OF ok, of "e_cfg e" "e_now e" "e_room e" key False] by auto
  show ?thesis
  proof (cases i)
    case None
    then show ?thesis using k' server_ok_forget [OF _ same_store_recency [OF k'(2)] s] by (auto simp: item_get_def)
  next
    case (Some a)
    then obtain k1 k2 where a: "m key = Some a" and k2: "do_item_unlink a (e_hash e key) k' = Some (Inr k1)" "do_item_remove a k1 = Inr k2"
      "only_recency (cache s) k2" "kv_ok (e_hash e) (m(key := None)) (\<lambda>_. 0) k2" using k'(3) by auto
    have key: "ikey (items k' a) = key" using kv_ok_key [OF ok a] k'(2) same_contentD [of "items (cache s)" "items k'" a] by (simp add: only_recency_def)
    then show ?thesis using k'(1) Some k2(1,2) server_ok_forget [OF k2(4) same_store_recency [OF k2(3)] s]
      by (auto simp: item_get_def item_unlink_def item_remove_def lift_kv_def)
  qed
qed

lemma item_alloc_set:
  assumes ok: "kv_ok hash m (\<lambda>_. 0) k" and st: "stored_ok val xs m k" and al: "alloced hash m (\<lambda>_. 0) k k1 (Some a)"
  obtains m' where "kv_ok hash m' ((\<lambda>_. 0)(a := 1)) k1" "a \<notin> ran m'" "stored_ok val xs m' k1" "total_items k1 = total_items k" "m' \<subseteq>\<^sub>m m" "bump_refs k1 a = 0"
proof -
  obtain m' where m': "m' \<subseteq>\<^sub>m m" "total_items k1 = total_items k" "a \<notin> ran m'" "kv_ok hash m' ((\<lambda>_. 0)(a := 1)) k1"
    "\<forall>x. x \<noteq> a \<longrightarrow> content (items k1 x) = content (items k x)" "mac (items k1 a) = mac (items k a)"
    "bump_refs k1 a = 0" using al by (auto simp: alloced_def)
  have mac: "mac (items k1 x) = mac (items k x)" for x using m'(5,6) by (cases "x = a") (auto simp: content_def)
  have "ikey (items k1 x) = ikey (items k x)" "nbytes (items k1 x) = nbytes (items k x)" "mt_index (items k1 x) = mt_index (items k x)"
    "idata (items k1 x) = idata (items k x)" if "x \<in> ran m'" for x using m'(3,5) that unfolding content_def by (metis prod.inject)+
  then have "stored_ok val xs m' k1" using st mac map_le_ran [OF m'(1)] by (auto simp: stored_ok_def authentic_def)
  then show ?thesis using that m' by blast
qed

lemma data_block_ok:
  assumes ok: "kv_ok (e_hash e) m ((\<lambda>_. 0)(a := 1)) k" and a: "a \<notin> ran m" and st: "stored_ok val xs m k"
    and it: "ikey (items k a) = key" "key \<noteq> []" "nbytes (items k a) = int (length block)" "\<not> has_flag (items k a) ITEM_CHUNKED"
    and len: "length block \<ge> 2" "int (length block) + 15 \<le> INT_MAX"
    and mt: "merkle s = Some mt" "mt_rep mt ys" "total_items k = word_of_nat (length xs)" "length xs < 2 ^ 26" "length ys < 2 ^ 26" "e_tree_mem e = (\<lambda>_. True)"
  shows "\<exists>s' r. complete_nread_ascii e NREAD_SET False a (s\<lparr>cache := set_item a (\<lambda>it. (ITEM_set_cas 0 it)\<lparr>idata := block\<rparr>) k\<rparr>) = Some (Inr (s', r))
     \<and> served (e_hash e) val xs ys (Set key fl exp block) s s' (Some r)
     \<and> (drop (length block - 2) block = [13, 10] \<longrightarrow> r = Stored STORED)
     \<and> (r = Stored STORED \<longrightarrow> linked_until (e_hash e) key (exptime (items k a)) (length xs) s')"
proof -
  let ?f = "\<lambda>it. (ITEM_set_cas 0 it)\<lparr>idata := block\<rparr>"
  let ?k = "set_item a ?f k"
  have f: "soft_change it (?f it)" "ikey (?f it) = ikey it" "nbytes (?f it) = nbytes it" "mac (?f it) = mac it" "it_flags (?f it) = it_flags it" "exptime (?f it) = exptime it" for it
    by (simp_all add: soft_change_def ITEM_set_cas_def has_flag_def)
  have "stored_ok val xs m ?k" using st by (intro stored_ok_unlinked [OF st a]) (simp add: f stored_ok_def)
  moreover have "kv_ok (e_hash e) m ((\<lambda>_. 0)(a := 1)) ?k" by (rule kv_ok_soft [OF ok]) (rule f(1))
  ultimately show ?thesis
    using complete_set_ok [of e m a "s\<lparr>cache := ?k\<rparr>" val xs key block mt ys fl exp] a it len mt f(6) [of "items k a"] by (simp add: f has_flag_def served_def)
qed

text \<open>The allocator grants the first request for a chunk.\<close>

definition granted :: "env \<Rightarrow> byte list \<Rightarrow> u32 \<Rightarrow> byte list \<Rightarrow> server \<Rightarrow> bool" where
  "granted e key fl block s \<longleftrightarrow> lru_segmented (e_cfg e) \<and> e_chunk e 0 (cache s) \<noteq> None
     \<and> e_clsid e (item_total (e_cfg e) (length key) fl (int (length block))) \<noteq> 0 \<and> length key \<le> KEY_MAX_LENGTH"

lemma do_item_alloc_granted:
  assumes "do_item_alloc cfg now hash busy chunk clsid key fl exp nb k = Some (Inr (k', r))"
    and "lru_segmented cfg" and "chunk 0 k = Some a" and "clsid (item_total cfg (length key) fl nb) \<noteq> 0" and "nb \<ge> 2"
  shows "r = Some a"
  using assms by (auto simp: do_item_alloc_def do_item_alloc_pull_def alloc_pull_loop.simps [of _ _ _ _ _ _ 0] Let_def split: if_splits)

lemma process_set_ok:
  assumes ok: "server_ok (e_hash e) val xs ys s" and env: "env_ok (e_hash e) e" and req: "request_ok e (Set key fl exp block)" and room: "length xs < 2 ^ 26" "length ys < 2 ^ 26"
  shows "\<exists>s' r. process_update_command e NREAD_SET key fl exp (int (length block) - 2) 0 block s = Some (Inr (s', r))
     \<and> served (e_hash e) val xs ys (Set key fl exp block) s s' (Some r)
     \<and> (r = Stored STORED \<longrightarrow> linked_until (e_hash e) key exp (length xs) s')
     \<and> (granted e key fl block s \<and> length block \<ge> 2 \<and> drop (length block - 2) block = [13, 10] \<longrightarrow> r = Stored STORED)"
proof (cases "length key > KEY_MAX_LENGTH \<or> length block < 2")
  case True
  then show ?thesis using ok by (auto simp: process_update_command_def served_simps granted_def)
next
  case False
  have r: "key \<noteq> []" "int (length block) + 15 \<le> INT_MAX" "item_total (e_cfg e) (length key) fl (int (length block)) \<le> slab_chunk_size_max (e_cfg e)"
    using req by (simp_all add: request_ok_def)
  obtain m mt where s: "kv_ok (e_hash e) m (\<lambda>_. 0) (cache s)" "stored_ok val xs m (cache s)" "merkle s = Some mt" "mt_rep mt ys"
    "total_items (cache s) = word_of_nat (length xs)" using server_ok_cache [OF ok] .
  have env: "slab_contract (e_chunk e)" "e_tree_mem e = (\<lambda>_. True)" "tail_repair_time (e_cfg e) = 0" using env by (auto simp: env_ok_def)
  have p: "pullable (e_cfg e) m (\<lambda>_. 0) (cache s)" by (rule stored_pullable [OF s(1,2)]) (simp_all add: env)
  obtain k1 i where k1: "do_item_alloc (e_cfg e) (e_now e) (e_hash e) (e_busy e) (e_chunk e) (e_clsid e) key fl exp (int (length block)) (cache s) = Some (Inr (k1, i))"
    "alloced (e_hash e) m (\<lambda>_. 0) (cache s) k1 i"
    "\<forall>a. i = Some a \<longrightarrow> ikey (items k1 a) = key \<and> nbytes (items k1 a) = int (length block) \<and> exptime (items k1 a) = exp
       \<and> has_flag (items k1 a) ITEM_CHUNKED = (item_total (e_cfg e) (length key) fl (int (length block)) > slab_chunk_size_max (e_cfg e))"
    using do_item_alloc_ok [OF s(1) p env(1)] by blast
  have guard: "\<not> (int (length block) - 2 < 0 \<or> int (length block) - 2 > INT_MAX - 2)" using False r(2) by linarith
  show ?thesis
  proof (cases i)
    case None
    then obtain m' where m': "m' \<subseteq>\<^sub>m m" "kv_ok (e_hash e) m' (\<lambda>_. 0) k1" "only_recency (cache s) k1" using k1(2) by (auto simp: alloced_def)
    let ?s = "s\<lparr>cache := k1\<rparr>" and ?r = "Stored (if item_size_ok (e_cfg e) (e_clsid e) (length key) fl (int (length block)) then NO_MEMORY else TOO_LARGE)"
    have st: "stored_ok val xs m' (cache ?s)" using stored_ok_same [OF s(2) same_store_recency [OF m'(3)] map_le_ran [OF m'(1)]] by simp
    obtain s' where "bindO (item_get e key False ?s) (\<lambda>(s, it). case it of
              None \<Rightarrow> Some (Inr (s, ?r))
            | Some a \<Rightarrow> bindO (item_unlink e a s) (\<lambda>s. bindO (item_remove a s) (\<lambda>s. Some (Inr (s, ?r))))) = Some (Inr (s', ?r))"
      "tree_add_failures s' = tree_add_failures s" "tree_verify_failures s' = tree_verify_failures s" "server_ok (e_hash e) (val(key := None)) xs ys s'"
      using set_refused [of e m' ?s val xs mt ys key ?r] m' st s(3-5) by (auto simp: only_recency_def)
    moreover have "\<not> granted e key fl block s"
      using do_item_alloc_granted [OF k1(1)] None False unfolding granted_def by force
    ultimately show ?thesis using False guard k1(1) None
      by (intro exI [of _ s'] exI [of _ ?r] conjI, simp add: process_update_command_def item_alloc_def Let_def)
        (auto simp: served_def observe_def answer_ok_def leaves_def)
  next
    case (Some a)
    then obtain m' where m': "kv_ok (e_hash e) m' ((\<lambda>_. 0)(a := 1)) k1" "a \<notin> ran m'" "stored_ok val xs m' k1" "total_items k1 = total_items (cache s)"
      using item_alloc_set [OF s(1,2)] k1(2) by blast
    then obtain s' q where "complete_nread_ascii e NREAD_SET False a (s\<lparr>cache := set_item a (\<lambda>it. (ITEM_set_cas 0 it)\<lparr>idata := block\<rparr>) k1\<rparr>) = Some (Inr (s', q))"
      "served (e_hash e) val xs ys (Set key fl exp block) s s' (Some q)" "drop (length block - 2) block = [13, 10] \<longrightarrow> q = Stored STORED"
      "q = Stored STORED \<longrightarrow> linked_until (e_hash e) key exp (length xs) s'"
      using data_block_ok [of e m' a k1 val xs key block s mt ys fl exp] k1(3) Some r False s(3-5) room env(2) by auto
    then show ?thesis using False guard k1(1) Some
      by (intro exI [of _ s'] exI [of _ q] conjI) (simp_all add: process_update_command_def item_alloc_def)
  qed
qed

end
