(* ===== verification/Kvs_Integrity.thy ===== *)
theory Kvs_Integrity
  imports Kvs_Invariant
begin

text \<open>
  Runs of the server from its start, and what they show of the integrity layer: values that were stored are read back with a successful check, a forged code is
  detected unless SHA-256 has a collision, and the attacks and request sequences that the layer does not withstand. The last section has a small
  server on which the statements are applied.
\<close>

section \<open>Runs\<close>

lemma serve_ok:
  assumes ok: "server_ok hash val xs xs s" and env: "env_ok hash e" and req: "request_ok e req" and room: "length xs < 2 ^ 26"
  shows "\<exists>s' r. serve e req s = Some (Inr (s', r)) \<and> served hash val xs xs req s s' r"
proof (cases req)
  case (Set key fl exp block)
  then show ?thesis using process_set_ok [of e val xs xs s key fl exp block] ok env req room by (fastforce simp: env_ok_def serve_def)
next
  case (Get key exp touch)
  then show ?thesis using process_get_ok [of e val xs s key exp touch] ok env by (fastforce simp: env_ok_def serve_def)
next
  case (Delete key)
  then show ?thesis using process_delete_ok [of e val xs s key] ok env by (fastforce simp: env_ok_def serve_def)
next
  case (Touch key exp)
  then show ?thesis using process_touch_ok [of e val xs s key exp] ok env by (fastforce simp: env_ok_def serve_def)
next
  case Bumps
  then show ?thesis using bumps_served [of e val xs s] ok env by (auto simp: env_ok_def)
next
  case (Juggle hot_age warm_age cls)
  then show ?thesis using juggle_served [of e val xs s hot_age warm_age cls] ok env by (auto simp: env_ok_def)
qed

text \<open>The answers to a sequence of requests, and what is known and recorded after it.\<close>

fun answers_ok :: "(byte list \<rightharpoonup> byte list) \<Rightarrow> (env \<times> request) list \<Rightarrow> reply option list \<Rightarrow> bool" where
  "answers_ok val ((e, req) # evs) (r # rs) \<longleftrightarrow> answer_ok val req r \<and> answers_ok (observe req r val) evs rs"
| "answers_ok val [] [] \<longleftrightarrow> True"
| "answers_ok val _ _ \<longleftrightarrow> False"

fun run_leaves :: "(env \<times> request) list \<Rightarrow> reply option list \<Rightarrow> byte list list \<Rightarrow> byte list list" where
  "run_leaves ((e, req) # evs) (r # rs) xs = run_leaves evs rs (leaves req r xs)"
| "run_leaves _ _ xs = xs"

fun run_values :: "(env \<times> request) list \<Rightarrow> reply option list \<Rightarrow> (byte list \<rightharpoonup> byte list) \<Rightarrow> (byte list \<rightharpoonup> byte list)" where
  "run_values ((e, req) # evs) (r # rs) val = run_values evs rs (observe req r val)"
| "run_values _ _ val = val"

lemma leaves_length: "length (leaves req r xs) \<le> length xs + 1"
  by (simp add: leaves_def split: request.split)

definition admissible :: "(byte list \<Rightarrow> u32) \<Rightarrow> (env \<times> request) list \<Rightarrow> bool" where
  "admissible hash evs \<longleftrightarrow> list_all (\<lambda>(e, req). env_ok hash e \<and> request_ok e req) evs"

lemma kvs_run_ok:
  assumes "server_ok hash val xs xs s" and "admissible hash evs" and "length xs + length evs \<le> 2 ^ 26"
  shows "\<exists>s' rs. kvs_run evs s = Some (Inr (s', rs)) \<and> answers_ok val evs rs \<and> tree_verify_failures s' = tree_verify_failures s
     \<and> tree_add_failures s' = tree_add_failures s \<and> server_ok hash (run_values evs rs val) (run_leaves evs rs xs) (run_leaves evs rs xs) s'
     \<and> length (run_leaves evs rs xs) \<le> length xs + length evs"
  using assms
proof (induction evs arbitrary: val xs s)
  case (Cons ev evs)
  obtain e req where ev: "ev = (e, req)" by force
  then have adm: "env_ok hash e" "request_ok e req" "admissible hash evs" using Cons.prems(2) by (simp_all add: admissible_def)
  obtain s1 r where s1: "serve e req s = Some (Inr (s1, r))" "served hash val xs xs req s s1 r"
    using serve_ok [OF Cons.prems(1) adm(1,2)] Cons.prems(3) by auto
  have l: "length (leaves req r xs) \<le> length xs + 1" by (rule leaves_length)
  obtain s' rs where "kvs_run evs s1 = Some (Inr (s', rs))" "answers_ok (observe req r val) evs rs" "tree_verify_failures s' = tree_verify_failures s1"
    "tree_add_failures s' = tree_add_failures s1"
    "server_ok hash (run_values evs rs (observe req r val)) (run_leaves evs rs (leaves req r xs)) (run_leaves evs rs (leaves req r xs)) s'"
    "length (run_leaves evs rs (leaves req r xs)) \<le> length (leaves req r xs) + length evs"
    using Cons.IH [OF _ adm(3), of "observe req r val" "leaves req r xs" s1] s1(2) l Cons.prems(3) by (auto simp: served_def)
  then show ?case using s1 ev l by (auto simp: served_def intro!: exI [of _ s'] exI [of _ "r # rs"])
qed simp

lemma kvs_start_ok:
  assumes "kvs_start table_mem hp tree_mem level_mem = Inr s" and "hp < 32" and "merkle s \<noteq> None"
  shows "server_ok hash Map.empty [] [] s" "tree_add_failures s = 0" "tree_verify_failures s = 0"
proof -
  obtain t where t: "assoc_init table_mem hp assoc_static = Some t"
    and s: "s = \<lparr>cache = kv_static t, merkle = Some mt_new, tstats = thread_stats_zero, tree_add_failures = 0, tree_verify_failures = 0\<rparr>"
    using assms(1,3) by (auto simp: kvs_start_def mt_create_eq split: option.splits if_splits)
  have "hashpower t < 32" using t assms(2) by (auto simp: assoc_init_def assoc_static_def Let_def split: if_splits)
  then have "assoc_rep hash (items (kv_static t)) t Map.empty" by (intro assoc_init_map [OF t]) (simp_all add: assoc_static_def)
  then have "kv_inv hash Map.empty (\<lambda>_. []) (\<lambda>_. 0) (kv_static t)"
    by (auto simp: kv_inv_def kv_static_def lrus_ok_def refs_ok_def counts_ok_def first_def final_def)
  then have "kv_ok hash Map.empty (\<lambda>_. 0) (kv_static t)"
    unfolding kv_ok_def by (auto simp: kv_static_def bump_refs_def)
  moreover have "stored_ok Map.empty [] Map.empty (kv_static t)" by (simp add: stored_ok_def kv_static_def item_free_chunk_def)
  ultimately show "server_ok hash Map.empty [] [] s" using mt_new_rep unfolding s server_ok_def by (auto simp: kv_static_def)
qed (use assms in \<open>auto simp: kvs_start_def bindE_eq_Inr split: option.splits\<close>)

text \<open>A run from the start of the server.\<close>

definition started :: "(byte list \<Rightarrow> u32) \<Rightarrow> nat \<Rightarrow> (env \<times> request) list \<Rightarrow> server \<Rightarrow> reply option list \<Rightarrow> bool" where
  "started hash hp evs s rs \<longleftrightarrow> hp < 32 \<and> admissible hash evs \<and> length evs < 2 ^ 26
     \<and> (\<exists>s0. kvs_start True hp True (\<lambda>_. True) = Inr s0 \<and> kvs_run evs s0 = Some (Inr (s, rs)))"

lemma started_ok:
  assumes "started hash hp evs s rs"
  shows "server_ok hash (run_values evs rs Map.empty) (run_leaves evs rs []) (run_leaves evs rs []) s" "length (run_leaves evs rs []) < 2 ^ 26"
proof -
  obtain s0 where s0: "kvs_start True hp True (\<lambda>_. True) = Inr s0" "kvs_run evs s0 = Some (Inr (s, rs))" using assms by (auto simp: started_def)
  have "merkle s0 \<noteq> None" using s0(1) by (auto simp: kvs_start_def mt_create_eq split: option.splits)
  then have "server_ok hash Map.empty [] [] s0" using kvs_start_ok(1) [OF s0(1)] assms by (simp add: started_def)
  from kvs_run_ok [OF this, of evs] assms s0(2)
  show "server_ok hash (run_values evs rs Map.empty) (run_leaves evs rs []) (run_leaves evs rs []) s" "length (run_leaves evs rs []) < 2 ^ 26"
    by (auto simp: started_def)
qed

section \<open>Reading an item\<close>

lemma bindO_InrD: "bindO r f = Some (Inr y) \<Longrightarrow> \<exists>x. r = Some (Inr x) \<and> f x = Some (Inr y)"
  by (auto simp: bindO_def split: option.splits sum.splits)

lemma process_get_value:
  assumes ok: "kv_ok (e_hash e) m (\<lambda>_. 0) (cache s)" and a: "m key = Some a" and it: "it = items (cache s) a"
    and r: "process_get_command e key exp touch s = Some (Inr (s', Value k fl c v r))"
  shows "k = key" "mt_verify (merkle s) (Some (mac it)) 16 (mt_index it) = Inr r" "arr_read (idata it) 0 (nat (nbytes it)) = Inr v"
proof -
  obtain k' i where k': "limited_get e key exp touch True s = Some (Inr (s\<lparr>cache := k'\<rparr>, i, False))" "same_store (cache s) k'" "case i of
      None \<Rightarrow> kv_ok (e_hash e) (m(key := None)) (\<lambda>_. 0) k' | Some a \<Rightarrow> m key = Some a \<and> kv_ok (e_hash e) m ((\<lambda>_. 0)(a := 1)) k'"
    using limited_get_ok [OF ok] by blast
  have len: "\<not> length key > KEY_MAX_LENGTH" using r by (auto simp: process_get_command_def split: if_splits)
  have "i \<noteq> None"
  proof
    assume "i = None"
    then show False using r k'(1) len by (simp add: process_get_command_def)
  qed
  then have i: "i = Some a" and ok1: "kv_ok (e_hash e) m ((\<lambda>_. 0)(a := 1)) k'" using k'(3) a by auto
  have same: "ikey (items k' a) = ikey it" "nbytes (items k' a) = nbytes it" "mac (items k' a) = mac it" "mt_index (items k' a) = mt_index it"
    "idata (items k' a) = idata it" using k'(2) it by (simp_all add: same_store_def)
  have key: "ikey it = key" using kv_ok_key [OF ok a] it by simp
  show "k = key" "mt_verify (merkle s) (Some (mac it)) 16 (mt_index it) = Inr r" "arr_read (idata it) 0 (nat (nbytes it)) = Inr v"
    using r len k'(1) i same key
    by (auto simp: process_get_command_def Let_def item_remove_def lift_kv_def set_tstats_def split: sum.splits dest!: bindO_InrD)
qed

lemma process_get_live:
  assumes ok: "kv_ok (e_hash e) m (\<lambda>_. 0) (cache s)" and a: "m key = Some a" and it: "it = items (cache s) a"
    and live: "\<not> dead (e_cfg e) (e_now e) it" and len: "length key \<le> KEY_MAX_LENGTH"
    and v: "mt_verify (merkle s) (Some (mac it)) 16 (mt_index it) = Inr r" and rd: "arr_read (idata it) 0 (nat (nbytes it)) = Inr v"
  shows "\<exists>s' fl c. process_get_command e key exp False s = Some (Inr (s', Value key fl c v r))"
proof -
  have "(\<lambda>_. 0) a + bump_refs (cache s) a < 65533" using kv_ok_bump_refs [OF ok, of a] by (simp add: LRU_BUMP_BUF_SIZE_def)
  then obtain k1 where "do_item_get (e_cfg e) (e_now e) (e_room e) key (e_hash e key) True (cache s) = Some (Inr (k1, Some a))"
    using do_item_get_live [OF ok a] live it by blast
  then have get: "item_get e key True s = Some (Inr (s\<lparr>cache := k1\<rparr>, Some a))" by (simp add: item_get_def)
  obtain k' i where k': "limited_get e key exp False True s = Some (Inr (s\<lparr>cache := k'\<rparr>, i, False))" "same_store (cache s) k'" "case i of
      None \<Rightarrow> kv_ok (e_hash e) (m(key := None)) (\<lambda>_. 0) k' | Some a \<Rightarrow> m key = Some a \<and> kv_ok (e_hash e) m ((\<lambda>_. 0)(a := 1)) k'"
    using limited_get_ok [OF ok] by blast
  then have i: "i = Some a" using get by (auto simp: limited_get_def item_remove_def lift_kv_def bindO_def split: if_splits option.splits sum.splits)
  then have ok1: "kv_ok (e_hash e) m ((\<lambda>_. 0)(a := 1)) k'" using k'(3) by simp
  have same: "ikey (items k' a) = ikey it" "nbytes (items k' a) = nbytes it" "mac (items k' a) = mac it" "mt_index (items k' a) = mt_index it"
    "idata (items k' a) = idata it" using k'(2) it by (simp_all add: same_store_def)
  have key: "ikey it = key" using kv_ok_key [OF ok a] it by simp
  obtain k2 where "do_item_remove a k' = Inr k2" using cached.release_law [OF ok1, of a] by auto
  then show ?thesis using k'(1) i same key len v rd
    by (auto simp: process_get_command_def Let_def item_remove_def lift_kv_def set_tstats_def)
qed

lemma kv_ok_find_iff: "kv_ok hash m held k \<Longrightarrow> assoc_find (items k) (table k) key (hash key) = Some (Inr r) \<longleftrightarrow> m key = r"
  by (auto simp: kv_ok_find)

lemma verify_in_range: "mt_rep mt xs \<Longrightarrow> mt_verify (Some mt) tag len off = Inr MT_SUCCESS \<Longrightarrow> unat off < length xs"
  by (auto simp: mt_verify_def mt_rep_bounds(4) not_le split: if_splits)

text \<open>Reading an item that the server stored.\<close>

lemma genuine_get:
  assumes ok: "server_ok (e_hash e) val xs xs s" and m: "kv_ok (e_hash e) m (\<lambda>_. 0) (cache s)" "m key = Some a"
    and live: "\<not> dead (e_cfg e) (e_now e) (items (cache s) a)" "length key \<le> KEY_MAX_LENGTH"
  shows "\<exists>s' fl c v. process_get_command e key exp False s = Some (Inr (s', Value key fl c v MT_SUCCESS)) \<and> val key = Some v"
proof -
  let ?it = "items (cache s) a"
  obtain m' mt where s: "kv_ok (e_hash e) m' (\<lambda>_. 0) (cache s)" "stored_ok val xs m' (cache s)" "merkle s = Some mt" "mt_rep mt xs"
    using server_ok_cache [OF ok] by metis
  have "m' key = Some a" using kv_ok_find [OF s(1), of key] kv_ok_find [OF m(1), of key] m(2) by simp
  then have it: "val (ikey ?it) = Some (idata ?it)" "nbytes ?it = int (length (idata ?it))" "authentic xs ?it" "length (mac ?it) = 32"
    using s(2) by (auto simp: stored_ok_def ran_def)
  have tag: "tag_ok (mac ?it) 16" using it(4) by (simp add: tag_ok_def)
  have "mt_verify (merkle s) (Some (mac ?it)) 16 (mt_index ?it) = Inr MT_SUCCESS"
    using mtree.verify_genuine [OF s(4) _ tag] it(3) s(3) by (simp add: authentic_def)
  moreover have "arr_read (idata ?it) 0 (nat (nbytes ?it)) = Inr (idata ?it)" using it(2) by (simp add: arr_read_def)
  ultimately show ?thesis using process_get_live [OF m refl live] it(1) kv_ok_key [OF m] by metis
qed

text \<open>
  What somebody who can write to the memory of an item can do to it: a hypervisor, or an administrator of the host.
\<close>

definition tamper :: "addr \<Rightarrow> byte list \<Rightarrow> u32 \<Rightarrow> byte list \<Rightarrow> server \<Rightarrow> server" where
  "tamper a code i data s = s\<lparr>cache := set_item a (\<lambda>it. it\<lparr>mac := code, mt_index := i, idata := data\<rparr>) (cache s)\<rparr>"

lemma tamper_kv:
  assumes "kv_ok hash m held (cache s)"
  shows "kv_ok hash m held (cache (tamper a code i data s))"
  unfolding tamper_def using kv_ok_soft [OF assms, of a "\<lambda>it. it\<lparr>mac := code, mt_index := i, idata := data\<rparr>"] by (simp add: soft_change_def has_flag_def)

lemma tamper_simps [simp]: "merkle (tamper a code i data s) = merkle s"
  "items (cache (tamper a code i data s)) a = (items (cache s) a)\<lparr>mac := code, mt_index := i, idata := data\<rparr>"
  by (simp_all add: tamper_def)

lemma dead_tampered [simp]: "dead cfg now (it\<lparr>mac := code, mt_index := i, idata := data\<rparr>) = dead cfg now it"
  by (simp add: dead_def item_is_flushed_def ITEM_get_cas_def has_flag_def)

text \<open>Every leaf is a code followed by zero bytes.\<close>

definition code_shaped :: "byte list \<Rightarrow> bool" where
  "code_shaped x \<longleftrightarrow> length x = 32 \<and> drop 16 x = replicate 16 0"

lemma code_leaf_shaped: "int (length block) + 15 \<le> INT_MAX \<Longrightarrow> code_shaped (code_leaf block)"
  using cmac_ok [of block] by (auto simp: code_leaf_def code_shaped_def)

lemma run_leaves_codes: "admissible hash evs \<Longrightarrow> list_all code_shaped xs \<Longrightarrow> list_all code_shaped (run_leaves evs rs xs)"
proof (induction evs rs xs rule: run_leaves.induct)
  case (1 e req evs r rs xs)
  have req: "request_ok e req" and adm: "admissible hash evs" using 1(2) by (auto simp: admissible_def)
  have "list_all code_shaped (leaves req r xs)"
    using 1(3) req by (cases req) (simp_all add: leaves_def request_ok_def code_leaf_shaped)
  then show ?case using 1(1) [OF adm] by simp
qed simp_all

lemma pad_code: "code_shaped x \<Longrightarrow> pad_tag x 16 = x" "code_shaped x \<Longrightarrow> tag_ok x 16"
  by (simp_all add: pad_tag_def code_shaped_def tag_ok_def) (metis append_take_drop_id)




text \<open>
  C17: what the check does not see. The value of a linked item can be overwritten with any bytes of the same length: with the code and the index of any acknowledged store, its own
  included, a get returns these bytes and the check succeeds, because the code is not computed again from the value and the leaves of overwritten values stay in the tree.
\<close>

theorem forged_value_accepted:
  assumes "started hash hp evs s rs" and "env_ok hash e" and "length key \<le> KEY_MAX_LENGTH"
    and "assoc_find (items (cache s)) (table (cache s)) key (hash key) = Some (Inr (Some a))"
    and "\<not> dead (e_cfg e) (e_now e) (items (cache s) a)"
    and "j < length (run_leaves evs rs [])" and "int (length data) = nbytes (items (cache s) a)"
  shows "\<exists>s' fl c. serve e (Get key 0 False) (tamper a (run_leaves evs rs [] ! j) (word_of_nat j) data s)
    = Some (Inr (s', Some (Value key fl c data MT_SUCCESS)))"
proof -
  let ?xs = "run_leaves evs rs []"
  have h: "e_hash e = hash" using assms(2) by (simp add: env_ok_def)
  obtain m mt where s: "kv_ok hash m (\<lambda>_. 0) (cache s)" "merkle s = Some mt" "mt_rep mt ?xs"
    using server_ok_cache [OF started_ok(1) [OF assms(1)]] by metis
  have a: "m key = Some a" using assms(4) kv_ok_find_iff [OF s(1)] by simp
  have code: "code_shaped (?xs ! j)" using run_leaves_codes [of hash evs "[]" rs] assms(1,6) by (auto simp: started_def list_all_length)
  have j: "unat (word_of_nat j :: u32) = j" using assms(6) started_ok(2) [OF assms(1)] by (simp add: unat_of_nat)
  have v: "mt_verify (Some mt) (Some (?xs ! j)) 16 (word_of_nat j) = Inr MT_SUCCESS"
    using mtree.verify_genuine [OF s(3) _ pad_code(2) [OF code], of "word_of_nat j"] pad_code(1) [OF code] j assms(6) by simp
  have "arr_read data 0 (nat (nbytes (items (cache s) a))) = Inr data" using assms(7) by (simp add: arr_read_def flip: assms(7))
  then have "\<exists>s' fl c. process_get_command e key 0 False (tamper a (?xs ! j) (word_of_nat j) data s) = Some (Inr (s', Value key fl c data MT_SUCCESS))"
    by (intro process_get_live [OF tamper_kv [OF s(1) [folded h]] a refl]) (use assms(3,5) v s(2) in simp_all)
  then show ?thesis by (auto simp: serve_def)
qed

lemma released_slabbed:
  assumes ok: "kv_ok hash m ((\<lambda>_. 0)(a := 1)) k" and a: "a \<notin> ran m" "bump_refs k a = 0" and r: "do_item_remove a k = Inr k'"
  shows "it_flags (items k' a) = ITEM_SLABBED"
proof -
  obtain q where inv: "kv_inv hash m q (\<lambda>x. ((\<lambda>_. 0)(a := 1)) x + bump_refs k x) k" using ok by (auto simp: kv_ok_def)
  have "unat (refcount (items k a)) = 1" using refs_okD(3) [OF kv_invD(4) [OF inv], of a] a by simp
  then have "refcount (items k a) = 1" by (metis unat_1 word_unat_eq_iff)
  then show ?thesis using r by (auto simp: do_item_remove_def item_free_def slabs_take_back_def Let_def split: if_splits)
qed

lemma replace_missing:
  assumes ok: "kv_ok (e_hash e) m ((\<lambda>_. 0)(a := 1)) k" and a: "a \<notin> ran m" "m key = None" "bump_refs k a = 0" and st: "stored_ok val xs m k"
    and it: "ikey (items k a) = key" "nbytes (items k a) = int (length block)" "\<not> has_flag (items k a) ITEM_CHUNKED"
    and len: "length block \<ge> 2" "int (length block) + 15 \<le> INT_MAX" "drop (length block - 2) block = [13, 10]"
    and mt: "merkle s = Some mt" "mt_rep mt ys" "total_items k = word_of_nat (length xs)" "length ys < 2 ^ 26" "e_tree_mem e = (\<lambda>_. True)"
  shows "\<exists>s'. complete_nread_ascii e NREAD_REPLACE False a (s\<lparr>cache := set_item a (\<lambda>it. (ITEM_set_cas 0 it)\<lparr>idata := block\<rparr>) k\<rparr>)
      = Some (Inr (s', Stored NOT_STORED)) \<and> server_ok (e_hash e) val xs (ys @ [code_leaf block]) s' \<and> it_flags (items (cache s') a) = ITEM_SLABBED"
proof -
  let ?f = "\<lambda>it. (ITEM_set_cas 0 it)\<lparr>idata := block\<rparr>"
  let ?k = "set_item a ?f k"
  define s1 where "s1 = set_tstats (\<lambda>t. t\<lparr>set_cmds := (set_cmds t)(ITEM_clsid (?f (items k a)) := set_cmds t (ITEM_clsid (?f (items k a))) + 1)\<rparr>) (s\<lparr>cache := ?k\<rparr>)"
  have s1: "cache s1 = ?k" "merkle s1 = merkle s" by (simp_all add: s1_def set_tstats_def)
  have f: "soft_change it (?f it)" "ikey (?f it) = ikey it" "nbytes (?f it) = nbytes it" "mac (?f it) = mac it" "it_flags (?f it) = it_flags it" for it
    by (simp_all add: soft_change_def ITEM_set_cas_def has_flag_def)
  have ok1: "kv_ok (e_hash e) m ((\<lambda>_. 0)(a := 1)) (cache s1)" unfolding s1 by (rule kv_ok_soft [OF ok]) (rule f(1))
  have st1: "stored_ok val xs m ?k" using st by (intro stored_ok_unlinked [OF st a(1)]) (simp add: f stored_ok_def)
  obtain T where T: "AES_CMAC cmac_key block (int (length block)) = Inr T" "length T = 16" using cmac_ok [OF len(2)] by blast
  have it1: "length (mac (items (cache s1) a)) = 32" "idata (items (cache s1) a) = block" "nbytes (items (cache s1) a) = int (length block)" "merkle s1 = Some mt"
    using st it(2) mt(1) by (simp_all add: s1 stored_ok_def f)
  from leaf_recorded [OF ok1 it1(1-3) T it1(4) mt(2,4,5)] obtain k2 s2 s' mt' where s': "authenticate False a (cache s1) = Inr k2"
    "add_leaf e a (s1\<lparr>cache := k2\<rparr>) = Inr s2" "item_remove a s2 = Some (Inr s')" "tree_add_failures s' = tree_add_failures s1" "tree_verify_failures s' = tree_verify_failures s1"
    "merkle s' = Some mt'" "mt_rep mt' (ys @ [code_leaf block])"
    "kv_ok (e_hash e) m (\<lambda>_. 0) (cache s')"
    "only_recency (set_item a (\<lambda>it. it\<lparr>mac := T @ drop 16 (mac it), mt_index := ucast (total_items (cache s1)) - 1\<rparr>) (cache s1)) (cache s')"
    "do_item_remove a (set_item a (\<lambda>it. it\<lparr>mac := T @ drop 16 (mac it), mt_index := ucast (total_items (cache s1)) - 1\<rparr>) (cache s1)) = Inr (cache s')" .
  have "it_flags (items (cache s') a) = ITEM_SLABBED"
  proof (rule released_slabbed [OF _ a(1) _ s'(10)])
    show "kv_ok (e_hash e) m ((\<lambda>_. 0)(a := 1)) (set_item a (\<lambda>it. it\<lparr>mac := T @ drop 16 (mac it), mt_index := ucast (total_items (cache s1)) - 1\<rparr>) (cache s1))"
      by (rule kv_ok_soft [OF ok1]) (simp add: soft_change_def has_flag_def)
  qed (use a(3) in \<open>simp add: s1 bump_refs_def\<close>)
  moreover have "stored_ok val xs m (set_item a (\<lambda>it. it\<lparr>mac := T @ drop 16 (mac it), mt_index := ucast (total_items (cache s1)) - 1\<rparr>) (cache s1))"
    using it1(1) T(2) st1 s1(1) by (intro stored_ok_unlinked [OF _ a(1)]) simp_all
  then have "server_ok (e_hash e) val xs (ys @ [code_leaf block]) s'"
    using stored_ok_same [OF _ same_store_recency [OF s'(9)] subset_refl] s'(6-9) mt(3) unfolding server_ok_def
    by (auto simp: only_recency_def s1)
  moreover have "store_item e NREAD_REPLACE False a s1 = Some (Inr (s1, NOT_STORED))"
    using do_item_get_none [OF ok1, of key] a(2) it(1) by (simp add: store_item_def do_store_item_def s1 f)
  moreover have "nat (int (length block) - 2) + 2 \<le> length block" using len(1) by simp
  then have "arr_read block (int (length block) - 2) 2 = Inr [13, 10]" using len(1,3) by (simp add: arr_read_def nat_diff_distrib)
  ultimately show ?thesis using s'(1-3) it(2,3)
    by (intro exI [of _ s']) (simp add: complete_nread_ascii_def Let_def s1_def [symmetric] f has_flag_def s1)
qed

lemma replace_ok:
  assumes ok: "server_ok (e_hash e) val xs xs s" and "length xs < 2 ^ 26" and env: "env_ok (e_hash e) e" and req: "request_ok e (Set key fl exp (v @ [13, 10]))"
    and g: "granted e key fl (v @ [13, 10]) s" and none: "assoc_find (items (cache s)) (table (cache s)) key (e_hash e key) = Some (Inr None)"
  shows "\<exists>s'. process_update_command e NREAD_REPLACE key fl exp (int (length v)) 0 (v @ [13, 10]) s = Some (Inr (s', Stored NOT_STORED))
     \<and> server_ok (e_hash e) val xs (xs @ [code_leaf (v @ [13, 10])]) s' \<and> (\<exists>a. e_chunk e 0 (cache s) = Some a \<and> it_flags (items (cache s') a) = ITEM_SLABBED)"
proof -
  let ?block = "v @ [13, 10]"
  have r: "key \<noteq> []" "int (length ?block) + 15 \<le> INT_MAX" "item_total (e_cfg e) (length key) fl (int (length ?block)) \<le> slab_chunk_size_max (e_cfg e)"
    using req by (simp_all add: request_ok_def)
  obtain m mt where s: "kv_ok (e_hash e) m (\<lambda>_. 0) (cache s)" "stored_ok val xs m (cache s)" "merkle s = Some mt" "mt_rep mt xs"
    "total_items (cache s) = word_of_nat (length xs)" using server_ok_cache [OF ok] .
  have env: "slab_contract (e_chunk e)" "e_tree_mem e = (\<lambda>_. True)" "tail_repair_time (e_cfg e) = 0" using env by (auto simp: env_ok_def)
  have p: "pullable (e_cfg e) m (\<lambda>_. 0) (cache s)" by (rule stored_pullable [OF s(1,2)]) (simp_all add: env)
  obtain k1 i where k1: "do_item_alloc (e_cfg e) (e_now e) (e_hash e) (e_busy e) (e_chunk e) (e_clsid e) key fl exp (int (length ?block)) (cache s) = Some (Inr (k1, i))"
    "alloced (e_hash e) m (\<lambda>_. 0) (cache s) k1 i"
    "\<forall>a. i = Some a \<longrightarrow> ikey (items k1 a) = key \<and> nbytes (items k1 a) = int (length ?block) \<and> exptime (items k1 a) = exp
       \<and> has_flag (items k1 a) ITEM_CHUNKED = (item_total (e_cfg e) (length key) fl (int (length ?block)) > slab_chunk_size_max (e_cfg e))"
    using do_item_alloc_ok [OF s(1) p env(1)] by blast
  obtain a where chunk: "e_chunk e 0 (cache s) = Some a" using g by (auto simp: granted_def)
  have a: "i = Some a" by (rule do_item_alloc_granted [OF k1(1) _ chunk]) (use g in \<open>simp_all add: granted_def\<close>)
  obtain m' where m': "kv_ok (e_hash e) m' ((\<lambda>_. 0)(a := 1)) k1" "a \<notin> ran m'" "stored_ok val xs m' k1" "total_items k1 = total_items (cache s)" "m' \<subseteq>\<^sub>m m" "bump_refs k1 a = 0"
    using item_alloc_set [OF s(1,2)] k1(2) a by blast
  have "m' key = None" using m'(5) kv_ok_find_iff [OF s(1)] none unfolding map_le_def dom_def by fastforce
  then obtain s' where "complete_nread_ascii e NREAD_REPLACE False a (s\<lparr>cache := set_item a (\<lambda>it. (ITEM_set_cas 0 it)\<lparr>idata := ?block\<rparr>) k1\<rparr>)
      = Some (Inr (s', Stored NOT_STORED))" "server_ok (e_hash e) val xs (xs @ [code_leaf ?block]) s'" "it_flags (items (cache s') a) = ITEM_SLABBED"
    using replace_missing [of e m' a k1 key val xs ?block s mt xs] m' k1(3) a r s(3-5) assms(2) env(2) by auto
  then show ?thesis using k1(1) a r(2) g chunk by (intro exI [of _ s']) (simp add: process_update_command_def item_alloc_def granted_def add.commute)
qed

text \<open>The tree has one leaf more than the items know of: the next item refers to the leaf before its own.\<close>

lemma shifted_get:
  assumes ok: "server_ok (e_hash e) val xs (xs @ [x]) s" and "length xs + 1 < 2 ^ 26" and env: "env_ok (e_hash e) e" and req: "request_ok e (Set key fl exp (w @ [13, 10]))"
    and g: "granted e key fl (w @ [13, 10]) s" and get: "e_hash e' = e_hash e" "oldest_live (e_cfg e') = 0" "exp = 0 \<or> e_now e' < exp"
  shows "\<exists>s2 s3 fl' c r. serve e (Set key fl exp (w @ [13, 10])) s = Some (Inr (s2, Some (Stored STORED)))
       \<and> serve e' (Get key 0 False) s2 = Some (Inr (s3, Some (Value key fl' c (w @ [13, 10]) r)))
       \<and> (x = code_leaf (w @ [13, 10]) \<or> r = MT_ERR_ROOT_MISMATCH
          \<or> sha256_collision (tree_collision (xs @ [x, code_leaf (w @ [13, 10])]) (xs @ [code_leaf (w @ [13, 10]), code_leaf (w @ [13, 10])])))"
proof -
  let ?w = "w @ [13, 10]"
  let ?y = "code_leaf ?w"
  obtain s2 where s2: "process_update_command e NREAD_SET key fl exp (int (length ?w) - 2) 0 ?w s = Some (Inr (s2, Stored STORED))"
    "served (e_hash e) val xs (xs @ [x]) (Set key fl exp ?w) s s2 (Some (Stored STORED))" "linked_until (e_hash e) key exp (length xs) s2"
    using process_set_ok [OF ok env req] assms(2) g by fastforce
  then obtain m mt where m: "kv_ok (e_hash e') m (\<lambda>_. 0) (cache s2)" "stored_ok (val(key \<mapsto> ?w)) (xs @ [?y]) m (cache s2)" "merkle s2 = Some mt" "mt_rep mt (xs @ [x, ?y])"
    using get(1) by (auto simp: served_def observe_def leaves_def server_ok_def)
  obtain m' a where m': "kv_ok (e_hash e') m' (\<lambda>_. 0) (cache s2)" "m' key = Some a" "exptime (items (cache s2) a) = exp" "unat (mt_index (items (cache s2) a)) = length xs"
    using s2(3) get(1) by (auto simp: linked_until_def)
  have a: "m key = Some a" using kv_ok_find [OF m(1), of key] kv_ok_find [OF m'(1), of key] m'(2) by simp
  let ?it = "items (cache s2) a"
  have "(val(key \<mapsto> ?w)) (ikey ?it) = Some (idata ?it)" "nbytes ?it = int (length (idata ?it))" "authentic (xs @ [?y]) ?it" "length (mac ?it) = 32"
    using m(2) a unfolding stored_ok_def by (blast intro: ranI)+
  then have it: "idata ?it = ?w" "nbytes ?it = int (length ?w)" "pad_tag (mac ?it) 16 = ?y" "tag_ok (mac ?it) 16"
    using kv_ok_key [OF m(1) a] m'(4) by (simp_all add: authentic_def tag_ok_def)
  have live: "\<not> dead (e_cfg e') (e_now e') ?it" using m'(3) get(2,3) by (auto simp: dead_def item_is_flushed_def)
  have upd: "(xs @ [x, ?y])[length xs := ?y] = xs @ [?y, ?y]" by (simp add: list_update_append)
  obtain r where r: "mt_verify (Some mt) (Some (mac ?it)) 16 (mt_index ?it) = Inr r" "r = MT_SUCCESS \<or> r = MT_ERR_ROOT_MISMATCH"
    using mtree.verify_law [OF m(4) _ it(4), of "mt_index ?it"] m'(4) by auto
  have "x = ?y \<or> r = MT_ERR_ROOT_MISMATCH \<or> sha256_collision (tree_collision (xs @ [x, ?y]) (xs @ [?y, ?y]))"
    using mtree.verify_sound [OF m(4) _ it(4), of "mt_index ?it"] r m'(4) it(3) upd by (auto simp: nth_append)
  moreover have "arr_read (idata ?it) 0 (nat (nbytes ?it)) = Inr ?w" using it(1,2) by (simp add: arr_read_def)
  then have "\<exists>s3 fl' c. process_get_command e' key 0 False s2 = Some (Inr (s3, Value key fl' c ?w r))"
    by (intro process_get_live [OF m(1) a refl live]) (use g r(1) m(3) in \<open>simp_all add: granted_def\<close>)
  ultimately show ?thesis using s2(1) by (auto simp: serve_def)
qed

text \<open>
  C18: a replace command for a key that is not there answers NOT_STORED, but leaves a leaf in the tree without counting an item. The next item that is stored gets the index
  of that leaf, and its check fails, unless the codes are equal or SHA-256 has a collision.
\<close>

theorem failed_replace_breaks_next_item:
  assumes "started hash hp evs s rs" and "xs = run_leaves evs rs []" and "length xs + 1 < 2 ^ 26"
    and "env_ok hash e" and "request_ok e (Set key fl exp (v @ [13, 10]))" and "granted e key fl (v @ [13, 10]) s"
    and "assoc_find (items (cache s)) (table (cache s)) key (hash key) = Some (Inr None)"
    and "process_update_command e NREAD_REPLACE key fl exp (int (length v)) 0 (v @ [13, 10]) s = Some (Inr (s1, r1))"
    and "env_ok hash e2" and "request_ok e2 (Set key2 fl2 exp2 (w @ [13, 10]))" and "granted e2 key2 fl2 (w @ [13, 10]) s1"
    and "env_ok hash e3" and "oldest_live (e_cfg e3) = 0" and "exp2 = 0 \<or> e_now e3 < exp2"
    and "x = code_leaf (v @ [13, 10])" and "y = code_leaf (w @ [13, 10])"
  shows "r1 = Stored NOT_STORED
    \<and> (\<exists>s2 s3 fl' c r. serve e2 (Set key2 fl2 exp2 (w @ [13, 10])) s1 = Some (Inr (s2, Some (Stored STORED)))
       \<and> serve e3 (Get key2 0 False) s2 = Some (Inr (s3, Some (Value key2 fl' c (w @ [13, 10]) r)))
       \<and> (x = y \<or> r = MT_ERR_ROOT_MISMATCH \<or> sha256_collision (tree_collision (xs @ [x, y]) (xs @ [y, y]))))"
proof -
  let ?v = "v @ [13, 10]" and ?val = "run_values evs rs Map.empty"
  have h: "e_hash e = hash" "e_hash e2 = hash" "e_hash e3 = hash" using assms(4,9,12) by (simp_all add: env_ok_def)
  have s1: "r1 = Stored NOT_STORED" "server_ok hash ?val xs (xs @ [code_leaf ?v]) s1"
    using replace_ok [of e ?val xs s key fl exp v] started_ok [OF assms(1)] assms(2,4-8) h(1) by auto
  show ?thesis
    using shifted_get [of e2 ?val xs "code_leaf ?v" s1 key2 fl2 exp2 w e3] s1 assms(3,9-11,13-16) h by auto
qed

text \<open>
  C19: the bookkeeping of the items after any such run. The linked items, that is the items that a lookup finds, are counted with their sizes, each has one reference for
  its link and one for each deferred move, and no chunk that was given back to the allocator is linked or waits for a move.
\<close>

theorem cache_bookkeeping:
  assumes "started hash hp evs s rs" and "k = cache s"
    and "L = {a. \<exists>key. assoc_find (items k) (table k) key (hash key) = Some (Inr (Some a))}"
  shows "finite L \<and> curr_items k = word_of_nat (card L) \<and> curr_bytes k = (\<Sum>a\<in>L. ITEM_ntotal (items k a))
    \<and> L \<subseteq> {a. unat (refcount (items k a)) = 1 + count_list (map fst (bump_queue k)) a}
    \<and> (L \<union> fst ` set (bump_queue k)) \<inter> set (slab_freed k) = {}"
proof -
  obtain m where ok: "kv_ok hash m (\<lambda>_. 0) k" using started_ok(1) [OF assms(1)] assms(2) by (auto simp: server_ok_def)
  then obtain q where inv: "kv_inv hash m q (\<lambda>a. 0 + bump_refs k a) k" by (auto simp: kv_ok_def)
  have L: "L = ran m" using kv_ok_find [OF ok] assms(3) by (auto simp: ran_def)
  have "unat (refcount (items k a)) = 1 + count_list (map fst (bump_queue k)) a" if "a \<in> ran m" for a
    using kv_ok_refcount [OF ok that] by (simp add: bump_refs_def)
  moreover have "a \<notin> fst ` set (bump_queue k)" if "bump_refs k a = 0" for a using that by (simp add: bump_refs_def count_list_0_iff)
  then have "a \<notin> ran m \<union> fst ` set (bump_queue k)" if "a \<in> set (slab_freed k)" for a using that kv_invD(6) [OF inv] by simp
  then have "(ran m \<union> fst ` set (bump_queue k)) \<inter> set (slab_freed k) = {}" by blast
  ultimately show ?thesis using kv_invD(5) [OF inv] unfolding L counts_ok_def by auto
qed


section \<open>A small server\<close>

definition demo_cfg :: kv_settings where
  "demo_cfg = \<lparr>use_cas = True, lru_segmented = True, oldest_live = 0, oldest_cas = 0, temp_lru = False, temporary_ttl = 61,
     slab_chunk_size_max = 524288, tail_repair_time = 0, hot_lru_pct = 20, warm_lru_pct = 40, evict_to_free = True, automove_mode = 1\<rparr>"

definition demo_hash :: "byte list \<Rightarrow> u32" where
  "demo_hash key = word_of_nat (length key)"

definition demo_env :: env where
  "demo_env = \<lparr>e_cfg = demo_cfg, e_now = 100, e_hash = demo_hash, e_busy = \<lambda>_. False,
     e_chunk = \<lambda>i k. if it_flags (items k 0) = ITEM_SLABBED then Some 0 else None, e_clsid = \<lambda>_. 1, e_room = True,
     e_tree_mem = \<lambda>_. True, e_copy_chunks = \<lambda>_. True\<rparr>"

lemma demo_env_ok: "env_ok demo_hash demo_env" "oldest_live (e_cfg demo_env) = 0" "e_hash demo_env = demo_hash"
  by (auto simp: env_ok_def demo_env_def demo_cfg_def slab_contract_def)

lemma demo_request: "request_ok demo_env (Set [k] 0 0 [x, 13, 10])"
proof -
  have "item_total demo_cfg 1 0 3 = 93" by code_simp
  then show ?thesis by (simp add: request_ok_def demo_env_def INT_MAX_def) (simp add: demo_cfg_def)
qed

lemma demo_granted: "it_flags (items (cache s) 0) = ITEM_SLABBED \<Longrightarrow> granted demo_env [k] 0 [x, 13, 10] s"
  by (simp add: granted_def demo_env_def demo_cfg_def KEY_MAX_LENGTH_def)

lemma demo_start:
  obtains s where "started demo_hash 1 [] s []" "it_flags (items (cache s) 0) = ITEM_SLABBED"
    "assoc_find (items (cache s)) (table (cache s)) [k] (demo_hash [k]) = Some (Inr None)"
proof -
  obtain s where s: "kvs_start True 1 True (\<lambda>_. True) = Inr s" "merkle s \<noteq> None" "it_flags (items (cache s) 0) = ITEM_SLABBED"
    by (auto simp: kvs_start_def mt_create_eq assoc_init_def Let_def kv_static_def item_free_chunk_def)
  then have st: "started demo_hash 1 [] s []" by (simp add: started_def admissible_def)
  obtain m where m: "kv_ok demo_hash m (\<lambda>_. 0) (cache s)" "stored_ok Map.empty [] m (cache s)"
    using kvs_start_ok(1) [OF s(1) _ s(2), of demo_hash] by (auto simp: server_ok_def)
  have "m [k] = None" using m(2) by (cases "m [k]") (auto simp: stored_ok_def ran_def)
  then show ?thesis using that [OF st s(3)] kv_ok_find [OF m(1)] by simp
qed

lemma demo_stored:
  obtains s a where "started demo_hash 1 [(demo_env, Set [97] 0 0 [118, 13, 10])] s [Some (Stored STORED)]"
    "assoc_find (items (cache s)) (table (cache s)) [97] (demo_hash [97]) = Some (Inr (Some a))"
    "\<not> dead (e_cfg demo_env) (e_now demo_env) (items (cache s) a)" "length (mac (items (cache s) a)) = 32" "nbytes (items (cache s) a) = 3"
    "idata (items (cache s) a) = [118, 13, 10]"
    "\<exists>s' fl c. serve demo_env (Get [97] 0 False) s = Some (Inr (s', Some (Value [97] fl c [118, 13, 10] MT_SUCCESS)))"
proof -
  let ?req = "Set [97] 0 0 [118, 13, 10]"
  obtain s0 where s0: "started demo_hash 1 [] s0 []" "it_flags (items (cache s0) 0) = ITEM_SLABBED" using demo_start .
  have ok0: "server_ok (e_hash demo_env) Map.empty [] [] s0" using started_ok(1) [OF s0(1)] demo_env_ok(3) by simp
  obtain s where s: "process_update_command demo_env NREAD_SET [97] 0 0 1 0 [118, 13, 10] s0 = Some (Inr (s, Stored STORED))"
    "served demo_hash Map.empty [] [] ?req s0 s (Some (Stored STORED))" "linked_until demo_hash [97] 0 0 s"
    using process_set_ok [OF ok0 demo_env_ok(1) [folded demo_env_ok(3)] demo_request [of 97 118]] demo_granted [OF s0(2), of 97 118] demo_env_ok(3) by auto
  have ok: "server_ok (e_hash demo_env) [[97] \<mapsto> [118, 13, 10]] [code_leaf [118, 13, 10]] [code_leaf [118, 13, 10]] s"
    using s(2) demo_env_ok(3) by (simp add: served_def observe_def leaves_def)
  then obtain m where m: "kv_ok demo_hash m (\<lambda>_. 0) (cache s)" "stored_ok [[97] \<mapsto> [118, 13, 10]] [code_leaf [118, 13, 10]] m (cache s)"
    using demo_env_ok(3) by (auto simp: server_ok_def)
  obtain m' a where a: "kv_ok demo_hash m' (\<lambda>_. 0) (cache s)" "m' [97] = Some a" "exptime (items (cache s) a) = 0" using s(3) by (auto simp: linked_until_def)
  have find: "assoc_find (items (cache s)) (table (cache s)) [97] (demo_hash [97]) = Some (Inr (Some a))" using kv_ok_find [OF a(1)] a(2) by simp
  then have ma: "m [97] = Some a" using kv_ok_find_iff [OF m(1)] by simp
  have "length (mac (items (cache s) a)) = 32" "[[97] \<mapsto> [118, 13, 10]] (ikey (items (cache s) a)) = Some (idata (items (cache s) a))"
    "nbytes (items (cache s) a) = int (length (idata (items (cache s) a)))" using m(2) ma unfolding stored_ok_def by (blast intro: ranI)+
  moreover from this(2) have "idata (items (cache s) a) = [118, 13, 10]" using kv_ok_key [OF m(1) ma] by simp
  ultimately have it: "length (mac (items (cache s) a)) = 32" "nbytes (items (cache s) a) = 3" "idata (items (cache s) a) = [118, 13, 10]" by simp_all
  have live: "\<not> dead (e_cfg demo_env) (e_now demo_env) (items (cache s) a)" using a(3) demo_env_ok(2) by (simp add: dead_def item_is_flushed_def)
  have "started demo_hash 1 [(demo_env, ?req)] s [Some (Stored STORED)]"
    using s0(1) s(1) demo_env_ok(1) demo_request [of 97 118] by (auto simp: started_def admissible_def serve_def)
  moreover have "\<exists>s' fl c. serve demo_env (Get [97] 0 False) s = Some (Inr (s', Some (Value [97] fl c [118, 13, 10] MT_SUCCESS)))"
    using genuine_get [OF ok m(1) [folded demo_env_ok(3)] ma live, of 0] by (auto simp: serve_def KEY_MAX_LENGTH_def)
  ultimately show ?thesis using that find live it by blast
qed




theorem forged_value_accepted_witness:
  "\<exists>s a s' fl c. started demo_hash 1 [(demo_env, Set [97] 0 0 [118, 13, 10])] s [Some (Stored STORED)]
    \<and> serve demo_env (Get [97] 0 False) (tamper a (code_leaf [118, 13, 10]) 0 [120, 13, 10] s)
      = Some (Inr (s', Some (Value [97] fl c [120, 13, 10] MT_SUCCESS)))"
proof -
  obtain s a where s: "started demo_hash 1 [(demo_env, Set [97] 0 0 [118, 13, 10])] s [Some (Stored STORED)]"
    "assoc_find (items (cache s)) (table (cache s)) [97] (demo_hash [97]) = Some (Inr (Some a))"
    "\<not> dead (e_cfg demo_env) (e_now demo_env) (items (cache s) a)" "nbytes (items (cache s) a) = 3" using demo_stored by metis
  have "\<exists>s' fl c. serve demo_env (Get [97] 0 False) (tamper a (code_leaf [118, 13, 10]) 0 [120, 13, 10] s)
      = Some (Inr (s', Some (Value [97] fl c [120, 13, 10] MT_SUCCESS)))"
    using forged_value_accepted [OF s(1) demo_env_ok(1) _ s(2,3), of 0 "[120, 13, 10]"] s(4) by (simp add: leaves_def KEY_MAX_LENGTH_def)
  then show ?thesis using s(1) by blast
qed

theorem failed_replace_breaks_next_item_witness:
  "\<exists>s s1 s2 s3 fl c r. started demo_hash 1 [] s []
    \<and> process_update_command demo_env NREAD_REPLACE [97] 0 0 (int (length [118 :: byte])) 0 ([118] @ [13, 10]) s = Some (Inr (s1, Stored NOT_STORED))
    \<and> serve demo_env (Set [98] 0 0 ([119] @ [13, 10])) s1 = Some (Inr (s2, Some (Stored STORED)))
    \<and> serve demo_env (Get [98] 0 False) s2 = Some (Inr (s3, Some (Value [98] fl c ([119] @ [13, 10]) r)))
    \<and> (code_leaf ([118] @ [13, 10]) = code_leaf ([119] @ [13, 10]) \<or> r = MT_ERR_ROOT_MISMATCH
       \<or> sha256_collision (tree_collision ([] @ [code_leaf ([118] @ [13, 10]), code_leaf ([119] @ [13, 10])])
            ([] @ [code_leaf ([119] @ [13, 10]), code_leaf ([119] @ [13, 10])])))"
proof -
  obtain s where s: "started demo_hash 1 [] s []" "it_flags (items (cache s) 0) = ITEM_SLABBED"
    "assoc_find (items (cache s)) (table (cache s)) [97] (demo_hash [97]) = Some (Inr None)" using demo_start .
  note r = demo_request [of 97 118] demo_request [of 98 119] and g = demo_granted [OF s(2), of 97 118]
  have ok: "server_ok (e_hash demo_env) Map.empty [] [] s" using started_ok(1) [OF s(1)] demo_env_ok(3) by simp
  obtain s1 where s1: "process_update_command demo_env NREAD_REPLACE [97] 0 0 (int (length [118 :: byte])) 0 ([118] @ [13, 10]) s = Some (Inr (s1, Stored NOT_STORED))"
    "it_flags (items (cache s1) 0) = ITEM_SLABBED"
    using replace_ok [OF ok _ demo_env_ok(1) [folded demo_env_ok(3)], of "[97]" 0 0 "[118]"] r(1) g s(2,3) demo_env_ok(3) by (auto simp: demo_env_def)
  have g1: "granted demo_env [98] 0 ([119] @ [13, 10]) s1" using demo_granted [OF s1(2), of 98 119] by simp
  have "\<exists>s2 s3 fl' c r. serve demo_env (Set [98] 0 0 ([119] @ [13, 10])) s1 = Some (Inr (s2, Some (Stored STORED)))
    \<and> serve demo_env (Get [98] 0 False) s2 = Some (Inr (s3, Some (Value [98] fl' c ([119] @ [13, 10]) r)))
    \<and> (code_leaf ([118] @ [13, 10]) = code_leaf ([119] @ [13, 10]) \<or> r = MT_ERR_ROOT_MISMATCH
       \<or> sha256_collision (tree_collision ([] @ [code_leaf ([118] @ [13, 10]), code_leaf ([119] @ [13, 10])])
            ([] @ [code_leaf ([119] @ [13, 10]), code_leaf ([119] @ [13, 10])])))"
    by (rule conjunct2 [OF failed_replace_breaks_next_item [OF s(1) _ _ demo_env_ok(1) _ _ s(3) s1(1) demo_env_ok(1) _ g1 demo_env_ok(1,2) _ refl refl]])
      (use r g in simp_all)
  then show ?thesis using s(1) s1(1) by blast
qed

theorem cache_bookkeeping_witness:
  "\<exists>s. started demo_hash 1 [(demo_env, Set [97] 0 0 [118, 13, 10])] s [Some (Stored STORED)]
    \<and> curr_items (cache s) = word_of_nat (card {a. \<exists>key. assoc_find (items (cache s)) (table (cache s)) key (demo_hash key) = Some (Inr (Some a))})"
proof -
  obtain s where s: "started demo_hash 1 [(demo_env, Set [97] 0 0 [118, 13, 10])] s [Some (Stored STORED)]" using demo_stored by metis
  from cache_bookkeeping [OF s refl refl] show ?thesis using s by blast
qed


end
