(* ===== verification/Spec2Isabelle.thy ===== *)
theory Spec2Isabelle
  imports Merkle Aes_Cmac Mc_Base64 Mc_Hash Mc_Bipbuf Mc_Util Mc_Assoc Mc_Stats_Prefix Mc_Automove_Ext Mc_Slabs Kvs_Integrity
begin

text \<open>
  KVSEV is a key-value store for AMD SEV virtual machines: memcached, extended by a layer that stores a message
  authentication code with every item and keeps the codes as the leaves of a Merkle tree. This library
  models the store from its cryptography over its memory management up to the requests of its clients, as the C sources have it.

  The parts and how they interact. A stored value is authenticated by AES-CMAC (\<^verbatim>\<open>src/src/merkle/aes-cbc-cmac.c\<close>
  on top of the cipher of \<^verbatim>\<open>TI_aes_128.c\<close>); the code becomes a leaf of the tree of \<^verbatim>\<open>mt_impl.c\<close>, whose levels
  are the growable arrays of \<^verbatim>\<open>mt_array_list.c\<close> and whose nodes are SHA-256 digests (\<^verbatim>\<open>mt_crypto.c\<close>,
  \<^verbatim>\<open>sha224-256.c\<close>). The items live in chunks of the slab allocator (\<^verbatim>\<open>src/memcached/slabs.c\<close>), are found
  through the hash table of \<^verbatim>\<open>assoc.c\<close> with one of the hash functions of \<^verbatim>\<open>jenkins_hash.c\<close>,
  \<^verbatim>\<open>murmur3_hash.c\<close> and \<^verbatim>\<open>hash.c\<close>; pages move between slab classes on the advice of
  \<^verbatim>\<open>slab_automove.c\<close> or \<^verbatim>\<open>slab_automove_extstore.c\<close>. \<^verbatim>\<open>items.c\<close> links items into the table and into the queues from which
  they are evicted; the commands of \<^verbatim>\<open>proto_text.c\<close>, with \<^verbatim>\<open>do_store_item\<close> of \<^verbatim>\<open>memcached.c\<close> and the entry points of \<^verbatim>\<open>thread.c\<close>, store,
  authenticate, verify and delete them. Around these stand the ring of \<^verbatim>\<open>bipbuffer.c\<close>,
  the statistics of \<^verbatim>\<open>stats_prefix.c\<close>, and the encoders and number routines of \<^verbatim>\<open>base64.c\<close>,
  \<^verbatim>\<open>itoa_ljust.c\<close> and \<^verbatim>\<open>util.c\<close>.

  The theories, each with the source it models, its state and what its lemmas show.

  \<^item> \<open>Kv_Prelude\<close>: the vocabulary. A computation that can end in a failed assertion, a bad access or an overflow that C
    leaves undefined is a value of type \<open>'a res = fault + 'a\<close>, sequenced by \<open>bindE\<close>; a pointer that may be NULL
    is an option; heap blocks carry whether they have been freed, so reads of uninitialised or
    freed memory and double frees are faults. Whether an allocation succeeds is an argument.

  \<^item> \<open>Mt_Array_List\<close> (\<^verbatim>\<open>mt_array_list.c\<close>): the record \<open>mt_al_t\<close> over a heap block. Under \<open>al_inv\<close> the array is the
    list \<open>al_hashes\<close>, and every operation is the list operation; the locale \<open>hash_array\<close> is the interface the
    tree relies on. The doubling of the store is exact up to 2^26 hashes.

  \<^item> \<open>Sha256\<close> (\<^verbatim>\<open>sha224-256.c\<close>, \<^verbatim>\<open>sha.h\<close>): context, padding and compression. The streaming calls compute a
    reference function of the concatenated input (locale \<open>stream_hash\<close>, for both digests); the length
    counter's overflow is shown too. \<open>Mt_Crypto\<close> (\<^verbatim>\<open>mt_crypto.c\<close>): the node hash, and that no call of it fails.

  \<^item> \<open>Merkle_Spec\<close>: the tree as a function of the list of leaves, for any node hash (locale \<open>node_combiner\<close>): levels, paths,
    root, and the extraction of a collision from two lists with one root. \<open>Merkle\<close> (\<^verbatim>\<open>mt_impl.c\<close>): every operation
    on the thirty arrays, the invariant \<open>mt_rep mt xs\<close> between a tree and its leaves, refinement of the
    operations to lists for runs of any length below 2^26 leaves, soundness of
    verification down to a computed SHA-256 collision, and what is left after a failed allocation. The locale
    \<open>authenticated_list\<close> is what the tree promises to the store.

  \<^item> \<open>Aes128\<close> (\<^verbatim>\<open>TI_aes_128.c\<close>): the cipher with its round keys computed in place, equal to FIPS 197, and its inverse.
    \<open>Aes_Cmac\<close> (\<^verbatim>\<open>aes-cbc-cmac.c\<close>): CMAC equals RFC 4493; CBC decrypts what it encrypted; the overrun of the
    decryption buffer.

  \<^item> \<open>Mc_Item\<close> (\<^verbatim>\<open>struct _stritem\<close> of \<^verbatim>\<open>memcached.h\<close>): items, in a store from addresses to records, so that chains and
    queues through shared items alias as in C. \<open>Mc_Assoc\<close> (\<^verbatim>\<open>assoc.c\<close>): the table while it is
    expanded bucket by bucket is a finite map from keys to items (locale \<open>item_table\<close>); expansion ends; an iteration visits
    every item once. \<open>Mc_Hash\<close>: the build variants of the Jenkins hash agree with one function of the
    bytes of the key.

  \<^item> \<open>Mc_Slabs\<close> (\<^verbatim>\<open>slabs.c\<close>): headers in memory, free lists threaded through them, pages and classes. In every state
    that allocation, freeing and page growth reach, free chunks are disjoint from each other and from
    what callers hold. \<open>Mc_Automove\<close> and \<open>Mc_Automove_Ext\<close>: every decision of the page movers names classes that exist,
    and a page is only taken from a class with pages to spare.

  \<^item> \<open>Mc_Items\<close> (\<^verbatim>\<open>items.c\<close>): the record \<open>kv\<close> of table, queues, counters and items; linking, unlinking, references, lookup with lazy expiry, the
    deferred moves. The invariant \<open>kv_ok hash m held s\<close> says that the table is the map \<open>m\<close>, the queues hold its items once each, a reference count is the
    link plus what is held by callers (\<open>held\<close>) and by deferred moves, and the counters and sizes are exact; every operation keeps it and runs into no assertion.
    \<open>Mc_Lru\<close> (\<^verbatim>\<open>items.c\<close>): the walk over the tail of a queue, allocation with eviction, the jobs of the maintainer thread. The slab allocator is an
    argument here, with the contract that a chunk it hands out was marked as free (\<open>slab_contract\<close>); \<open>Mc_Slabs\<close> has the allocator itself, over headers in
    memory, and shows that it hands out no chunk twice.

  \<^item> \<open>Kvs_Requests\<close> (\<^verbatim>\<open>proto_text.c\<close>, \<^verbatim>\<open>memcached.c\<close>, \<^verbatim>\<open>thread.c\<close>): the record \<open>server\<close> of items and tree, the storage commands in all their variants, get, delete, touch and the
    start. \<open>Kvs_Invariant\<close>: the locale \<open>item_cache\<close> between requests and items, the invariant \<open>server_ok\<close> that ties the code and the index of every linked item to
    the leaves, and one lemma for each request. \<open>Kvs_Integrity\<close>: runs of requests from the start. Values are read back with a successful
    check, keys stay missing after a miss or a deletion, a forged code is found out up to a SHA-256 collision; a forged value with a recorded code
    is not, and a failed replace shifts the indices of the items stored after it. The hypotheses on a run
    (\<open>env_ok\<close>, \<open>request_ok\<close>): one hash function, an allocator that keeps its contract, memory for the tree, tail repair off as is the default, keys that are not empty and
    values that fit one chunk and a signed 32-bit length.

  \<^item> \<open>Mc_Bipbuf\<close>, \<open>Mc_Stats_Prefix\<close>, \<open>Mc_Base64\<close>, \<open>Mc_Itoa\<close>, \<open>Mc_Util\<close>: the ring is a queue of bytes, a dump of the
    statistics fits the buffer computed for it, encoders and decoders and printers and
    parsers are inverse to each other, and where C integers wrap.

  Bounds and fuel. Machine integers keep their width; where the C code multiplies or shifts in 32 bits the lemmas
  carry the bound that avoids the wrap (2^26 leaves, hash powers below 32). Loops over a fixed range are
  recursions with a measure. Loops along chains of pointers, which a corrupted heap could make endless,
  are partial functions into \<open>'a res option\<close>, where \<open>None\<close> is not returning; the properties state that they return.

  Not modelled. Concurrency: the code takes locks around the operations modelled here, and the models are the sequential
  code between lock and unlock. Floating-point arithmetic, system calls and third-party code (XXH3, libevent, OpenSSL, SASL,
  the SEV interfaces of the kernel) are arguments of the definitions that use them, or the file that
  consists of them is left out: the event loop and the protocols' socket handling, tokenising and printing in \<^verbatim>\<open>memcached.c\<close>, \<^verbatim>\<open>proto_text.c\<close> and
  \<^verbatim>\<open>proto_bin.c\<close>, thread creation, logger, crawler, external storage, restart files, TLS, authentication, privilege dropping,
  the kernel module, the clients and the test programs. Of the items, the chains of chunks of large values, the printed statistics and
  the arithmetic commands, which parse item data in place, are left out. \<^verbatim>\<open>xxhash.h\<close> and \<^verbatim>\<open>queue.h\<close> are third-party headers.
\<close>

end
